(* ===== verification/Visor_Prelude.thy ===== *)
theory Visor_Prelude
  imports Main "HOL-Library.Word"
begin

text \<open>
  Shared vocabulary of the development: Rust's fixed-width integers as words, its
  \<open>Result\<close> type, a mutex that may be poisoned, little-endian byte encodings,
  slice copies, and the generic facts about them that the component theories use.

  Arithmetic follows the release profile of the workspace (\<^verbatim>\<open>src/Cargo.toml\<close> sets no
  \<^verbatim>\<open>overflow-checks\<close>): \<open>+\<close>, \<open>-\<close> and \<open>*\<close> on machine words wrap. \<open>usize\<close> is 64 bits wide;
  lengths of buffers are natural numbers.
\<close>

unbundle bit_operations_syntax

named_theorems le_eval \<open>evaluation of little-endian encodings at literal widths\<close>

section \<open>Types\<close>

type_synonym u8 = "8 word"
type_synonym u16 = "16 word"
type_synonym u32 = "32 word"
type_synonym u64 = "64 word"
type_synonym u128 = "128 word"

datatype ('a, 'e) result = Ok 'a | Err 'e

text \<open>Rust's \<open>Result::unwrap_or\<close> and the conversion of its success value.\<close>

primrec unwrap_or :: "('a, 'e) result \<Rightarrow> 'a \<Rightarrow> 'a" where
  "unwrap_or (Ok a) d = a"
| "unwrap_or (Err e) d = d"

primrec is_ok :: "('a, 'e) result \<Rightarrow> bool" where
  "is_ok (Ok a) = True"
| "is_ok (Err e) = False"

lemma is_ok_iff: "is_ok r \<longleftrightarrow> (\<exists>a. r = Ok a)"
  by (cases r) auto

text \<open>
  \<open>Mutex<T>\<close>: locking fails exactly when a previous holder panicked while it held the
  lock. No operation modelled here poisons a mutex; all of them handle a poisoned one.
\<close>

datatype 'd mutex = Healthy 'd | Poisoned

primrec lock :: "'d mutex \<Rightarrow> 'd option" where
  "lock (Healthy d) = Some d"
| "lock Poisoned = None"

lemma lock_eq_Some [simp]: "lock m = Some d \<longleftrightarrow> m = Healthy d"
  by (cases m) auto

lemma lock_eq_None [simp]: "lock m = None \<longleftrightarrow> m = Poisoned"
  by (cases m) auto

section \<open>Little-endian encodings\<close>

text \<open>
  \<open>le_bytes n w\<close> is the low \<open>n\<close> bytes of \<open>w\<close>, least significant first:
  \<open>w.to_le_bytes()\<close> for \<open>n = size_of::<T>()\<close>. \<open>le_word\<close> is \<open>from_le_bytes\<close>.
\<close>

primrec le_bytes :: "nat \<Rightarrow> 'a::len word \<Rightarrow> u8 list" where
  "le_bytes 0 w = []"
| "le_bytes (Suc n) w = ucast w # le_bytes n (drop_bit 8 w)"

primrec le_word :: "u8 list \<Rightarrow> 'a::len word" where
  "le_word [] = 0"
| "le_word (b # bs) = ucast b OR push_bit 8 (le_word bs)"

lemma length_le_bytes [simp]: "length (le_bytes n w) = n"
  by (induction n arbitrary: w) auto

lemma le_bytes_eq_Nil [simp]: "le_bytes n w = [] \<longleftrightarrow> n = 0"
  by (cases n) auto

lemma le_bytes_numeral [le_eval]:
  "le_bytes (numeral k) w = ucast w # le_bytes (pred_numeral k) (drop_bit 8 w)"
  by (subst numeral_eq_Suc) (simp only: le_bytes.simps)

lemma nth_le_bytes: "i < n \<Longrightarrow> le_bytes n w ! i = ucast (drop_bit (8 * i) w)"
proof (induction n arbitrary: w i)
  case 0
  then show ?case by simp
next
  case (Suc n)
  then show ?case by (cases i) (auto simp: algebra_simps)
qed

lemma bit_le_word:
  "bit (le_word bs :: 'a::len word) k \<longleftrightarrow>
     k < LENGTH('a) \<and> k < 8 * length bs \<and> bit (bs ! (k div 8)) (k mod 8)"
proof (induction bs arbitrary: k)
  case Nil
  then show ?case by simp
next
  case (Cons b bs)
  show ?case
  proof (cases "k < 8")
    case True
    then show ?thesis by (auto simp: bit_simps)
  next
    case False
    then have k: "k div 8 = Suc ((k - 8) div 8)" "k mod 8 = (k - 8) mod 8"
      by (simp_all add: le_div_geq le_mod_geq not_less)
    have "\<not> bit b k" using False by (auto dest: bit_imp_le_length)
    then show ?thesis using False by (auto simp: bit_simps Cons k)
  qed
qed

lemma le_word_le_bytes: "le_word (le_bytes n (w::'a::len word)) = take_bit (8 * n) w"
proof (induction n arbitrary: w)
  case 0
  then show ?case by simp
next
  case (Suc n)
  show ?case
    by (rule bit_eqI) (auto simp: Suc bit_simps)
qed

lemma le_word_le_bytes_full [simp]:
  "LENGTH('a::len) \<le> 8 * n \<Longrightarrow> le_word (le_bytes n (w::'a word)) = w"
  by (simp add: le_word_le_bytes take_bit_word_eq_self)

lemma le_bytes_le_word:
  assumes "length bs = n" "8 * n \<le> LENGTH('a::len)"
  shows "le_bytes n (le_word bs :: 'a word) = bs"
proof (rule nth_equalityI)
  show "length (le_bytes n (le_word bs :: 'a word)) = length bs"
    using assms by simp
next
  fix i assume "i < length (le_bytes n (le_word bs :: 'a word))"
  then have i: "i < n" by simp
  have "ucast (drop_bit (8 * i) (le_word bs :: 'a word)) = bs ! i"
  proof (rule bit_eqI)
    fix k assume "possible_bit TYPE(u8) k"
    then have k: "k < 8" by simp
    then have "(8 * i + k) div 8 = i" "(8 * i + k) mod 8 = k" by auto
    moreover have "8 * i + k < 8 * n" using i k by linarith
    ultimately show "bit (ucast (drop_bit (8 * i) (le_word bs :: 'a word)) :: u8) k = bit (bs ! i) k"
      using assms k by (simp add: bit_simps bit_le_word)
  qed
  then show "le_bytes n (le_word bs :: 'a word) ! i = bs ! i"
    using i by (simp add: nth_le_bytes)
qed

section \<open>Slices\<close>

text \<open>
  \<open>slice i n xs\<close> is \<open>xs[i..i+n]\<close> and \<open>splice i ys xs\<close> is
  \<open>xs[i..i+ys.len()].copy_from_slice(ys)\<close>, for ranges within bounds.
\<close>

definition slice :: "nat \<Rightarrow> nat \<Rightarrow> 'a list \<Rightarrow> 'a list" where
  "slice i n xs = take n (drop i xs)"

definition splice_at :: "nat \<Rightarrow> 'a list \<Rightarrow> 'a list \<Rightarrow> 'a list" where
  "splice_at i ys xs = take i xs @ ys @ drop (i + length ys) xs"

lemma length_slice [simp]: "i + n \<le> length xs \<Longrightarrow> length (slice i n xs) = n"
  by (simp add: slice_def)

lemma length_splice_at [simp]:
  "i + length ys \<le> length xs \<Longrightarrow> length (splice_at i ys xs) = length xs"
  by (simp add: splice_at_def)

lemma nth_slice: "j < n \<Longrightarrow> i + n \<le> length xs \<Longrightarrow> slice i n xs ! j = xs ! (i + j)"
  by (simp add: slice_def)

lemma nth_splice_at:
  assumes "i + length ys \<le> length xs" "j < length xs"
  shows "splice_at i ys xs ! j =
    (if j < i then xs ! j else if j < i + length ys then ys ! (j - i) else xs ! j)"
proof (cases "j < i")
  case True
  with assms show ?thesis by (simp add: splice_at_def nth_append)
next
  case False
  then show ?thesis
    using assms by (auto simp: splice_at_def nth_append min_def algebra_simps)
qed

lemma slice_splice_same [simp]:
  "i + length ys \<le> length xs \<Longrightarrow> n = length ys \<Longrightarrow> slice i n (splice_at i ys xs) = ys"
  by (simp add: slice_def splice_at_def)

lemma slice_splice_other:
  assumes "i + length ys \<le> length xs" "j + n \<le> length xs"
    and "j + n \<le> i \<or> i + length ys \<le> j"
  shows "slice j n (splice_at i ys xs) = slice j n xs"
proof (rule nth_equalityI)
  show "length (slice j n (splice_at i ys xs)) = length (slice j n xs)"
    using assms by simp
next
  fix k assume "k < length (slice j n (splice_at i ys xs))"
  then have k: "k < n" using assms by simp
  then show "slice j n (splice_at i ys xs) ! k = slice j n xs ! k"
    using assms by (auto simp: nth_slice nth_splice_at)
qed

lemma splice_at_Nil [simp]: "splice_at i [] xs = xs"
  by (simp add: splice_at_def)

section \<open>Words as bounded numbers\<close>

lemma unat_mod_word: "unat ((a::'a::len word) mod b) = unat a mod unat b"
  by (simp add: unat_mod)

lemma unat_ucast_up:
  assumes "LENGTH('a::len) \<le> LENGTH('b::len)"
  shows "unat (ucast (w::'a word) :: 'b word) = unat w"
proof -
  have "unat w < 2 ^ LENGTH('a)" by (rule unsigned_less)
  also have "\<dots> \<le> 2 ^ LENGTH('b)" using assms by (simp add: power_increasing)
  finally have "unat w < 2 ^ LENGTH('b)" .
  then show ?thesis by (simp add: unsigned_ucast_eq take_bit_nat_eq_self)
qed

text \<open>\<open>u32::try_from(n).unwrap_or(u32::MAX)\<close>\<close>

definition u32_sat :: "nat \<Rightarrow> u32" where
  "u32_sat n = (if n < 2 ^ 32 then of_nat n else 0xFFFFFFFF)"

lemma unat_u32_sat: "unat (u32_sat n) = min n (2 ^ 32 - 1)"
  by (auto simp: u32_sat_def unsigned_of_nat take_bit_nat_eq_self)

text \<open>\<open>u32::saturating_add\<close>\<close>

definition u32_saturating_add :: "u32 \<Rightarrow> u32 \<Rightarrow> u32" where
  "u32_saturating_add a b = u32_sat (unat a + unat b)"

lemma unat_u32_saturating_add: "unat (u32_saturating_add a b) = min (unat a + unat b) (2 ^ 32 - 1)"
  by (simp add: u32_saturating_add_def unat_u32_sat)

lemma unat_pow2:
  assumes "j < 32"
  shows "unat ((2 :: u32) ^ j) = 2 ^ j"
proof -
  have lt: "(2 :: nat) ^ j < 2 ^ 32" using assms by (rule power_strict_increasing) simp
  have "unat ((2 :: u32) ^ j) = unat (of_nat (2 ^ j) :: u32)" by simp
  also have "\<dots> = take_bit 32 (2 ^ j)" unfolding unsigned_of_nat by simp
  also have "\<dots> = 2 ^ j" using lt by (rule take_bit_nat_eq_self)
  finally show ?thesis .
qed

end
