(* ===== verification/Guest_Memory.thy ===== *)
theory Guest_Memory
  imports Visor_Prelude
begin

text \<open>
  Guest physical memory, \<^verbatim>\<open>src/crates/visor-vmm/src/memory.rs\<close>. The mapped region is the list
  of its bytes; a host pointer into it is the offset of the byte it addresses. The
  \<open>mmap\<close> system call is a parameter that says whether a request of the given size and
  page kind succeeds; an anonymous mapping is zero-filled.

  The locale \<open>guest_ram\<close> states what the device models rely on: reads and writes
  succeed exactly on valid ranges, a read returns what was last written, and disjoint
  ranges do not interfere. \<open>GuestMemory\<close> is shown to provide it.
\<close>

section \<open>Data\<close>

datatype huge_page_size = HugeNone | TwoMiB | OneGiB

datatype memory_error =
    Allocation nat
  | OutOfBounds u64 nat
  | AccessOverflow u64 nat nat

record huge_page_info =
  two_mib_total :: u64
  two_mib_available :: u64
  one_gib_total :: u64
  one_gib_available :: u64

record guest_memory =
  gm_bytes :: "u8 list"
  gm_size :: nat
  guest_base :: u64
  huge_pages :: bool

section \<open>Operations\<close>

fun size_bytes :: "huge_page_size \<Rightarrow> nat" where
  "size_bytes HugeNone = 0"
| "size_bytes TwoMiB = 2 * 1024 * 1024"
| "size_bytes OneGiB = 1024 * 1024 * 1024"

fun huge_page_info_has :: "huge_page_info \<Rightarrow> huge_page_size \<Rightarrow> bool" where
  "huge_page_info_has i HugeNone = True"
| "huge_page_info_has i TwoMiB = (two_mib_available i > 0)"
| "huge_page_info_has i OneGiB = (one_gib_available i > 0)"

definition guest_memory_new ::
  "(nat \<Rightarrow> huge_page_size \<Rightarrow> bool) \<Rightarrow> nat \<Rightarrow> u64 \<Rightarrow> (guest_memory, memory_error) result" where
  "guest_memory_new mmap sz base =
     (if \<not> mmap sz HugeNone then Err (Allocation sz)
      else Ok \<lparr>gm_bytes = replicate sz 0, gm_size = sz, guest_base = base, huge_pages = False\<rparr>)"

definition with_huge_pages ::
  "(nat \<Rightarrow> huge_page_size \<Rightarrow> bool) \<Rightarrow> nat \<Rightarrow> u64 \<Rightarrow> huge_page_size \<Rightarrow>
     (guest_memory, memory_error) result" where
  "with_huge_pages mmap sz base hps =
     (if hps = HugeNone then guest_memory_new mmap sz base
      else if sz mod size_bytes hps \<noteq> 0 then guest_memory_new mmap sz base
      else if \<not> mmap sz hps then guest_memory_new mmap sz base
      else Ok \<lparr>gm_bytes = replicate sz 0, gm_size = sz, guest_base = base, huge_pages = True\<rparr>)"

definition guest_offset :: "guest_memory \<Rightarrow> u64 \<Rightarrow> (nat, memory_error) result" where
  "guest_offset m addr =
     (if addr < guest_base m then Err (OutOfBounds addr (gm_size m))
      else Ok (unat (addr - guest_base m)))"

definition guest_to_host :: "guest_memory \<Rightarrow> u64 \<Rightarrow> nat option" where
  "guest_to_host m addr =
     (if addr < guest_base m then None
      else let off = unat (addr - guest_base m)
           in if off \<ge> gm_size m then None else Some off)"

definition write_bytes ::
  "guest_memory \<Rightarrow> u64 \<Rightarrow> u8 list \<Rightarrow> (guest_memory, memory_error) result" where
  "write_bytes m addr data =
     (case guest_to_host m addr of
        None \<Rightarrow> Err (OutOfBounds addr (gm_size m))
      | Some host \<Rightarrow>
          (case guest_offset m addr of
             Err e \<Rightarrow> Err e
           | Ok off \<Rightarrow>
               if off + length data > gm_size m
               then Err (AccessOverflow addr (length data) (gm_size m))
               else Ok (m\<lparr>gm_bytes := splice_at host data (gm_bytes m)\<rparr>)))"

definition read_bytes ::
  "guest_memory \<Rightarrow> u64 \<Rightarrow> nat \<Rightarrow> (u8 list, memory_error) result" where
  "read_bytes m addr len =
     (case guest_to_host m addr of
        None \<Rightarrow> Err (OutOfBounds addr (gm_size m))
      | Some host \<Rightarrow>
          (case guest_offset m addr of
             Err e \<Rightarrow> Err e
           | Ok off \<Rightarrow>
               if off + len > gm_size m
               then Err (AccessOverflow addr len (gm_size m))
               else Ok (slice host len (gm_bytes m))))"

section \<open>Well-formedness and valid ranges\<close>

text \<open>
  The region has exactly \<open>size\<close> bytes and lies within the 64-bit guest physical address
  space; a range is valid when it is inside the region and its first byte exists.
\<close>

definition mem_wf :: "guest_memory \<Rightarrow> bool" where
  "mem_wf m \<longleftrightarrow> length (gm_bytes m) = gm_size m \<and> unat (guest_base m) + gm_size m \<le> 2 ^ 64"

definition valid_range :: "guest_memory \<Rightarrow> u64 \<Rightarrow> nat \<Rightarrow> bool" where
  "valid_range m addr len \<longleftrightarrow>
     unat (guest_base m) \<le> unat addr \<and>
     unat addr < unat (guest_base m) + gm_size m \<and>
     unat addr + len \<le> unat (guest_base m) + gm_size m"

definition disjoint_ranges :: "u64 \<Rightarrow> nat \<Rightarrow> u64 \<Rightarrow> nat \<Rightarrow> bool" where
  "disjoint_ranges a n b k \<longleftrightarrow> unat a + n \<le> unat b \<or> unat b + k \<le> unat a"

lemma guest_to_host_eq:
  "guest_to_host m a =
     (if valid_range m a 0 then Some (unat a - unat (guest_base m)) else None)"
  by (auto simp: guest_to_host_def valid_range_def Let_def unat_sub word_less_nat_alt word_le_nat_alt)

lemma guest_offset_eq:
  "guest_offset m a =
     (if guest_base m \<le> a then Ok (unat a - unat (guest_base m)) else Err (OutOfBounds a (gm_size m)))"
  by (auto simp: guest_offset_def unat_sub word_less_nat_alt word_le_nat_alt)

lemma write_bytes_eq:
  "write_bytes m a d =
     (if \<not> valid_range m a 0 then Err (OutOfBounds a (gm_size m))
      else if \<not> valid_range m a (length d) then Err (AccessOverflow a (length d) (gm_size m))
      else Ok (m\<lparr>gm_bytes := splice_at (unat a - unat (guest_base m)) d (gm_bytes m)\<rparr>))"
  by (auto simp: write_bytes_def guest_to_host_eq guest_offset_eq valid_range_def word_le_nat_alt)

lemma read_bytes_eq:
  "read_bytes m a n =
     (if \<not> valid_range m a 0 then Err (OutOfBounds a (gm_size m))
      else if \<not> valid_range m a n then Err (AccessOverflow a n (gm_size m))
      else Ok (slice (unat a - unat (guest_base m)) n (gm_bytes m)))"
  by (auto simp: read_bytes_def guest_to_host_eq guest_offset_eq valid_range_def word_le_nat_alt)

lemma valid_range_mono: "valid_range m a n \<Longrightarrow> k \<le> n \<Longrightarrow> valid_range m a k"
  by (auto simp: valid_range_def)

section \<open>The interface the devices rely on\<close>

locale guest_ram =
  fixes rd :: "'m \<Rightarrow> u64 \<Rightarrow> nat \<Rightarrow> (u8 list, 'e) result"
    and wr :: "'m \<Rightarrow> u64 \<Rightarrow> u8 list \<Rightarrow> ('m, 'e) result"
    and inv :: "'m \<Rightarrow> bool"
    and valid :: "'m \<Rightarrow> u64 \<Rightarrow> nat \<Rightarrow> bool"
  assumes rd_ok_iff: "is_ok (rd m a n) \<longleftrightarrow> valid m a n"
    and rd_length: "inv m \<Longrightarrow> rd m a n = Ok bs \<Longrightarrow> length bs = n"
    and wr_ok_iff: "is_ok (wr m a d) \<longleftrightarrow> valid m a (length d)"
    and wr_inv: "inv m \<Longrightarrow> wr m a d = Ok m' \<Longrightarrow> inv m'"
    and wr_valid: "wr m a d = Ok m' \<Longrightarrow> valid m' b k = valid m b k"
    and rd_wr_same: "inv m \<Longrightarrow> wr m a d = Ok m' \<Longrightarrow> rd m' a (length d) = Ok d"
    and rd_wr_other: "inv m \<Longrightarrow> wr m a d = Ok m' \<Longrightarrow> disjoint_ranges a (length d) b k \<Longrightarrow>
        rd m' b k = rd m b k"
begin

lemma rd_valid: "valid m a n \<Longrightarrow> \<exists>bs. rd m a n = Ok bs"
  using rd_ok_iff [of m a n] by (auto simp: is_ok_iff)

lemma wr_valid_ok: "valid m a (length d) \<Longrightarrow> \<exists>m'. wr m a d = Ok m'"
  using wr_ok_iff [of m a d] by (auto simp: is_ok_iff)

lemma rd_Ok_valid: "rd m a n = Ok bs \<Longrightarrow> valid m a n"
  using rd_ok_iff [of m a n] by simp

lemma wr_Ok_valid: "wr m a d = Ok m' \<Longrightarrow> valid m a (length d)"
  using wr_ok_iff [of m a d] by simp

text \<open>Two writes to disjoint ranges: both values can be read back.\<close>

lemma rd_wr_wr:
  assumes "inv m" "wr m a d = Ok m1" "wr m1 b e = Ok m2"
    and "disjoint_ranges b (length e) a (length d)"
  shows "rd m2 a (length d) = Ok d" "rd m2 b (length e) = Ok e"
proof -
  have i1: "inv m1" using assms(1,2) by (rule wr_inv)
  show "rd m2 a (length d) = Ok d"
    using rd_wr_other [OF i1 assms(3,4)] rd_wr_same [OF assms(1,2)] by simp
  show "rd m2 b (length e) = Ok e"
    using rd_wr_same [OF i1 assms(3)] .
qed

end

lemma mem_wf_write:
  "mem_wf m \<Longrightarrow> write_bytes m a d = Ok m' \<Longrightarrow> mem_wf m'"
  by (auto simp: mem_wf_def write_bytes_eq valid_range_def split: if_splits)

lemma write_bytes_frame:
  assumes "write_bytes m a d = Ok m'"
  shows "gm_size m' = gm_size m" "guest_base m' = guest_base m" "huge_pages m' = huge_pages m"
  using assms by (auto simp: write_bytes_eq split: if_splits)

interpretation ram: guest_ram read_bytes write_bytes mem_wf valid_range
proof (unfold_locales, goal_cases)
  case (1 m a n)
  then show ?case using valid_range_mono [of m a n 0] by (auto simp: read_bytes_eq)
next
  case (2 m a n bs)
  then show ?case by (auto simp: read_bytes_eq mem_wf_def valid_range_def split: if_splits)
next
  case (3 m a d)
  then show ?case using valid_range_mono [of m a "length d" 0] by (auto simp: write_bytes_eq)
next
  case (4 m a d m')
  then show ?case by (rule mem_wf_write)
next
  case (5 m a d m' b k)
  then show ?case by (simp add: valid_range_def write_bytes_frame)
next
  case (6 m a d m')
  then show ?case
    by (auto simp: read_bytes_eq write_bytes_eq mem_wf_def valid_range_def split: if_splits)
next
  case (7 m a d m' b k)
  then have len: "length (gm_bytes m) = gm_size m" by (simp add: mem_wf_def)
  show ?case
  proof (cases "valid_range m b k")
    case True
    with 7 len show ?thesis
      by (auto simp: read_bytes_eq write_bytes_eq valid_range_def disjoint_ranges_def
          intro!: slice_splice_other split: if_splits)
  next
    case False
    with 7 show ?thesis
      by (auto simp: read_bytes_eq valid_range_def write_bytes_frame)
  qed
qed

text \<open>The same facts at byte granularity: a write changes exactly the bytes of its range.\<close>

lemma write_bytes_nth:
  assumes "mem_wf m" "write_bytes m a d = Ok m'" "i < gm_size m"
  shows "gm_bytes m' ! i =
    (let off = unat a - unat (guest_base m)
     in if off \<le> i \<and> i < off + length d then d ! (i - off) else gm_bytes m ! i)"
  using assms
  by (auto simp: write_bytes_eq mem_wf_def valid_range_def Let_def nth_splice_at split: if_splits)

text \<open>
  C38. A write into guest memory succeeds exactly when its whole range lies in the region.
  The memory then stays well formed, the same range reads back the bytes written, every
  disjoint range reads as before, and a failing access reports the address and the region.
\<close>

theorem memory_write_exact:
  assumes "mem_wf m"
  shows "(is_ok (write_bytes m a bs) \<longleftrightarrow> valid_range m a (length bs)) \<and>
    (\<forall>m'. write_bytes m a bs = Ok m' \<longrightarrow>
       mem_wf m' \<and> read_bytes m' a (length bs) = Ok bs \<and>
       (\<forall>b k. disjoint_ranges a (length bs) b k \<longrightarrow> read_bytes m' b k = read_bytes m b k)) \<and>
    (\<forall>e. write_bytes m a bs = Err e \<longrightarrow>
       e \<in> {OutOfBounds a (gm_size m), AccessOverflow a (length bs) (gm_size m)})"
  using assms ram.wr_ok_iff [of m a bs] mem_wf_write ram.rd_wr_same ram.rd_wr_other
  by (auto simp: write_bytes_eq split: if_splits)

theorem memory_write_exact_witness:
  "\<exists>m'. write_bytes \<lparr>gm_bytes = [1, 2, 3, 4], gm_size = 4, guest_base = 0x1000, huge_pages = False\<rparr>
      0x1001 [9, 8] = Ok m' \<and> read_bytes m' 0x1001 2 = Ok [9, 8] \<and> read_bytes m' 0x1003 1 = Ok [4]"
proof -
  let ?m = "\<lparr>gm_bytes = [1, 2, 3, 4], gm_size = 4, guest_base = 0x1000, huge_pages = False\<rparr>"
  have wf: "mem_wf ?m" by (simp add: mem_wf_def)
  note th = memory_write_exact [OF wf, of "0x1001" "[9, 8]"]
  have "valid_range ?m 0x1001 2" by (simp add: valid_range_def)
  then obtain m' where m': "write_bytes ?m 0x1001 [9, 8] = Ok m'"
    using th by (auto simp: is_ok_iff numeral_2_eq_2)
  have "disjoint_ranges 0x1001 2 0x1003 1" by (simp add: disjoint_ranges_def)
  moreover have "read_bytes ?m 0x1003 1 = Ok [4]" by code_simp
  ultimately show ?thesis using th m' by (auto simp: numeral_2_eq_2)
qed

end
