(* ===== verification/Virt_Queue.thy ===== *)
theory Virt_Queue
  imports Guest_Memory
begin

text \<open>
  Split virtqueues, \<^verbatim>\<open>src/crates/visor-vmm/src/transport/mod.rs\<close>, and the ring accesses that the
  device backends make on them (the same code stands in \<^verbatim>\<open>devices/block.rs\<close> and
  \<^verbatim>\<open>devices/vsock.rs\<close>, each with its own error type, so the accessors here take the
  injections into that type as arguments).
\<close>

section \<open>Data\<close>

datatype device_type = Net | Block | Console | Rng | Balloon | Vsock | Fs

fun device_type_id :: "device_type \<Rightarrow> u32" where
  "device_type_id Net = 1"
| "device_type_id Block = 2"
| "device_type_id Console = 3"
| "device_type_id Rng = 4"
| "device_type_id Balloon = 5"
| "device_type_id Vsock = 19"
| "device_type_id Fs = 26"

datatype virtio_error = ActivationFailed

abbreviation (input) VIRTIO_F_VERSION_1 :: u64 where "VIRTIO_F_VERSION_1 \<equiv> 0x100000000"
abbreviation (input) VIRTQ_DESC_F_NEXT :: u16 where "VIRTQ_DESC_F_NEXT \<equiv> 0x1"
abbreviation (input) VIRTQ_DESC_F_WRITE :: u16 where "VIRTQ_DESC_F_WRITE \<equiv> 0x2"

record virtq_desc =
  d_addr :: u64
  d_len :: u32
  d_flags :: u16
  d_next :: u16

definition has_next :: "virtq_desc \<Rightarrow> bool" where
  "has_next d \<longleftrightarrow> d_flags d AND VIRTQ_DESC_F_NEXT \<noteq> 0"

definition is_write_only :: "virtq_desc \<Rightarrow> bool" where
  "is_write_only d \<longleftrightarrow> d_flags d AND VIRTQ_DESC_F_WRITE \<noteq> 0"

record virt_queue =
  max_size :: u16
  q_size :: u16
  q_ready :: bool
  desc_table_addr :: u64
  avail_ring_addr :: u64
  used_ring_addr :: u64
  last_avail_idx :: u16
  last_used_idx :: u16

definition virt_queue_new :: "u16 \<Rightarrow> virt_queue" where
  "virt_queue_new n = \<lparr>max_size = n, q_size = 0, q_ready = False, desc_table_addr = 0,
     avail_ring_addr = 0, used_ring_addr = 0, last_avail_idx = 0, last_used_idx = 0\<rparr>"

definition virt_queue_reset :: "virt_queue \<Rightarrow> virt_queue" where
  "virt_queue_reset q = q\<lparr>q_size := 0, q_ready := False, desc_table_addr := 0,
     avail_ring_addr := 0, used_ring_addr := 0, last_avail_idx := 0, last_used_idx := 0\<rparr>"

lemma virt_queue_reset_new: "virt_queue_reset q = virt_queue_new (max_size q)"
  by (simp add: virt_queue_reset_def virt_queue_new_def)

section \<open>Descriptor table\<close>

text \<open>Why a descriptor chain is refused; the source carries these as message strings.\<close>

datatype desc_problem =
    IndexOutOfQueue u16 u16
  | HeaderHasWriteFlag
  | HeaderTooSmall
  | HeaderHasNoNext
  | ChainCycle
  | NoDataOrStatus
  | StatusNotWritable
  | ChainCycleInStatusWrite

definition parse_desc :: "u8 list \<Rightarrow> virtq_desc" where
  "parse_desc bs = \<lparr>d_addr = le_word (slice 0 8 bs), d_len = le_word (slice 8 4 bs),
     d_flags = le_word (slice 12 2 bs), d_next = le_word (slice 14 2 bs)\<rparr>"

definition desc_bytes :: "virtq_desc \<Rightarrow> u8 list" where
  "desc_bytes d = le_bytes 8 (d_addr d) @ le_bytes 4 (d_len d) @ le_bytes 2 (d_flags d) @ le_bytes 2 (d_next d)"

lemma parse_desc_bytes: "parse_desc (desc_bytes d) = d"
  by (simp add: parse_desc_def desc_bytes_def slice_def)

definition read_desc ::
  "(memory_error \<Rightarrow> 'e) \<Rightarrow> (desc_problem \<Rightarrow> 'e) \<Rightarrow> guest_memory \<Rightarrow> virt_queue \<Rightarrow> u16 \<Rightarrow>
     (virtq_desc, 'e) result" where
  "read_desc memE invE mem q idx =
     (if idx \<ge> q_size q then Err (invE (IndexOutOfQueue idx (q_size q)))
      else case read_bytes mem (desc_table_addr q + ucast idx * 16) 16 of
             Err e \<Rightarrow> Err (memE e)
           | Ok bs \<Rightarrow> Ok (parse_desc bs))"

lemma read_desc_Ok_index: "read_desc f g mem q i = Ok d \<Longrightarrow> i < q_size q"
  by (auto simp: read_desc_def split: if_splits)

text \<open>Only the queue's geometry matters to a descriptor read, not its running indices.\<close>

lemma read_desc_indices [simp]:
  "read_desc f g mem (q\<lparr>last_avail_idx := a\<rparr>) i = read_desc f g mem q i"
  "read_desc f g mem (q\<lparr>last_used_idx := a\<rparr>) i = read_desc f g mem q i"
  by (simp_all add: read_desc_def)

section \<open>Rings\<close>

definition read_avail_idx ::
  "(memory_error \<Rightarrow> 'e) \<Rightarrow> guest_memory \<Rightarrow> virt_queue \<Rightarrow> (u16, 'e) result" where
  "read_avail_idx memE mem q =
     (case read_bytes mem (avail_ring_addr q + 2) 2 of
        Err e \<Rightarrow> Err (memE e)
      | Ok bs \<Rightarrow> Ok (le_word bs))"

definition read_avail_entry ::
  "(memory_error \<Rightarrow> 'e) \<Rightarrow> guest_memory \<Rightarrow> virt_queue \<Rightarrow> (u16, 'e) result" where
  "read_avail_entry memE mem q =
     (let avail_offset = 4 + ucast (last_avail_idx q mod q_size q) * 2
      in case read_bytes mem (avail_ring_addr q + avail_offset) 2 of
           Err e \<Rightarrow> Err (memE e)
         | Ok bs \<Rightarrow> Ok (le_word bs))"

definition used_entry_addr :: "virt_queue \<Rightarrow> u64" where
  "used_entry_addr q = used_ring_addr q + (4 + ucast (last_used_idx q mod q_size q) * 8)"

text \<open>
  The id and the length are two writes; when the second fails the first has happened, so
  the memory is returned in every case.
\<close>

definition write_used_entry ::
  "(memory_error \<Rightarrow> 'e) \<Rightarrow> guest_memory \<Rightarrow> virt_queue \<Rightarrow> u16 \<Rightarrow> u32 \<Rightarrow>
     guest_memory \<times> (unit, 'e) result" where
  "write_used_entry memE mem q head_idx written =
     (let used_addr = used_entry_addr q
      in case write_bytes mem used_addr (le_bytes 4 (ucast head_idx :: u32)) of
           Err e \<Rightarrow> (mem, Err (memE e))
         | Ok mem1 \<Rightarrow>
             (case write_bytes mem1 (used_addr + 4) (le_bytes 4 written) of
                Err e \<Rightarrow> (mem1, Err (memE e))
              | Ok mem2 \<Rightarrow> (mem2, Ok ())))"

definition write_used_idx ::
  "(memory_error \<Rightarrow> 'e) \<Rightarrow> guest_memory \<Rightarrow> virt_queue \<Rightarrow> guest_memory \<times> (unit, 'e) result" where
  "write_used_idx memE mem q =
     (case write_bytes mem (used_ring_addr q + 2) (le_bytes 2 (last_used_idx q)) of
        Err e \<Rightarrow> (mem, Err (memE e))
      | Ok mem' \<Rightarrow> (mem', Ok ()))"

text \<open>Both indices move together, one step of the 16-bit wrapping counters.\<close>

definition advance :: "virt_queue \<Rightarrow> virt_queue" where
  "advance q = q\<lparr>last_avail_idx := last_avail_idx q + 1, last_used_idx := last_used_idx q + 1\<rparr>"

lemma advance_simps [simp]:
  "last_avail_idx (advance q) = last_avail_idx q + 1"
  "last_used_idx (advance q) = last_used_idx q + 1"
  "q_size (advance q) = q_size q" "q_ready (advance q) = q_ready q"
  "max_size (advance q) = max_size q"
  "desc_table_addr (advance q) = desc_table_addr q"
  "avail_ring_addr (advance q) = avail_ring_addr q"
  "used_ring_addr (advance q) = used_ring_addr q"
  "read_desc f g mem (advance q) = read_desc f g mem q"
  by (simp_all add: advance_def read_desc_def fun_eq_iff)

text \<open>
  The number of entries still to consume. It shrinks at every step even when the 16-bit
  counter wraps, which is why the queue loops end.
\<close>

definition pending_entries :: "virt_queue \<Rightarrow> u16 \<Rightarrow> nat" where
  "pending_entries q avail = unat (avail - last_avail_idx q)"

lemma pending_entries_advance:
  assumes "last_avail_idx q \<noteq> avail"
  shows "pending_entries (advance q) avail < pending_entries q avail"
proof -
  have "avail - last_avail_idx q \<noteq> 0" using assms by simp
  then have "unat (avail - last_avail_idx q - 1) < unat (avail - last_avail_idx q)"
    by (metis measure_unat)
  then show ?thesis by (simp add: pending_entries_def diff_diff_eq)
qed

section \<open>What the ring writes do\<close>

lemma write_used_entry_wf:
  "mem_wf mem \<Longrightarrow> write_used_entry f mem q h w = (mem', r) \<Longrightarrow> mem_wf mem'"
  by (auto simp: write_used_entry_def Let_def split: result.splits dest: mem_wf_write)

lemma write_used_idx_wf:
  "mem_wf mem \<Longrightarrow> write_used_idx f mem q = (mem', r) \<Longrightarrow> mem_wf mem'"
  by (auto simp: write_used_idx_def split: result.splits dest: mem_wf_write)

lemma write_used_idx_read:
  assumes "mem_wf mem" "write_used_idx f mem q = (mem', Ok ())"
  shows "read_bytes mem' (used_ring_addr q + 2) 2 = Ok (le_bytes 2 (last_used_idx q))"
  using assms ram.rd_wr_same [where a = "used_ring_addr q + 2" and d = "le_bytes 2 (last_used_idx q)"]
  by (auto simp: write_used_idx_def split: result.splits)

lemma le_word_used_idx [simp]: "le_word (le_bytes 2 (w :: u16)) = w"
  by simp

end
