(* ===== verification/Virtio_Device.thy ===== *)
theory Virtio_Device
  imports Virt_Queue
begin

text \<open>
  The trait \<open>VirtioDevice\<close> of \<^verbatim>\<open>src/crates/visor-vmm/src/transport/mod.rs\<close>. A
  \<open>dyn VirtioDevice\<close> is a state together with the record of its trait methods, so the
  transports are defined once for every backend, as in the source. The locale
  \<open>virtio_device\<close> is the contract the transports rely on; each backend theory
  interprets it on its own methods.
\<close>

record 'd virtio_ops =
  vd_device_type :: "'d \<Rightarrow> device_type"
  vd_avail_features :: "'d \<Rightarrow> u64"
  vd_acked_features :: "'d \<Rightarrow> u64"
  vd_set_acked_features :: "u64 \<Rightarrow> 'd \<Rightarrow> 'd"
  vd_queues :: "'d \<Rightarrow> virt_queue list"
  vd_update_queues :: "(virt_queue list \<Rightarrow> virt_queue list) \<Rightarrow> 'd \<Rightarrow> 'd"
  vd_read_config :: "'d \<Rightarrow> u64 \<Rightarrow> u8 list \<Rightarrow> u8 list"
  vd_write_config :: "u64 \<Rightarrow> u8 list \<Rightarrow> 'd \<Rightarrow> 'd"
  vd_activate :: "'d \<Rightarrow> 'd \<times> (unit, virtio_error) result"
  vd_is_activated :: "'d \<Rightarrow> bool"
  vd_reset :: "'d \<Rightarrow> 'd"
  vd_process_queue :: "nat \<Rightarrow> guest_memory \<Rightarrow> 'd \<Rightarrow>
     'd \<times> guest_memory \<times> (bool, virtio_error) result"

text \<open>
  What a driver negotiated with the device: everything but the running ring indices. Queue
  processing must not change it.
\<close>

definition queue_geometry :: "virt_queue \<Rightarrow> virt_queue" where
  "queue_geometry q = q\<lparr>last_avail_idx := 0, last_used_idx := 0\<rparr>"

lemma queue_geometry_simps [simp]:
  "queue_geometry (q\<lparr>last_avail_idx := a\<rparr>) = queue_geometry q"
  "queue_geometry (q\<lparr>last_used_idx := a\<rparr>) = queue_geometry q"
  "q_size (queue_geometry q) = q_size q"
  "max_size (queue_geometry q) = max_size q"
  by (simp_all add: queue_geometry_def)

lemma queue_geometry_advance [simp]: "queue_geometry (advance q) = queue_geometry q"
  by (simp add: queue_geometry_def advance_def)

locale virtio_device =
  fixes ops :: "'d virtio_ops"
  assumes set_acked: "vd_acked_features ops (vd_set_acked_features ops f d) = f"
    and set_acked_avail: "vd_avail_features ops (vd_set_acked_features ops f d) = vd_avail_features ops d"
    and set_acked_queues: "vd_queues ops (vd_set_acked_features ops f d) = vd_queues ops d"
    and set_acked_activated: "vd_is_activated ops (vd_set_acked_features ops f d) = vd_is_activated ops d"
    and upd_queues: "vd_queues ops (vd_update_queues ops g d) = g (vd_queues ops d)"
    and upd_queues_acked: "vd_acked_features ops (vd_update_queues ops g d) = vd_acked_features ops d"
    and upd_queues_avail: "vd_avail_features ops (vd_update_queues ops g d) = vd_avail_features ops d"
    and upd_queues_activated: "vd_is_activated ops (vd_update_queues ops g d) = vd_is_activated ops d"
    and activate_ok: "vd_activate ops d = (d', Ok ()) \<Longrightarrow> vd_is_activated ops d'"
    and activate_acked: "vd_activate ops d = (d', r) \<Longrightarrow> vd_acked_features ops d' = vd_acked_features ops d"
    and activate_avail: "vd_activate ops d = (d', r) \<Longrightarrow> vd_avail_features ops d' = vd_avail_features ops d"
    and activate_queues: "vd_activate ops d = (d', r) \<Longrightarrow> vd_queues ops d' = vd_queues ops d"
    and reset_activated: "\<not> vd_is_activated ops (vd_reset ops d)"
    and reset_avail: "vd_avail_features ops (vd_reset ops d) = vd_avail_features ops d"
    and reset_acked: "vd_acked_features ops (vd_reset ops d) AND NOT (vd_acked_features ops d) = 0"
    and reset_queues: "map max_size (vd_queues ops (vd_reset ops d)) = map max_size (vd_queues ops d)"
    and write_config_acked: "vd_acked_features ops (vd_write_config ops off bs d) = vd_acked_features ops d"
    and write_config_avail: "vd_avail_features ops (vd_write_config ops off bs d) = vd_avail_features ops d"
    and write_config_queues: "vd_queues ops (vd_write_config ops off bs d) = vd_queues ops d"
    and write_config_activated: "vd_is_activated ops (vd_write_config ops off bs d) = vd_is_activated ops d"
    and process_acked: "vd_process_queue ops i m d = (d', m', pr) \<Longrightarrow>
          vd_acked_features ops d' = vd_acked_features ops d"
    and process_avail: "vd_process_queue ops i m d = (d', m', pr) \<Longrightarrow>
          vd_avail_features ops d' = vd_avail_features ops d"
    and process_activated: "vd_process_queue ops i m d = (d', m', pr) \<Longrightarrow>
          vd_is_activated ops d' = vd_is_activated ops d"
    and process_queues: "vd_process_queue ops i m d = (d', m', pr) \<Longrightarrow>
          map queue_geometry (vd_queues ops d') = map queue_geometry (vd_queues ops d)"
    and process_mem: "mem_wf m \<Longrightarrow> vd_process_queue ops i m d = (d', m', pr) \<Longrightarrow> mem_wf m'"
    and read_config_length: "length (vd_read_config ops d off bs) = length bs"
begin

lemmas features_frame =
  set_acked set_acked_avail upd_queues_acked upd_queues_avail activate_acked activate_avail
  reset_avail write_config_acked write_config_avail process_acked process_avail

lemmas queue_frame =
  set_acked_queues upd_queues activate_queues write_config_queues

end

text \<open>
  Devices whose configuration space is a read-only little-endian number (the capacity of a
  block device, the guest CID of a vsock device) share this read: bytes past the end are zero.
\<close>

definition read_config_u64 :: "u64 \<Rightarrow> u64 \<Rightarrow> u8 list \<Rightarrow> u8 list" where
  "read_config_u64 cfg offset data =
     map (\<lambda>i. let idx = unat offset + i
              in if idx \<ge> 2 ^ 64 then 0
                 else if idx < 8 then le_bytes 8 cfg ! idx else 0)
       [0..<length data]"

lemma length_read_config_u64 [simp]: "length (read_config_u64 c off bs) = length bs"
  by (simp add: read_config_u64_def)

lemma read_config_u64_whole: "length bs = 8 \<Longrightarrow> read_config_u64 c 0 bs = le_bytes 8 c"
  by (rule nth_equalityI) (auto simp: read_config_u64_def)

end
