(* ===== verification/Queue_Pass.thy ===== *)
theory Queue_Pass
  imports Virtio_Device
begin

text \<open>
  The queue pass that the entropy, network and vsock backends share: each of
  \<^verbatim>\<open>devices/rng.rs\<close>, \<^verbatim>\<open>devices/net.rs\<close> and \<^verbatim>\<open>devices/vsock.rs\<close> writes the same
  loop around its own handling of one available entry. The loop is a function of that
  step; the locale \<open>pass_effect\<close> lifts what a step keeps to the whole pass.
\<close>

section \<open>The loop\<close>

text \<open>How one turn of a loop ends: go on with the next entry, \<open>break\<close>, or return an error.\<close>

datatype 'e turn = Next | Stop | Fail 'e

type_synonym ('d, 'e) queue_step =
  "guest_memory \<Rightarrow> 'd \<Rightarrow> virt_queue \<Rightarrow> guest_memory \<times> 'd \<times> 'e turn"

function pass_loop ::
  "('d, 'e) queue_step \<Rightarrow> guest_memory \<Rightarrow> 'd \<Rightarrow> virt_queue \<Rightarrow> u16 \<Rightarrow> bool \<Rightarrow>
     guest_memory \<times> 'd \<times> virt_queue \<times> (bool, 'e) result" where
  "pass_loop st mem dev q avail processed =
     (if last_avail_idx q = avail then (mem, dev, q, Ok processed)
      else case st mem dev q of
             (mem', dev', Next) \<Rightarrow> pass_loop st mem' dev' (advance q) avail True
           | (mem', dev', Stop) \<Rightarrow> (mem', dev', q, Ok processed)
           | (mem', dev', Fail e) \<Rightarrow> (mem', dev', q, Err e))"
  by pat_completeness auto
termination
  by (relation "measure (\<lambda>(st, mem, dev, q, avail, processed). pending_entries q avail)")
     (auto intro: pending_entries_advance)

declare pass_loop.simps [simp del]

definition queue_pass ::
  "(memory_error \<Rightarrow> 'e) \<Rightarrow> ('d, 'e) queue_step \<Rightarrow> guest_memory \<Rightarrow> 'd \<Rightarrow> virt_queue \<Rightarrow>
     guest_memory \<times> 'd \<times> virt_queue \<times> (bool, 'e) result" where
  "queue_pass memE st mem dev q =
     (if \<not> q_ready q \<or> q_size q = 0 then (mem, dev, q, Ok False)
      else case read_avail_idx memE mem q of
             Err e \<Rightarrow> (mem, dev, q, Err e)
           | Ok avail_idx \<Rightarrow>
               (case pass_loop st mem dev q avail_idx False of
                  (mem', dev', q', Err e) \<Rightarrow> (mem', dev', q', Err e)
                | (mem', dev', q', Ok processed) \<Rightarrow>
                    if processed
                    then (case write_used_idx memE mem' q' of
                            (mem'', Err e) \<Rightarrow> (mem'', dev', q', Err e)
                          | (mem'', Ok _) \<Rightarrow> (mem'', dev', q', Ok processed))
                    else (mem', dev', q', Ok processed)))"

text \<open>The trait methods copy the two indices back into the device's queue.\<close>

definition store_indices :: "nat \<Rightarrow> virt_queue \<Rightarrow> virt_queue list \<Rightarrow> virt_queue list" where
  "store_indices i q qs =
     qs[i := (qs ! i)\<lparr>last_avail_idx := last_avail_idx q, last_used_idx := last_used_idx q\<rparr>]"

lemma store_indices_geometry [simp]:
  "map queue_geometry (store_indices i q qs) = map queue_geometry qs"
  by (cases "i < length qs") (auto simp: store_indices_def map_update list_update_same_conv list_update_beyond)

lemma length_store_indices [simp]: "length (store_indices i q qs) = length qs"
  by (simp add: store_indices_def)

section \<open>What a pass does to the rings\<close>

text \<open>The queue after \<open>n\<close> completed entries.\<close>

definition advance_by :: "nat \<Rightarrow> virt_queue \<Rightarrow> virt_queue" where
  "advance_by n q = q\<lparr>last_avail_idx := last_avail_idx q + of_nat n, last_used_idx := last_used_idx q + of_nat n\<rparr>"

lemma advance_by_0 [simp]: "advance_by 0 q = q"
  by (simp add: advance_by_def)

lemma advance_by_advance: "advance_by n (advance q) = advance_by (Suc n) q"
  by (simp add: advance_by_def advance_def add.assoc)

lemma advance_by_geometry [simp]: "queue_geometry (advance_by n q) = queue_geometry q"
  by (simp add: advance_by_def queue_geometry_def)

lemma advance_by_simps [simp]:
  "used_ring_addr (advance_by n q) = used_ring_addr q"
  "last_avail_idx (advance_by n q) = last_avail_idx q + of_nat n"
  "last_used_idx (advance_by n q) = last_used_idx q + of_nat n"
  by (simp_all add: advance_by_def)

text \<open>The rule for the loop: what every step keeps holds at the end.\<close>

definition step_keeps :: "('d, 'e) queue_step \<Rightarrow> (guest_memory \<Rightarrow> 'd \<Rightarrow> bool) \<Rightarrow> bool" where
  "step_keeps st I \<longleftrightarrow> (\<forall>m d k m' d' t. I m d \<longrightarrow> st m d k = (m', d', t) \<longrightarrow> I m' d')"

definition never_stops :: "('d, 'e) queue_step \<Rightarrow> bool" where
  "never_stops st \<longleftrightarrow> (\<forall>m d k. snd (snd (st m d k)) \<noteq> Stop)"

lemma step_keepsI:
  "(\<And>m d k m' d' t. I m d \<Longrightarrow> st m d k = (m', d', t) \<Longrightarrow> I m' d') \<Longrightarrow> step_keeps st I"
  by (simp add: step_keeps_def)

lemma step_keepsD: "step_keeps st I \<Longrightarrow> I m d \<Longrightarrow> st m d k = (m', d', t) \<Longrightarrow> I m' d'"
  unfolding step_keeps_def by blast

lemma pass_loop_rule:
  assumes "pass_loop st mem dev q avail p = (mem', dev', q', r)" and "I mem dev"
    and "step_keeps st I"
  shows "I mem' dev' \<and> (\<exists>n. q' = advance_by n q \<and> n \<le> pending_entries q avail \<and>
    (\<forall>b. r = Ok b \<longrightarrow> (b \<longleftrightarrow> p \<or> n > 0)) \<and>
    (never_stops st \<longrightarrow> is_ok r \<longrightarrow> last_avail_idx q' = avail))"
  using assms
proof (induction st mem dev q avail p rule: pass_loop.induct)
  case (1 st mem dev q avail p)
  show ?case
  proof (cases "last_avail_idx q = avail")
    case True
    with "1.prems" show ?thesis by (auto simp: pass_loop.simps [of st mem dev q] intro!: exI [of _ 0])
  next
    case False
    obtain m1 d1 t where st: "st mem dev q = (m1, d1, t)" by (cases "st mem dev q")
    have I1: "I m1 d1" using step_keepsD [OF "1.prems"(3,2) st] .
    show ?thesis
    proof (cases t)
      case Next
      then have run: "pass_loop st m1 d1 (advance q) avail True = (mem', dev', q', r)"
        using "1.prems"(1) False st by (simp add: pass_loop.simps [of st mem dev q])
      obtain n where n: "I mem' dev'" "q' = advance_by n (advance q)"
          "n \<le> pending_entries (advance q) avail" "\<forall>b. r = Ok b \<longrightarrow> b"
          "never_stops st \<longrightarrow> is_ok r \<longrightarrow> last_avail_idx q' = avail"
        using "1.IH" [OF False st [symmetric] refl Next run I1 "1.prems"(3)] by auto
      have "Suc n \<le> pending_entries q avail" using n(3) pending_entries_advance [OF False] by simp
      then show ?thesis using n by (auto simp: advance_by_advance intro!: exI [of _ "Suc n"])
    next
      case Stop
      with "1.prems"(1) False st I1 show ?thesis
        by (auto simp: pass_loop.simps [of st mem dev q] never_stops_def intro!: exI [of _ 0])
          (metis snd_conv)+
    next
      case (Fail e)
      with "1.prems"(1) False st I1 show ?thesis
        by (auto simp: pass_loop.simps [of st mem dev q] intro!: exI [of _ 0])
    qed
  qed
qed

lemma queue_pass_rule:
  assumes "queue_pass memE st mem dev q = (mem', dev', q', r)" and "I mem dev"
    and "step_keeps st I"
    and "\<And>m d k m' r. I m d \<Longrightarrow> write_used_idx memE m k = (m', r) \<Longrightarrow> I m' d"
  shows "I mem' dev'"
proof -
  have "I m2 d2" if "pass_loop st mem dev q a p = (m2, d2, q2, r2)" for a p m2 d2 q2 r2
    using pass_loop_rule [OF that assms(2,3)] ..
  with assms(1,2) show ?thesis
    by (auto simp: queue_pass_def split: if_splits result.splits prod.splits intro: assms(4))
      (blast intro: assms(4))+
qed

lemma queue_pass_queue:
  assumes "queue_pass memE st mem dev q = (mem', dev', q', r)"
  shows "\<exists>n. q' = advance_by n q"
proof -
  have "\<exists>n. q2 = advance_by n q" if "pass_loop st mem dev q a p = (m2, d2, q2, r2)" for a p m2 d2 q2 r2
    using pass_loop_rule [OF that, where I = "\<lambda>_ _. True"] by (auto simp: step_keeps_def)
  with assms show ?thesis
    by (auto simp: queue_pass_def split: if_splits result.splits prod.splits intro: exI [of _ 0])
qed

text \<open>
  What the guest sees of a pass that returns without error: some number of entries of the
  available ring were completed in order, as many used entries were produced, and then the
  used index was published. A step that never breaks completes all of them.
\<close>

lemma queue_pass_complete:
  assumes "queue_pass memE st mem dev q = (mem', dev', q', Ok b)"
    and "q_ready q" "q_size q \<noteq> 0" "read_avail_idx memE mem q = Ok avail" "mem_wf mem"
    and "step_keeps st (\<lambda>m d. mem_wf m)"
  shows "\<exists>n. q' = advance_by n q \<and> n \<le> pending_entries q avail \<and> (b \<longleftrightarrow> n > 0) \<and>
    (never_stops st \<longrightarrow> n = pending_entries q avail) \<and>
    (b \<longrightarrow> read_bytes mem' (used_ring_addr q + 2) 2 = Ok (le_bytes 2 (last_used_idx q')))"
proof -
  obtain m1 d1 q1 r1 where lp: "pass_loop st mem dev q avail False = (m1, d1, q1, r1)"
    by (cases "pass_loop st mem dev q avail False")
  obtain n where n: "mem_wf m1" "q1 = advance_by n q" "n \<le> pending_entries q avail"
      "\<forall>b. r1 = Ok b \<longrightarrow> (b \<longleftrightarrow> n > 0)"
      "never_stops st \<longrightarrow> is_ok r1 \<longrightarrow> last_avail_idx q1 = avail"
    using pass_loop_rule [OF lp, where I = "\<lambda>m d. mem_wf m", OF assms(5,6)] by blast
  have r1: "r1 = Ok b" "q' = q1" "b \<longrightarrow> write_used_idx memE m1 q1 = (mem', Ok ())"
    using assms(1-4) lp by (auto simp: queue_pass_def split: if_splits result.splits prod.splits)
  have "n < 2 ^ LENGTH(16)"
    using n(3) unsigned_less [of "avail - last_avail_idx q", where 'a = nat] by (simp add: pending_entries_def)
  then have "unat (of_nat n :: u16) = n" by (simp add: unsigned_of_nat take_bit_nat_eq_self)
  then have "(of_nat n :: u16) = avail - last_avail_idx q \<Longrightarrow> n = pending_entries q avail"
    by (simp add: pending_entries_def)
  moreover have "never_stops st \<longrightarrow> of_nat n = avail - last_avail_idx q"
    using n(2,5) r1 by (auto simp: algebra_simps)
  moreover have "b \<longrightarrow> read_bytes mem' (used_ring_addr q + 2) 2 = Ok (le_bytes 2 (last_used_idx q'))"
    using write_used_idx_read [OF n(1)] r1 n(2) by (metis advance_by_simps(1))
  ultimately show ?thesis using n r1 by blast
qed

section \<open>The contract of a queue step\<close>

text \<open>
  What a backend shows of its step: guest memory stays well formed, and the part of the device
  that the driver negotiated, given by \<open>frame\<close>, is not touched.
\<close>

locale queue_client =
  fixes memE :: "memory_error \<Rightarrow> 'e" and st :: "('d, 'e) queue_step" and frame :: "'d \<Rightarrow> 'f"
  assumes step_wf: "mem_wf m \<Longrightarrow> st m d k = (m', d', t) \<Longrightarrow> mem_wf m'"
    and step_frame: "st m d k = (m', d', t) \<Longrightarrow> frame d' = frame d"
begin

lemma keeps_wf: "step_keeps st (\<lambda>m d. mem_wf m)"
  by (rule step_keepsI) (rule step_wf)

lemma keeps_frame: "step_keeps st (\<lambda>_ e. frame e = x)"
  by (rule step_keepsI) (simp add: step_frame)

lemma pass_wf: "queue_pass memE st m d q = (m', d', q', r) \<Longrightarrow> mem_wf m \<Longrightarrow> mem_wf m'"
  by (rule queue_pass_rule [where I = "\<lambda>m d. mem_wf m", OF _ _ keeps_wf]) (auto dest: write_used_idx_wf)

lemma pass_frame: "queue_pass memE st m d q = (m', d', q', r) \<Longrightarrow> frame d' = frame d"
  by (rule queue_pass_rule [where I = "\<lambda>_ e. frame e = frame d", OF _ _ keeps_frame]) auto

lemmas pass_complete = queue_pass_complete [where st = st and memE = memE, OF _ _ _ _ _ keeps_wf]

end

section \<open>Rings in guest memory\<close>

text \<open>Both rings, headers and entries, lie in guest memory.\<close>

definition rings_mapped :: "guest_memory \<Rightarrow> virt_queue \<Rightarrow> bool" where
  "rings_mapped mem q \<longleftrightarrow> mem_wf mem \<and> q_size q \<noteq> 0 \<and>
     valid_range mem (avail_ring_addr q) (4 + 2 * unat (q_size q)) \<and>
     valid_range mem (used_ring_addr q) (4 + 8 * unat (q_size q))"

lemma valid_range_sub:
  assumes "mem_wf m" "valid_range m a n" "unat off + k \<le> n" "0 < k"
  shows "valid_range m (a + off) k"
proof -
  have "unat a + unat off < 2 ^ LENGTH(64)"
    using assms by (auto simp: mem_wf_def valid_range_def)
  then have "unat (a + off) = unat a + unat off" by (simp add: unat_word_ariths)
  then show ?thesis using assms by (auto simp: valid_range_def)
qed

lemma ring_slot_bound:
  assumes "(q :: u16) \<noteq> 0" "k \<le> 8"
  shows "unat (4 + ucast (i mod q) * of_nat k :: u64) = 4 + unat (i mod q) * k" "unat (i mod q) < unat q"
proof -
  show b: "unat (i mod q) < unat q" using assms(1) by (simp add: unat_mod_word unat_gt_0)
  have "unat (i mod q) < 2 ^ LENGTH(16)" by (rule unsigned_less)
  then have "unat (i mod q) * k \<le> 2 ^ 16 * 8" using assms(2) by (intro mult_le_mono) auto
  moreover have "unat (ucast (i mod q) :: u64) = unat (i mod q)" by (rule unat_ucast_up) simp
  ultimately show "unat (4 + ucast (i mod q) * of_nat k :: u64) = 4 + unat (i mod q) * k"
    using assms(2) by (simp add: unat_word_ariths unsigned_of_nat take_bit_nat_eq_self)
qed

lemma rings_mapped_reads:
  assumes "rings_mapped mem q"
  shows "\<exists>a. read_avail_idx f mem q = Ok a" "\<exists>h. read_avail_entry f mem q = Ok h"
proof -
  note v = assms [unfolded rings_mapped_def]
  have "valid_range mem (avail_ring_addr q + 2) 2" by (rule valid_range_sub) (use v in auto)
  then show "\<exists>a. read_avail_idx f mem q = Ok a"
    using ram.rd_valid by (fastforce simp: read_avail_idx_def)
  let ?s = "last_avail_idx q mod q_size q"
  have b: "unat (4 + ucast ?s * 2 :: u64) = 4 + unat ?s * 2" "unat ?s < unat (q_size q)"
    using ring_slot_bound [of "q_size q" 2] v by simp_all
  have "valid_range mem (avail_ring_addr q + (4 + ucast ?s * 2)) 2"
    by (rule valid_range_sub [where n = "4 + 2 * unat (q_size q)"]) (use v b in auto)
  then show "\<exists>h. read_avail_entry f mem q = Ok h"
    using ram.rd_valid by (fastforce simp: read_avail_entry_def)
qed

lemma rings_mapped_write: "rings_mapped mem q \<Longrightarrow> write_bytes mem a bs = Ok mem' \<Longrightarrow> rings_mapped mem' q"
  by (auto simp: rings_mapped_def ram.wr_valid dest: mem_wf_write)

lemma rings_mapped_advance [simp]:
  "rings_mapped mem (advance q) = rings_mapped mem q" "rings_mapped mem (advance_by n q) = rings_mapped mem q"
  by (simp_all add: rings_mapped_def advance_by_def)

lemma rings_mapped_used_idx:
  assumes "rings_mapped mem q"
  shows "\<exists>mem'. write_used_idx f mem q = (mem', Ok ()) \<and> rings_mapped mem' q"
proof -
  note v = assms [unfolded rings_mapped_def]
  have "valid_range mem (used_ring_addr q + 2) (length (le_bytes 2 (last_used_idx q)))"
    by (rule valid_range_sub) (use v in auto)
  from ram.wr_valid_ok [OF this] show ?thesis
    using rings_mapped_write [OF assms] by (auto simp: write_used_idx_def)
qed

lemma rings_mapped_used_entry:
  assumes "rings_mapped mem q"
  shows "\<exists>mem'. write_used_entry f mem q h w = (mem', Ok ()) \<and> rings_mapped mem' q"
proof -
  note v = assms [unfolded rings_mapped_def]
  let ?s = "last_used_idx q mod q_size q"
  let ?o = "4 + ucast ?s * 8 :: u64"
  have b: "unat ?o = 4 + unat ?s * 8" "unat ?s < unat (q_size q)"
    using ring_slot_bound [of "q_size q" 8] v by simp_all
  have val: "valid_range mem (used_entry_addr q) 8" unfolding used_entry_addr_def
    by (rule valid_range_sub [where n = "4 + 8 * unat (q_size q)"]) (use v b in auto)
  have "valid_range mem (used_entry_addr q) (length (le_bytes 4 (ucast h :: u32)))"
    by (rule valid_range_mono [OF val]) simp
  then obtain m1 where m1: "write_bytes mem (used_entry_addr q) (le_bytes 4 (ucast h :: u32)) = Ok m1"
    using ram.wr_valid_ok by blast
  have "valid_range m1 (used_entry_addr q + 4) (length (le_bytes 4 w))"
    using ram.wr_valid [OF m1] valid_range_sub [OF conjunct1 [OF v] val, of 4 4] by simp
  then obtain m2 where m2: "write_bytes m1 (used_entry_addr q + 4) (le_bytes 4 w) = Ok m2"
    using ram.wr_valid_ok by blast
  show ?thesis
    using m1 m2 rings_mapped_write [OF rings_mapped_write [OF assms m1] m2]
    by (simp add: write_used_entry_def)
qed

lemma pending_entries_Suc:
  "last_avail_idx q \<noteq> avail \<Longrightarrow> pending_entries q avail = Suc (pending_entries (advance q) avail)"
proof -
  assume "last_avail_idx q \<noteq> avail"
  then have "avail - last_avail_idx q \<noteq> 0" by simp
  then have "unat (avail - last_avail_idx q - 1) = unat (avail - last_avail_idx q) - 1"
      "0 < unat (avail - last_avail_idx q)"
    by (simp_all add: unat_minus_one unat_gt_0)
  then show ?thesis by (simp add: pending_entries_def diff_diff_eq)
qed

text \<open>A step that completes every entry as long as the rings are mapped makes the pass total.\<close>

lemma queue_pass_total:
  assumes "rings_mapped mem q" "q_ready q" "read_avail_idx memE mem q = Ok avail"
    and step: "\<And>m d k. rings_mapped m k \<Longrightarrow> \<exists>m' d'. st m d k = (m', d', Next) \<and> rings_mapped m' k"
  shows "\<exists>mem' dev'. queue_pass memE st mem dev q =
    (mem', dev', advance_by (pending_entries q avail) q, Ok (last_avail_idx q \<noteq> avail))"
proof -
  have loop: "\<exists>m' d'. pass_loop st mem dev q avail p =
      (m', d', advance_by (pending_entries q avail) q, Ok (p \<or> last_avail_idx q \<noteq> avail)) \<and> rings_mapped m' q"
    for p using assms(1)
  proof (induction "pending_entries q avail" arbitrary: mem dev q p rule: less_induct)
    case less
    show ?case
    proof (cases "last_avail_idx q = avail")
      case True
      with less.prems show ?thesis by (simp add: pass_loop.simps [of st mem] pending_entries_def)
    next
      case False
      obtain m1 d1 where st: "st mem dev q = (m1, d1, Next)" and m1: "rings_mapped m1 (advance q)"
        using step [OF less.prems, of dev] by auto
      note n = pending_entries_Suc [OF False]
      obtain m' d' where "pass_loop st m1 d1 (advance q) avail True =
          (m', d', advance_by (pending_entries (advance q) avail) (advance q), Ok True) \<and> rings_mapped m' (advance q)"
        using less.hyps [OF pending_entries_advance [OF False] m1, of d1 True] by auto
      then show ?thesis using False st by (auto simp: pass_loop.simps [of st mem] n advance_by_advance)
    qed
  qed
  from loop [of False] obtain m' d' where lp: "pass_loop st mem dev q avail False =
      (m', d', advance_by (pending_entries q avail) q, Ok (last_avail_idx q \<noteq> avail))" "rings_mapped m' q"
    by auto
  obtain m'' where "write_used_idx memE m' (advance_by (pending_entries q avail) q) = (m'', Ok ())"
    using rings_mapped_used_idx [of m' "advance_by (pending_entries q avail) q"] lp(2) by auto
  then show ?thesis
    using assms lp by (auto simp: queue_pass_def rings_mapped_def)
qed

end
