(* ===== verification/Used_Ring.thy ===== *)
theory Used_Ring
  imports Queue_Pass
begin

text \<open>
  What the guest finds in a used ring after a pass.  The areas of a queue in guest memory, the
  layout a driver keeps to, and the lemmas that carry the entries written by single steps to
  the end of a pass: a step changes its own slot of the used ring and the buffers, so an entry
  stays until the pass is over as long as the ring does not go round.
\<close>

section \<open>Memory that does not change\<close>

definition area :: "u64 \<Rightarrow> nat \<Rightarrow> nat set" where
  "area a n = {unat a ..< unat a + n}"

definition unchanged_on :: "nat set \<Rightarrow> guest_memory \<Rightarrow> guest_memory \<Rightarrow> bool" where
  "unchanged_on S m m' \<longleftrightarrow> gm_size m' = gm_size m \<and> guest_base m' = guest_base m \<and>
     (\<forall>i < gm_size m. unat (guest_base m) + i \<in> S \<longrightarrow> gm_bytes m' ! i = gm_bytes m ! i)"

lemma unchanged_on_refl [simp]: "unchanged_on S m m"
  by (simp add: unchanged_on_def)

lemma unchanged_on_trans: "unchanged_on S m m1 \<Longrightarrow> unchanged_on S m1 m2 \<Longrightarrow> unchanged_on S m m2"
  by (simp add: unchanged_on_def)

lemma unchanged_on_mono: "unchanged_on S m m' \<Longrightarrow> T \<subseteq> S \<Longrightarrow> unchanged_on T m m'"
  by (auto simp: unchanged_on_def)

lemma unchanged_on_write:
  assumes "mem_wf m" "write_bytes m a d = Ok m'" "area a (length d) \<inter> S = {}"
  shows "unchanged_on S m m'"
proof -
  have v: "unat (guest_base m) \<le> unat a"
    using assms(2) by (auto simp: write_bytes_eq valid_range_def split: if_splits)
  have "gm_bytes m' ! i = gm_bytes m ! i" if "i < gm_size m" "unat (guest_base m) + i \<in> S" for i
  proof -
    have "unat (guest_base m) + i \<notin> area a (length d)" using assms(3) that(2) by blast
    then show ?thesis using write_bytes_nth [OF assms(1,2) that(1)] v by (auto simp: area_def Let_def)
  qed
  then show ?thesis using write_bytes_frame [OF assms(2)] by (simp add: unchanged_on_def)
qed

lemma unchanged_on_read:
  assumes "unchanged_on S m m'" "mem_wf m" "mem_wf m'" "area a n \<subseteq> S"
  shows "read_bytes m' a n = read_bytes m a n"
proof -
  have "slice (unat a - unat (guest_base m)) n (gm_bytes m') = slice (unat a - unat (guest_base m)) n (gm_bytes m)"
    if "valid_range m a n"
  proof (rule nth_equalityI)
    show "length (slice (unat a - unat (guest_base m)) n (gm_bytes m')) =
        length (slice (unat a - unat (guest_base m)) n (gm_bytes m))"
      using assms(1-3) by (simp add: slice_def mem_wf_def unchanged_on_def)
  next
    fix i assume "i < length (slice (unat a - unat (guest_base m)) n (gm_bytes m'))"
    then have i: "i < n" by (simp add: slice_def)
    then have "unat a + i \<in> S" using assms(4) by (auto simp: area_def)
    then show "slice (unat a - unat (guest_base m)) n (gm_bytes m') ! i =
        slice (unat a - unat (guest_base m)) n (gm_bytes m) ! i"
      using assms(1-3) that i by (auto simp: slice_def mem_wf_def unchanged_on_def valid_range_def)
  qed
  then show ?thesis using assms(1) by (auto simp: read_bytes_eq valid_range_def unchanged_on_def)
qed

section \<open>The areas of a queue\<close>

definition desc_area :: "virt_queue \<Rightarrow> nat set" where
  "desc_area q = area (desc_table_addr q) (16 * unat (q_size q))"

definition avail_area :: "virt_queue \<Rightarrow> nat set" where
  "avail_area q = area (avail_ring_addr q) (4 + 2 * unat (q_size q))"

definition used_area :: "virt_queue \<Rightarrow> nat set" where
  "used_area q = area (used_ring_addr q) (4 + 8 * unat (q_size q))"

text \<open>The slot of the used ring that the next entry of the queue goes to, and its eight bytes.\<close>

definition used_slot :: "virt_queue \<Rightarrow> nat set" where
  "used_slot q = area (used_entry_addr q) 8"

definition used_entry :: "u16 \<Rightarrow> u32 \<Rightarrow> u8 list" where
  "used_entry head written = le_bytes 4 (ucast head :: u32) @ le_bytes 4 written"

text \<open>
  The layout of a driver: the table and the rings do not run over the end of the address space,
  the used ring shares no byte with the other two, and the size divides the range of the
  indices, as a power of two does.
\<close>

definition rings_apart :: "virt_queue \<Rightarrow> bool" where
  "rings_apart q \<longleftrightarrow> unat (q_size q) dvd 2 ^ 16 \<and>
     unat (desc_table_addr q) + 16 * unat (q_size q) \<le> 2 ^ 64 \<and>
     unat (avail_ring_addr q) + (4 + 2 * unat (q_size q)) \<le> 2 ^ 64 \<and>
     unat (used_ring_addr q) + (4 + 8 * unat (q_size q)) \<le> 2 ^ 64 \<and>
     used_area q \<inter> (desc_area q \<union> avail_area q) = {}"

text \<open>No buffer of the table, with at least one byte for a status, overlaps the table or a ring.\<close>

definition buffers_apart :: "guest_memory \<Rightarrow> virt_queue \<Rightarrow> bool" where
  "buffers_apart mem q \<longleftrightarrow> (\<forall>i d. read_desc (\<lambda>_. ()) (\<lambda>_. ()) mem q i = Ok d \<longrightarrow>
     area (d_addr d) (max 1 (unat (d_len d))) \<inter> (desc_area q \<union> avail_area q \<union> used_area q) = {})"

lemma read_desc_Ok_iff: "read_desc f g m q i = Ok d \<longleftrightarrow> read_desc (\<lambda>_. ()) (\<lambda>_. ()) m q i = Ok d"
  by (auto simp: read_desc_def split: result.splits)

lemma buffers_apartD:
  assumes "buffers_apart m q" "read_desc f g m q i = Ok d"
  shows "area (d_addr d) (max 1 (unat (d_len d))) \<inter> (desc_area q \<union> avail_area q \<union> used_area q) = {}"
  using assms read_desc_Ok_iff [of f g m q i d] unfolding buffers_apart_def by blast

lemma buffers_apart_used:
  assumes "buffers_apart m q" "read_desc f g m q i = Ok d"
  shows "area (d_addr d) (unat (d_len d)) \<subseteq> - used_area q"
  using buffers_apartD [OF assms] by (auto simp: area_def)

lemma rings_apart_advance_by [simp]:
  "rings_apart (advance_by n q) = rings_apart q" "desc_area (advance_by n q) = desc_area q"
  "avail_area (advance_by n q) = avail_area q" "used_area (advance_by n q) = used_area q"
  "q_size (advance_by n q) = q_size q" "read_desc f g m (advance_by n q) = read_desc f g m q"
  by (simp_all add: rings_apart_def desc_area_def avail_area_def used_area_def advance_by_def read_desc_def fun_eq_iff)

lemma unat_add_offset: "unat (a :: u64) + n \<le> 2 ^ 64 \<Longrightarrow> unat off < n \<Longrightarrow> unat (a + off) = unat a + unat off"
  by (simp add: unat_word_ariths)

lemma used_slot_eq:
  assumes "rings_apart q" "q_size q \<noteq> 0"
  shows "unat (used_entry_addr q) = unat (used_ring_addr q) + 4 + 8 * unat (last_used_idx q mod q_size q)"
proof -
  let ?o = "4 + ucast (last_used_idx q mod q_size q) * 8 :: u64"
  have o: "unat ?o = 4 + unat (last_used_idx q mod q_size q) * 8"
      "unat (last_used_idx q mod q_size q) < unat (q_size q)"
    using ring_slot_bound [of "q_size q" 8 "last_used_idx q"] assms(2) by simp_all
  have "unat (used_ring_addr q + ?o) = unat (used_ring_addr q) + unat ?o"
    by (rule unat_add_offset [where n = "4 + 8 * unat (q_size q)"]) (use assms(1) o in \<open>auto simp: rings_apart_def\<close>)
  then show ?thesis using o(1) by (simp add: used_entry_addr_def)
qed

lemma used_slot_in:
  assumes "rings_apart q" "q_size q \<noteq> 0"
  shows "used_slot q \<subseteq> used_area q"
proof -
  have "unat (last_used_idx q mod q_size q) < unat (q_size q)"
    using ring_slot_bound(2) [of "q_size q" 8] assms(2) by simp
  then show ?thesis using used_slot_eq [OF assms] by (auto simp: used_slot_def used_area_def area_def)
qed

text \<open>As long as the ring does not go round, every entry of a pass has its own slot.\<close>

lemma used_slots_disjoint:
  assumes "rings_apart q" "q_size q \<noteq> 0" "j < k" "k < unat (q_size q)"
  shows "used_slot (advance_by j q) \<inter> used_slot (advance_by k q) = {}"
proof -
  let ?s = "unat (q_size q)"
  have s: "?s dvd 2 ^ 16" using assms(1) by (simp add: rings_apart_def)
  have idx: "unat ((last_used_idx q + of_nat i) mod q_size q) = (unat (last_used_idx q) + i) mod ?s"
    if "i < ?s" for i
  proof -
    have "i < 2 ^ LENGTH(16)" using that unsigned_less [of "q_size q", where 'a = nat] by linarith
    then have "unat (last_used_idx q + of_nat i) = (unat (last_used_idx q) + i) mod 2 ^ 16"
      by (simp add: unat_word_ariths unsigned_of_nat take_bit_nat_eq_self)
    then show ?thesis using mod_mod_cancel [OF s] by (simp add: unat_mod_word)
  qed
  let ?j = "(unat (last_used_idx q) + j) mod ?s" and ?k = "(unat (last_used_idx q) + k) mod ?s"
  have "?j \<noteq> ?k"
  proof
    assume "?j = ?k"
    then have "?s dvd (unat (last_used_idx q) + k) - (unat (last_used_idx q) + j)"
      using assms(3) by (intro mod_eq_dvd_iff_nat [THEN iffD1]) simp_all
    then have "?s dvd k - j" by simp
    then show False using assms(3,4) dvd_imp_le [of ?s "k - j"] by simp
  qed
  moreover have "unat (used_entry_addr (advance_by i q)) = unat (used_ring_addr q) + 4 + 8 * ((unat (last_used_idx q) + i) mod ?s)"
    if "i < ?s" for i using used_slot_eq [of "advance_by i q"] assms(1,2) idx [OF that] by simp
  ultimately show ?thesis using assms(3,4) by (auto simp: used_slot_def area_def)
qed

section \<open>Reads of the table and of the available ring\<close>

lemma read_desc_unchanged:
  assumes "unchanged_on (desc_area q) m m'" "mem_wf m" "mem_wf m'" "rings_apart q"
  shows "read_desc f g m' q i = read_desc f g m q i"
proof (cases "i < q_size q")
  case True
  then have i: "unat i < unat (q_size q)" by (simp add: word_less_nat_alt)
  have o: "unat (ucast i * 16 :: u64) = unat i * 16"
    using ring_slot_bound(1) [of "q_size q" 8] unsigned_less [of i, where 'a = nat]
    by (simp add: unat_word_ariths unat_ucast_up)
  have "unat (desc_table_addr q + ucast i * 16) = unat (desc_table_addr q) + unat (ucast i * 16 :: u64)"
    by (rule unat_add_offset [where n = "16 * unat (q_size q)"]) (use assms(4) i o in \<open>auto simp: rings_apart_def\<close>)
  then have "area (desc_table_addr q + ucast i * 16) 16 \<subseteq> desc_area q"
    using i o by (auto simp: area_def desc_area_def)
  from unchanged_on_read [OF assms(1-3) this] show ?thesis by (simp add: read_desc_def)
qed (simp add: read_desc_def not_less)

lemma read_avail_entry_unchanged:
  assumes "unchanged_on (avail_area q) m m'" "mem_wf m" "mem_wf m'" "rings_apart q" "q_size q \<noteq> 0"
  shows "read_avail_entry f m' (advance_by k q) = read_avail_entry f m (advance_by k q)"
proof -
  let ?i = "last_avail_idx (advance_by k q) mod q_size q"
  let ?o = "4 + ucast ?i * 2 :: u64"
  have o: "unat ?o = 4 + unat ?i * 2" "unat ?i < unat (q_size q)"
    using ring_slot_bound [of "q_size q" 2 "last_avail_idx (advance_by k q)"] assms(5) by simp_all
  have "unat (avail_ring_addr q + ?o) = unat (avail_ring_addr q) + unat ?o"
    by (rule unat_add_offset [where n = "4 + 2 * unat (q_size q)"]) (use assms(4) o in \<open>auto simp: rings_apart_def\<close>)
  then have "area (avail_ring_addr q + ?o) 2 \<subseteq> avail_area q" using o by (auto simp: area_def avail_area_def)
  from unchanged_on_read [OF assms(1-3) this] show ?thesis by (simp add: read_avail_entry_def Let_def advance_by_def)
qed

section \<open>Writing an entry\<close>

lemma write_bytes_append:
  assumes "mem_wf m" "write_bytes m a xs = Ok m1" "write_bytes m1 b ys = Ok m2" "unat b = unat a + length xs"
  shows "write_bytes m a (xs @ ys) = Ok m2"
  using assms
  by (auto simp: write_bytes_eq valid_range_def splice_at_def mem_wf_def ac_simps split: if_splits)

lemma write_used_entry_exact:
  assumes "rings_apart q" "q_size q \<noteq> 0" "mem_wf m" "write_used_entry f m q h w = (m', Ok ())"
  shows "unchanged_on (- used_slot q) m m'" "read_bytes m' (used_entry_addr q) 8 = Ok (used_entry h w)" "mem_wf m'"
proof -
  let ?a = "used_entry_addr q"
  obtain m1 where m1: "write_bytes m ?a (le_bytes 4 (ucast h :: u32)) = Ok m1" "write_bytes m1 (?a + 4) (le_bytes 4 w) = Ok m'"
    using assms(4) by (auto simp: write_used_entry_def Let_def split: result.splits)
  have "unat ?a + 8 \<le> 2 ^ 64"
    using used_slot_eq [OF assms(1,2)] ring_slot_bound(2) [of "q_size q" 8 "last_used_idx q"] assms(1,2)
    by (simp add: rings_apart_def)
  then have a4: "unat (?a + 4) = unat ?a + length (le_bytes 4 (ucast h :: u32))"
    using unat_add_offset [of ?a 8 4] by simp
  have wr: "write_bytes m ?a (used_entry h w) = Ok m'"
    using write_bytes_append [OF assms(3) m1 a4] by (simp add: used_entry_def)
  show "unchanged_on (- used_slot q) m m'"
    by (rule unchanged_on_write [OF assms(3) wr]) (simp add: used_slot_def used_entry_def)
  show "read_bytes m' ?a 8 = Ok (used_entry h w)"
    using ram.rd_wr_same [OF assms(3) wr] by (simp add: used_entry_def)
  show "mem_wf m'" by (rule mem_wf_write [OF assms(3) wr])
qed

section \<open>The entries at the end of a pass\<close>

text \<open>
  A pass as a sequence of memories: step \<open>k\<close> leaves its entry in its slot and keeps the rest
  of the used ring.  At the end all the entries are there.
\<close>

lemma entries_stay:
  assumes lay: "rings_apart q" "q_size q \<noteq> 0" "n \<le> unat (q_size q)"
    and wf: "\<And>k. k \<le> n \<Longrightarrow> mem_wf (ms k)"
    and keep: "\<And>k. k < n \<Longrightarrow> unchanged_on (used_area q - used_slot (advance_by k q)) (ms k) (ms (Suc k))"
    and entry: "\<And>k. k < n \<Longrightarrow> read_bytes (ms (Suc k)) (used_entry_addr (advance_by k q)) 8 = Ok (es k)"
    and k: "k < n"
  shows "read_bytes (ms n) (used_entry_addr (advance_by k q)) 8 = Ok (es k)"
proof -
  have "Suc k \<le> i \<Longrightarrow> i \<le> n \<Longrightarrow> read_bytes (ms i) (used_entry_addr (advance_by k q)) 8 = Ok (es k)" for i
  proof (induction i rule: dec_induct)
    case base
    show ?case by (rule entry) (rule k)
  next
    case (step i)
    have "used_slot (advance_by k q) \<inter> used_slot (advance_by i q) = {}"
      by (rule used_slots_disjoint) (use lay step in auto)
    moreover have "used_slot (advance_by k q) \<subseteq> used_area q"
      using used_slot_in [of "advance_by k q"] lay by simp
    ultimately have "area (used_entry_addr (advance_by k q)) 8 \<subseteq> used_area q - used_slot (advance_by i q)"
      unfolding used_slot_def by blast
    then show ?case
      using unchanged_on_read [OF keep wf wf, of i] step by simp
  qed
  then show ?thesis using k by simp
qed

text \<open>Publishing the index, in the header of the ring, leaves the entries alone.\<close>

lemma write_used_idx_entries:
  assumes "rings_apart q" "q_size q \<noteq> 0" "mem_wf m" "write_used_idx f m (advance_by n q) = (m', Ok ())"
  shows "read_bytes m' (used_entry_addr (advance_by k q)) 8 = read_bytes m (used_entry_addr (advance_by k q)) 8"
proof -
  have wr: "write_bytes m (used_ring_addr q + 2) (le_bytes 2 (last_used_idx (advance_by n q))) = Ok m'"
    using assms(4) by (auto simp: write_used_idx_def split: result.splits)
  have "unat (used_ring_addr q + 2) = unat (used_ring_addr q) + 2"
    using unat_add_offset [of "used_ring_addr q" "4 + 8 * unat (q_size q)" 2] assms(1) by (simp add: rings_apart_def)
  then have "disjoint_ranges (used_ring_addr q + 2) (length (le_bytes 2 (last_used_idx (advance_by n q))))
      (used_entry_addr (advance_by k q)) 8"
    using used_slot_eq [of "advance_by k q"] assms(1,2) by (simp add: disjoint_ranges_def)
  then show ?thesis using ram.rd_wr_other [OF assms(3) wr] by blast
qed

text \<open>The steps of a loop that completes every entry, one after the other.\<close>

definition trace_of :: "('d, 'e) queue_step \<Rightarrow> virt_queue \<Rightarrow> nat \<Rightarrow> (nat \<Rightarrow> guest_memory) \<Rightarrow> (nat \<Rightarrow> 'd) \<Rightarrow> bool" where
  "trace_of st q n ms ds \<longleftrightarrow> (\<forall>k < n. st (ms k) (ds k) (advance_by k q) = (ms (Suc k), ds (Suc k), Next))"

lemma trace_of_Cons:
  assumes "st m d q = (ms 0, ds 0, Next)" "trace_of st (advance q) n ms ds"
  shows "trace_of st q (Suc n) (case_nat m ms) (case_nat d ds)"
  using assms by (auto simp: trace_of_def advance_by_advance split: nat.split)

lemma pass_loop_trace:
  assumes "pass_loop st mem dev q avail p = (mem', dev', q', Ok b)" "never_stops st"
  shows "\<exists>ms ds. ms 0 = mem \<and> ds 0 = dev \<and> ms (pending_entries q avail) = mem' \<and> ds (pending_entries q avail) = dev' \<and>
    q' = advance_by (pending_entries q avail) q \<and> trace_of st q (pending_entries q avail) ms ds"
  using assms
proof (induction st mem dev q avail p rule: pass_loop.induct)
  case (1 st mem dev q avail p)
  show ?case
  proof (cases "last_avail_idx q = avail")
    case True
    with "1.prems" show ?thesis
      by (intro exI [of _ "\<lambda>_. mem"] exI [of _ "\<lambda>_. dev"])
        (auto simp: pass_loop.simps [of st mem dev q] pending_entries_def trace_of_def)
  next
    case False
    obtain m1 d1 t where st: "st mem dev q = (m1, d1, t)" by (cases "st mem dev q")
    then have t: "t = Next" and run: "pass_loop st m1 d1 (advance q) avail True = (mem', dev', q', Ok b)"
      using "1.prems" False unfolding never_stops_def
      by (auto simp: pass_loop.simps [of st mem dev q] split: turn.splits dest: spec [of _ mem])
        (metis snd_conv)+
    obtain ms ds where "ms 0 = m1" "ds 0 = d1" "ms (pending_entries (advance q) avail) = mem'"
        "ds (pending_entries (advance q) avail) = dev'"
        "q' = advance_by (pending_entries (advance q) avail) (advance q)" "trace_of st (advance q) (pending_entries (advance q) avail) ms ds"
      using "1.IH" [OF False st [symmetric] refl t run "1.prems"(2)] by blast
    then show ?thesis using trace_of_Cons [of st mem dev q ms ds] st t
      by (intro exI [of _ "case_nat mem ms"] exI [of _ "case_nat dev ds"]) (simp add: pending_entries_Suc [OF False] advance_by_advance)
  qed
qed

lemma queue_pass_trace:
  assumes "queue_pass memE st mem dev q = (mem', dev', q', Ok b)" "never_stops st"
    "q_ready q" "q_size q \<noteq> 0" "read_avail_idx memE mem q = Ok avail"
  shows "\<exists>ms ds. ms 0 = mem \<and> ds 0 = dev \<and> ds (pending_entries q avail) = dev' \<and>
    trace_of st q (pending_entries q avail) ms ds \<and>
    (if b then write_used_idx memE (ms (pending_entries q avail)) (advance_by (pending_entries q avail) q) = (mem', Ok ())
     else mem' = ms (pending_entries q avail))"
proof -
  obtain m1 q1 where lp: "pass_loop st mem dev q avail False = (m1, dev', q1, Ok b)"
      and wr: "if b then write_used_idx memE m1 q1 = (mem', Ok ()) else mem' = m1"
    using assms by (auto simp: queue_pass_def split: result.splits prod.splits if_splits)
  from pass_loop_trace [OF lp assms(2)] wr show ?thesis by blast
qed

end
