(* ===== verification/Host_File.thy ===== *)
theory Host_File
  imports Visor_Prelude
begin

text \<open>
  The part of \<open>std::fs::File\<close> that the device backends use: a byte list with a cursor,
  as the standard library documents it. Reading past the end is \<open>UnexpectedEof\<close>,
  writing past the end extends the file with zeros, and \<open>df_fault\<close> makes every
  system call on the file fail.
\<close>

datatype io_error = IoFault | UnexpectedEof | InvalidSeek

record disk_file =
  df_data :: "u8 list"
  df_pos :: nat
  df_writable :: bool
  df_fault :: bool

definition file_seek_end :: "disk_file \<Rightarrow> disk_file \<times> (nat, io_error) result" where
  "file_seek_end f =
     (if df_fault f then (f, Err IoFault)
      else (f\<lparr>df_pos := length (df_data f)\<rparr>, Ok (length (df_data f))))"

definition file_seek_start :: "u64 \<Rightarrow> disk_file \<Rightarrow> disk_file \<times> (unit, io_error) result" where
  "file_seek_start off f =
     (if df_fault f then (f, Err IoFault)
      else if off \<ge> 0x8000000000000000 then (f, Err InvalidSeek)
      else (f\<lparr>df_pos := unat off\<rparr>, Ok ()))"

definition file_read_exact :: "nat \<Rightarrow> disk_file \<Rightarrow> disk_file \<times> (u8 list, io_error) result" where
  "file_read_exact n f =
     (if n = 0 then (f, Ok [])
      else if df_fault f then (f, Err IoFault)
      else if df_pos f + n \<le> length (df_data f)
           then (f\<lparr>df_pos := df_pos f + n\<rparr>, Ok (slice (df_pos f) n (df_data f)))
      else (f\<lparr>df_pos := max (df_pos f) (length (df_data f))\<rparr>, Err UnexpectedEof))"

definition grow_to :: "nat \<Rightarrow> u8 list \<Rightarrow> u8 list" where
  "grow_to n xs = xs @ replicate (n - length xs) 0"

definition file_write_all :: "u8 list \<Rightarrow> disk_file \<Rightarrow> disk_file \<times> (unit, io_error) result" where
  "file_write_all bs f =
     (if bs = [] then (f, Ok ())
      else if df_fault f \<or> \<not> df_writable f then (f, Err IoFault)
      else (f\<lparr>df_data := splice_at (df_pos f) bs (grow_to (df_pos f + length bs) (df_data f)),
              df_pos := df_pos f + length bs\<rparr>, Ok ()))"

definition file_sync_all :: "disk_file \<Rightarrow> (unit, io_error) result" where
  "file_sync_all f = (if df_fault f then Err IoFault else Ok ())"

end
