(* ===== verification/Block_Device.thy ===== *)
theory Block_Device
  imports Virtio_Device Host_File
begin

text \<open>
  The virtio block backend, \<^verbatim>\<open>src/crates/visor-vmm/src/devices/block.rs\<close>. Every handler takes
  guest memory and the device and returns both, because an error leaves the effects of
  what ran before it. The backing file is the one of \<open>Host_File\<close>.
\<close>

section \<open>The device\<close>

abbreviation (input) VIRTIO_BLK_F_RO :: u64 where "VIRTIO_BLK_F_RO \<equiv> 0x20"
abbreviation (input) SECTOR_SIZE :: u64 where "SECTOR_SIZE \<equiv> 512"
abbreviation (input) DEVICE_ID_LEN :: nat where "DEVICE_ID_LEN \<equiv> 20"
abbreviation (input) VIRTIO_BLK_T_IN :: u32 where "VIRTIO_BLK_T_IN \<equiv> 0"
abbreviation (input) VIRTIO_BLK_T_OUT :: u32 where "VIRTIO_BLK_T_OUT \<equiv> 1"
abbreviation (input) VIRTIO_BLK_T_FLUSH :: u32 where "VIRTIO_BLK_T_FLUSH \<equiv> 4"
abbreviation (input) VIRTIO_BLK_T_GET_ID :: u32 where "VIRTIO_BLK_T_GET_ID \<equiv> 8"
abbreviation (input) VIRTIO_BLK_S_OK :: u8 where "VIRTIO_BLK_S_OK \<equiv> 0"
abbreviation (input) VIRTIO_BLK_S_IOERR :: u8 where "VIRTIO_BLK_S_IOERR \<equiv> 1"
abbreviation (input) VIRTIO_BLK_S_UNSUPP :: u8 where "VIRTIO_BLK_S_UNSUPP \<equiv> 2"

datatype block_error =
    BlockOpenFile io_error
  | BlockGetSize io_error
  | BlockIo io_error
  | BlockMemory memory_error
  | BlockInvalidDescriptor desc_problem

record block_device =
  disk_file_of :: disk_file
  num_sectors :: u64
  read_only :: bool
  bd_avail_features :: u64
  bd_acked_features :: u64
  bd_queues :: "virt_queue list"
  bd_activated :: bool
  device_id :: "u8 list"

fun decimal :: "nat \<Rightarrow> u8 list" where
  "decimal n = (if n < 10 then [of_nat (48 + n)] else decimal (n div 10) @ [of_nat (48 + n mod 10)])"

declare decimal.simps [simp del]

text \<open>The metadata call is a parameter: \<open>None\<close> when it fails, else device, rdev and inode.\<close>

definition build_device_id :: "(nat \<times> nat \<times> nat) option \<Rightarrow> u8 list" where
  "build_device_id meta =
     (let zeros = replicate DEVICE_ID_LEN 0
      in case meta of
           None \<Rightarrow> zeros
         | Some (dev, rdev, ino) \<Rightarrow>
             (let bytes = decimal dev @ decimal rdev @ decimal ino;
                  len = min (length bytes) DEVICE_ID_LEN
              in splice_at 0 (take len bytes) zeros))"

definition block_new ::
  "(disk_file, io_error) result \<Rightarrow> (nat \<times> nat \<times> nat) option \<Rightarrow> bool \<Rightarrow>
     (block_device, block_error) result" where
  "block_new opened meta ro =
     (case opened of
        Err e \<Rightarrow> Err (BlockOpenFile e)
      | Ok f \<Rightarrow>
          (case file_seek_end f of
             (_, Err e) \<Rightarrow> Err (BlockGetSize e)
           | (f', Ok file_size) \<Rightarrow>
               Ok \<lparr>disk_file_of = f',
                   num_sectors = of_nat file_size div SECTOR_SIZE,
                   read_only = ro,
                   bd_avail_features =
                     (if ro then VIRTIO_F_VERSION_1 OR VIRTIO_BLK_F_RO else VIRTIO_F_VERSION_1),
                   bd_acked_features = 0,
                   bd_queues = [virt_queue_new 256],
                   bd_activated = False,
                   device_id = build_device_id meta\<rparr>))"

section \<open>Request handlers\<close>

abbreviation block_read_desc ::
  "guest_memory \<Rightarrow> virt_queue \<Rightarrow> u16 \<Rightarrow> (virtq_desc, block_error) result" where
  "block_read_desc \<equiv> read_desc BlockMemory BlockInvalidDescriptor"

fun handle_read_descs ::
  "virtq_desc list \<Rightarrow> guest_memory \<Rightarrow> disk_file \<Rightarrow> u32 \<Rightarrow>
     guest_memory \<times> disk_file \<times> u32 \<times> (u8, block_error) result" where
  "handle_read_descs [] mem f tw = (mem, f, tw, Ok VIRTIO_BLK_S_OK)"
| "handle_read_descs (d # ds) mem f tw =
     (if \<not> is_write_only d then (mem, f, tw, Ok VIRTIO_BLK_S_IOERR)
      else case file_read_exact (unat (d_len d)) f of
             (f', Err e) \<Rightarrow> (mem, f', tw, Err (BlockIo e))
           | (f', Ok buf) \<Rightarrow>
               (case write_bytes mem (d_addr d) buf of
                  Err e \<Rightarrow> (mem, f', tw, Err (BlockMemory e))
                | Ok mem' \<Rightarrow> handle_read_descs ds mem' f' (tw + d_len d)))"

definition handle_read ::
  "guest_memory \<Rightarrow> block_device \<Rightarrow> virtq_desc list \<Rightarrow> u64 \<Rightarrow> u32 \<Rightarrow>
     guest_memory \<times> block_device \<times> u32 \<times> (u8, block_error) result" where
  "handle_read mem dev data_descs sector tw =
     (case file_seek_start (sector * SECTOR_SIZE) (disk_file_of dev) of
        (f, Err e) \<Rightarrow> (mem, dev\<lparr>disk_file_of := f\<rparr>, tw, Err (BlockIo e))
      | (f, Ok _) \<Rightarrow>
          (case handle_read_descs data_descs mem f tw of
             (mem', f', tw', r) \<Rightarrow> (mem', dev\<lparr>disk_file_of := f'\<rparr>, tw', r)))"

fun handle_write_descs ::
  "virtq_desc list \<Rightarrow> guest_memory \<Rightarrow> disk_file \<Rightarrow> disk_file \<times> (u8, block_error) result" where
  "handle_write_descs [] mem f = (f, Ok VIRTIO_BLK_S_OK)"
| "handle_write_descs (d # ds) mem f =
     (if is_write_only d then (f, Ok VIRTIO_BLK_S_IOERR)
      else case read_bytes mem (d_addr d) (unat (d_len d)) of
             Err e \<Rightarrow> (f, Err (BlockMemory e))
           | Ok buf \<Rightarrow>
               (case file_write_all buf f of
                  (f', Err e) \<Rightarrow> (f', Err (BlockIo e))
                | (f', Ok _) \<Rightarrow> handle_write_descs ds mem f'))"

definition handle_write ::
  "guest_memory \<Rightarrow> block_device \<Rightarrow> virtq_desc list \<Rightarrow> u64 \<Rightarrow>
     block_device \<times> (u8, block_error) result" where
  "handle_write mem dev data_descs sector =
     (if read_only dev then (dev, Ok VIRTIO_BLK_S_IOERR)
      else case file_seek_start (sector * SECTOR_SIZE) (disk_file_of dev) of
             (f, Err e) \<Rightarrow> (dev\<lparr>disk_file_of := f\<rparr>, Err (BlockIo e))
           | (f, Ok _) \<Rightarrow>
               (case handle_write_descs data_descs mem f of
                  (f', r) \<Rightarrow> (dev\<lparr>disk_file_of := f'\<rparr>, r)))"

definition handle_flush :: "block_device \<Rightarrow> (u8, block_error) result" where
  "handle_flush dev =
     (case file_sync_all (disk_file_of dev) of
        Err e \<Rightarrow> Err (BlockIo e)
      | Ok _ \<Rightarrow> Ok VIRTIO_BLK_S_OK)"

fun handle_get_id ::
  "guest_memory \<Rightarrow> u8 list \<Rightarrow> virtq_desc list \<Rightarrow> u32 \<Rightarrow>
     guest_memory \<times> u32 \<times> (u8, block_error) result" where
  "handle_get_id mem did [] tw = (mem, tw, Ok VIRTIO_BLK_S_OK)"
| "handle_get_id mem did (d # ds) tw =
     (if \<not> is_write_only d then (mem, tw, Ok VIRTIO_BLK_S_IOERR)
      else let len = min (unat (d_len d)) DEVICE_ID_LEN
           in case write_bytes mem (d_addr d) (take len did) of
                Err e \<Rightarrow> (mem, tw, Err (BlockMemory e))
              | Ok mem' \<Rightarrow> handle_get_id mem' did ds (tw + of_nat len))"

section \<open>Descriptor chains\<close>

text \<open>
  \<open>visited\<close> counts the descriptors read; it never exceeds the queue size plus one, so
  the walk ends on every descriptor table the guest can set up.
\<close>

function walk_chain ::
  "guest_memory \<Rightarrow> virt_queue \<Rightarrow> u16 \<Rightarrow> nat \<Rightarrow> virtq_desc list \<Rightarrow>
     (virtq_desc list, block_error) result" where
  "walk_chain mem q current_idx visited chain =
     (case block_read_desc mem q current_idx of
        Err e \<Rightarrow> Err e
      | Ok desc \<Rightarrow>
          if visited + 1 > unat (q_size q) then Err (BlockInvalidDescriptor ChainCycle)
          else if \<not> has_next desc then Ok (chain @ [desc])
          else walk_chain mem q (d_next desc) (visited + 1) (chain @ [desc]))"
  by pat_completeness auto
termination
  by (relation "measure (\<lambda>(mem, q, idx, visited, chain). unat (q_size q) - visited)") auto

declare walk_chain.simps [simp del]

function write_status_walk ::
  "guest_memory \<Rightarrow> virt_queue \<Rightarrow> u16 \<Rightarrow> nat \<Rightarrow> u8 \<Rightarrow> guest_memory \<times> (unit, block_error) result" where
  "write_status_walk mem q idx visited status =
     (case block_read_desc mem q idx of
        Err e \<Rightarrow> (mem, Err e)
      | Ok desc \<Rightarrow>
          if visited + 1 > unat (q_size q) then (mem, Err (BlockInvalidDescriptor ChainCycleInStatusWrite))
          else if \<not> has_next desc
               then (case write_bytes mem (d_addr desc) [status] of
                       Err e \<Rightarrow> (mem, Err (BlockMemory e))
                     | Ok mem' \<Rightarrow> (mem', Ok ()))
          else write_status_walk mem q (d_next desc) (visited + 1) status)"
  by pat_completeness auto
termination
  by (relation "measure (\<lambda>(mem, q, idx, visited, status). unat (q_size q) - visited)") auto

declare write_status_walk.simps [simp del]

definition write_status_for_chain ::
  "guest_memory \<Rightarrow> virt_queue \<Rightarrow> u16 \<Rightarrow> u8 \<Rightarrow> guest_memory \<times> (unit, block_error) result" where
  "write_status_for_chain mem q head_idx status = write_status_walk mem q head_idx 0 status"

section \<open>Queue processing\<close>

definition dispatch_request ::
  "guest_memory \<Rightarrow> block_device \<Rightarrow> u32 \<Rightarrow> virtq_desc list \<Rightarrow> u64 \<Rightarrow>
     guest_memory \<times> block_device \<times> u32 \<times> (u8, block_error) result" where
  "dispatch_request mem dev req_type data_descs sector =
     (if req_type = VIRTIO_BLK_T_IN then handle_read mem dev data_descs sector 0
      else if req_type = VIRTIO_BLK_T_OUT
           then (case handle_write mem dev data_descs sector of (dev', r) \<Rightarrow> (mem, dev', 0, r))
      else if req_type = VIRTIO_BLK_T_FLUSH then (mem, dev, 0, handle_flush dev)
      else if req_type = VIRTIO_BLK_T_GET_ID
           then (case handle_get_id mem (device_id dev) data_descs 0 of (mem', tw, r) \<Rightarrow> (mem', dev, tw, r))
      else (mem, dev, 0, Ok VIRTIO_BLK_S_UNSUPP))"

definition process_one_request_inner ::
  "guest_memory \<Rightarrow> block_device \<Rightarrow> virt_queue \<Rightarrow> u16 \<Rightarrow>
     guest_memory \<times> block_device \<times> (u8 \<times> u32, block_error) result" where
  "process_one_request_inner mem dev q head_idx =
     (case block_read_desc mem q head_idx of
        Err e \<Rightarrow> (mem, dev, Err e)
      | Ok header_desc \<Rightarrow>
          if is_write_only header_desc then (mem, dev, Err (BlockInvalidDescriptor HeaderHasWriteFlag))
          else if d_len header_desc < 16 then (mem, dev, Err (BlockInvalidDescriptor HeaderTooSmall))
          else if \<not> has_next header_desc then (mem, dev, Err (BlockInvalidDescriptor HeaderHasNoNext))
          else
            (case read_bytes mem (d_addr header_desc) 16 of
               Err e \<Rightarrow> (mem, dev, Err (BlockMemory e))
             | Ok hdr \<Rightarrow>
                 (case walk_chain mem q (d_next header_desc) 0 [] of
                    Err e \<Rightarrow> (mem, dev, Err e)
                  | Ok chain \<Rightarrow>
                      if chain = [] then (mem, dev, Err (BlockInvalidDescriptor NoDataOrStatus))
                      else if \<not> is_write_only (last chain)
                           then (mem, dev, Err (BlockInvalidDescriptor StatusNotWritable))
                      else
                        (case dispatch_request mem dev (le_word (slice 0 4 hdr)) (butlast chain)
                                (le_word (slice 8 8 hdr)) of
                           (mem1, dev1, tw, Err e) \<Rightarrow> (mem1, dev1, Err e)
                         | (mem1, dev1, tw, Ok status) \<Rightarrow>
                             (case write_bytes mem1 (d_addr (last chain)) [status] of
                                Err e \<Rightarrow> (mem1, dev1, Err (BlockMemory e))
                              | Ok mem2 \<Rightarrow> (mem2, dev1, Ok (status, tw + 1)))))))"

definition process_one_request ::
  "guest_memory \<Rightarrow> block_device \<Rightarrow> virt_queue \<Rightarrow> u16 \<Rightarrow> guest_memory \<times> block_device \<times> u8 \<times> u32" where
  "process_one_request mem dev q head_idx =
     (case process_one_request_inner mem dev q head_idx of
        (mem', dev', Ok (status, written)) \<Rightarrow> (mem', dev', status, written)
      | (mem', dev', Err _) \<Rightarrow> (mem', dev', VIRTIO_BLK_S_IOERR, 0))"

text \<open>
  One turn of the loop: \<open>None\<close> means the next turn may run, \<open>Some e\<close> that the loop
  returns the error. The indices move before the status byte is written.
\<close>

definition block_queue_step ::
  "guest_memory \<Rightarrow> block_device \<Rightarrow> virt_queue \<Rightarrow>
     guest_memory \<times> block_device \<times> virt_queue \<times> block_error option" where
  "block_queue_step mem dev q =
     (case read_avail_entry BlockMemory mem q of
        Err e \<Rightarrow> (mem, dev, q, Some e)
      | Ok head_idx \<Rightarrow>
          (case process_one_request mem dev q head_idx of
             (mem1, dev1, status, written) \<Rightarrow>
               (case write_used_entry BlockMemory mem1 q head_idx written of
                  (mem2, Err e) \<Rightarrow> (mem2, dev1, q, Some e)
                | (mem2, Ok _) \<Rightarrow>
                    (case write_status_for_chain mem2 (advance q) head_idx status of
                       (mem3, Err e) \<Rightarrow> (mem3, dev1, advance q, Some e)
                     | (mem3, Ok _) \<Rightarrow> (mem3, dev1, advance q, None)))))"

lemma block_queue_step_queue:
  "block_queue_step mem dev q = (mem', dev', q', r) \<Longrightarrow> q' = q \<or> q' = advance q"
  "block_queue_step mem dev q = (mem', dev', q', None) \<Longrightarrow> q' = advance q"
  by (auto simp: block_queue_step_def split: result.splits prod.splits)

function block_queue_loop ::
  "guest_memory \<Rightarrow> block_device \<Rightarrow> virt_queue \<Rightarrow> u16 \<Rightarrow> bool \<Rightarrow>
     guest_memory \<times> block_device \<times> virt_queue \<times> (bool, block_error) result" where
  "block_queue_loop mem dev q avail processed =
     (if last_avail_idx q = avail then (mem, dev, q, Ok processed)
      else case block_queue_step mem dev q of
             (mem', dev', q', Some e) \<Rightarrow> (mem', dev', q', Err e)
           | (mem', dev', q', None) \<Rightarrow> block_queue_loop mem' dev' q' avail True)"
  by pat_completeness auto
termination
  by (relation "measure (\<lambda>(mem, dev, q, avail, processed). pending_entries q avail)")
     (auto dest!: sym [of _ "block_queue_step _ _ _"] block_queue_step_queue(2) intro: pending_entries_advance)

declare block_queue_loop.simps [simp del]

definition process_queue ::
  "guest_memory \<Rightarrow> block_device \<Rightarrow> virt_queue \<Rightarrow>
     guest_memory \<times> block_device \<times> virt_queue \<times> (bool, block_error) result" where
  "process_queue mem dev q =
     (if \<not> q_ready q \<or> q_size q = 0 then (mem, dev, q, Ok False)
      else case read_avail_idx BlockMemory mem q of
             Err e \<Rightarrow> (mem, dev, q, Err e)
           | Ok avail_idx \<Rightarrow>
               (case block_queue_loop mem dev q avail_idx False of
                  (mem', dev', q', Err e) \<Rightarrow> (mem', dev', q', Err e)
                | (mem', dev', q', Ok processed) \<Rightarrow>
                    if processed
                    then (case write_used_idx BlockMemory mem' q' of
                            (mem'', Err e) \<Rightarrow> (mem'', dev', q', Err e)
                          | (mem'', Ok _) \<Rightarrow> (mem'', dev', q', Ok processed))
                    else (mem', dev', q', Ok processed)))"

section \<open>The trait methods\<close>

definition block_trait_process_queue ::
  "nat \<Rightarrow> guest_memory \<Rightarrow> block_device \<Rightarrow> block_device \<times> guest_memory \<times> (bool, virtio_error) result" where
  "block_trait_process_queue queue_idx mem dev =
     (if queue_idx \<ge> length (bd_queues dev) then (dev, mem, Ok False)
      else case process_queue mem dev (bd_queues dev ! queue_idx) of
             (mem', dev', q', r) \<Rightarrow>
               (dev'\<lparr>bd_queues := (bd_queues dev')[queue_idx :=
                      (bd_queues dev' ! queue_idx)\<lparr>last_avail_idx := last_avail_idx q',
                                                   last_used_idx := last_used_idx q'\<rparr>]\<rparr>,
                mem', Ok (unwrap_or r False)))"

definition block_reset :: "block_device \<Rightarrow> block_device" where
  "block_reset dev = dev\<lparr>bd_activated := False, bd_queues := map virt_queue_reset (bd_queues dev)\<rparr>"

definition block_ops :: "block_device virtio_ops" where
  "block_ops = \<lparr>vd_device_type = (\<lambda>_. Block),
     vd_avail_features = bd_avail_features,
     vd_acked_features = bd_acked_features,
     vd_set_acked_features = (\<lambda>f. bd_acked_features_update (\<lambda>_. f)),
     vd_queues = bd_queues,
     vd_update_queues = bd_queues_update,
     vd_read_config = (\<lambda>dev. read_config_u64 (num_sectors dev)),
     vd_write_config = (\<lambda>off bs dev. dev),
     vd_activate = (\<lambda>dev. (dev\<lparr>bd_activated := True\<rparr>, Ok ())),
     vd_is_activated = bd_activated,
     vd_reset = block_reset,
     vd_process_queue = block_trait_process_queue\<rparr>"

section \<open>What the handlers preserve\<close>

text \<open>
  The effect of the device on guest memory and on itself, common to every handler: only the
  backing file of the device changes, a read-only device keeps its contents, and guest
  memory stays well formed. It is reflexive and transitive, so it lifts from the handlers
  to the queue loop.
\<close>

definition block_effect ::
  "guest_memory \<Rightarrow> block_device \<Rightarrow> guest_memory \<Rightarrow> block_device \<Rightarrow> bool" where
  "block_effect mem dev mem' dev' \<longleftrightarrow>
     (\<exists>f. dev' = dev\<lparr>disk_file_of := f\<rparr> \<and>
          (read_only dev \<longrightarrow> df_data f = df_data (disk_file_of dev))) \<and>
     (mem_wf mem \<longrightarrow> mem_wf mem')"

lemma block_effectI:
  assumes "read_only dev \<Longrightarrow> df_data f = df_data (disk_file_of dev)" "mem_wf mem \<Longrightarrow> mem_wf mem'"
  shows "block_effect mem dev mem' (dev\<lparr>disk_file_of := f\<rparr>)"
  using assms unfolding block_effect_def by blast

lemma block_effect_mem:
  assumes "mem_wf mem \<Longrightarrow> mem_wf mem'"
  shows "block_effect mem dev mem' dev"
  using assms block_effectI [of dev "disk_file_of dev" mem mem'] by simp

lemma block_effect_refl [simp]: "block_effect mem dev mem dev"
  by (rule block_effect_mem)

lemma block_effectE:
  assumes "block_effect mem dev mem' dev'"
  obtains f where "dev' = dev\<lparr>disk_file_of := f\<rparr>"
    and "read_only dev \<Longrightarrow> df_data f = df_data (disk_file_of dev)"
    and "mem_wf mem \<Longrightarrow> mem_wf mem'"
  using assms unfolding block_effect_def by blast

lemma block_effect_frame:
  assumes "block_effect mem dev mem' dev'"
  shows "bd_queues dev' = bd_queues dev" "bd_avail_features dev' = bd_avail_features dev"
    "bd_acked_features dev' = bd_acked_features dev" "bd_activated dev' = bd_activated dev"
    "read_only dev' = read_only dev" "num_sectors dev' = num_sectors dev"
    "device_id dev' = device_id dev"
  by (rule block_effectE [OF assms], simp)+

lemma block_effect_trans:
  assumes "block_effect mem dev mem1 dev1" "block_effect mem1 dev1 mem2 dev2"
  shows "block_effect mem dev mem2 dev2"
  by (rule block_effectE [OF assms(1)], rule block_effectE [OF assms(2)])
     (simp, rule block_effectI, auto)

lemma block_effect_mem_wf: "block_effect mem dev mem' dev' \<Longrightarrow> mem_wf mem \<Longrightarrow> mem_wf mem'"
  by (simp add: block_effect_def)

lemma block_effect_write:
  "block_effect mem dev mem1 dev1 \<Longrightarrow> write_bytes mem1 a bs = Ok mem2 \<Longrightarrow> block_effect mem dev mem2 dev1"
  by (erule block_effect_trans, rule block_effect_mem) (rule mem_wf_write)

lemma handle_read_descs_effect:
  "handle_read_descs ds mem f tw = (mem', f', tw', r) \<Longrightarrow>
     df_data f' = df_data f \<and> (mem_wf mem \<longrightarrow> mem_wf mem')"
proof (induction ds arbitrary: mem f tw)
  case (Cons d ds)
  obtain f1 r1 where rd: "file_read_exact (unat (d_len d)) f = (f1, r1)" by fastforce
  then have f1: "df_data f1 = df_data f" by (auto simp: file_read_exact_def split: if_splits)
  show ?case
    using Cons.prems f1
    by (auto simp: rd split: if_splits result.splits dest!: Cons.IH dest: mem_wf_write)
qed simp

lemma handle_get_id_effect:
  "handle_get_id mem did ds tw = (mem', tw', r) \<Longrightarrow> mem_wf mem \<Longrightarrow> mem_wf mem'"
proof (induction ds arbitrary: mem tw)
  case (Cons d ds)
  then show ?case by (auto simp: Let_def split: if_splits result.splits dest: mem_wf_write)
qed simp

lemma handle_read_effect:
  assumes "handle_read mem dev ds sec tw = (mem', dev', tw', r)"
  shows "block_effect mem dev mem' dev'"
  using assms
  by (auto simp: handle_read_def file_seek_start_def split: if_splits result.splits prod.splits
      dest: handle_read_descs_effect intro!: block_effectI)

lemma handle_write_effect:
  assumes "handle_write mem dev ds sec = (dev', r)"
  shows "block_effect mem dev mem dev'"
  using assms
  by (auto simp: handle_write_def split: if_splits result.splits prod.splits intro!: block_effectI)

lemma dispatch_request_effect:
  assumes "dispatch_request mem dev t ds sec = (mem', dev', tw, r)"
  shows "block_effect mem dev mem' dev'"
  using assms
  by (auto simp: dispatch_request_def split: if_splits prod.splits
      intro: handle_read_effect handle_write_effect block_effect_mem dest: handle_get_id_effect)

lemma process_one_request_inner_effect:
  "process_one_request_inner mem dev q h = (mem', dev', r) \<Longrightarrow> block_effect mem dev mem' dev'"
  by (auto simp: process_one_request_inner_def split: if_splits result.splits prod.splits
      dest!: dispatch_request_effect intro: block_effect_write)

lemma process_one_request_effect:
  "process_one_request mem dev q h = (mem', dev', st, w) \<Longrightarrow> block_effect mem dev mem' dev'"
  by (auto simp: process_one_request_def split: result.splits prod.splits
      dest: process_one_request_inner_effect)

lemma write_status_walk_wf:
  "write_status_walk mem q i v st = (mem', r) \<Longrightarrow> mem_wf mem \<Longrightarrow> mem_wf mem'"
proof (induction mem q i v st rule: write_status_walk.induct)
  case (1 mem q i v st)
  then show ?case
    by (auto simp: write_status_walk.simps [of mem q i v st] split: if_splits result.splits
        dest: mem_wf_write)
qed

lemma block_queue_step_effect:
  assumes "block_queue_step mem dev q = (mem', dev', q', r)"
  shows "block_effect mem dev mem' dev'"
  using assms unfolding block_queue_step_def write_status_for_chain_def
  by (auto split: result.splits prod.splits
      dest!: process_one_request_effect elim!: block_effect_trans
      intro!: block_effect_mem dest: write_used_entry_wf write_status_walk_wf)

text \<open>
  The rule for the queue loop: what every step keeps holds at the end, and an error-free
  end has consumed everything.
\<close>

lemma block_queue_loop_inv:
  assumes "block_queue_loop mem dev q avail p = (mem', dev', q', r)" and "I mem dev q"
    and step: "\<And>m d k m' d' k' e. I m d k \<Longrightarrow> block_queue_step m d k = (m', d', k', e) \<Longrightarrow> I m' d' k'"
  shows "I mem' dev' q' \<and>
    (\<forall>b. r = Ok b \<longrightarrow> last_avail_idx q' = avail \<and> (b \<longleftrightarrow> p \<or> last_avail_idx q \<noteq> avail))"
  using assms(1,2)
proof (induction mem dev q avail p rule: block_queue_loop.induct)
  case (1 mem dev q avail p)
  show ?case
  proof (cases "last_avail_idx q = avail")
    case True
    with "1.prems" show ?thesis by (auto simp: block_queue_loop.simps [of mem dev q])
  next
    case False
    obtain m1 d1 q1 e where st: "block_queue_step mem dev q = (m1, d1, q1, e)"
      by (cases "block_queue_step mem dev q")
    have I1: "I m1 d1 q1" using step [OF "1.prems"(2) st] .
    show ?thesis
    proof (cases e)
      case None
      then have "block_queue_loop m1 d1 q1 avail True = (mem', dev', q', r)"
        using "1.prems"(1) False st by (simp add: block_queue_loop.simps [of mem dev q])
      from "1.IH" [OF False st [symmetric] refl refl None this I1] False show ?thesis by auto
    next
      case (Some x)
      with "1.prems"(1) False st I1 show ?thesis by (auto simp: block_queue_loop.simps [of mem dev q])
    qed
  qed
qed

lemma block_queue_loop_effect:
  assumes "block_queue_loop mem dev q avail p = (mem', dev', q', r)"
  shows "block_effect mem dev mem' dev'"
  using block_queue_loop_inv [OF assms, where I = "\<lambda>m d k. block_effect mem dev m d"]
  by (blast intro: block_effect_refl block_effect_trans block_queue_step_effect)

lemma process_queue_effect:
  assumes "process_queue mem dev q = (mem', dev', q', r)"
  shows "block_effect mem dev mem' dev'"
  using assms unfolding process_queue_def
  by (auto split: if_splits result.splits prod.splits
      dest!: block_queue_loop_effect elim!: block_effect_trans
      intro!: block_effect_mem dest: write_used_idx_wf)

lemma block_queue_loop_geometry:
  assumes "block_queue_loop mem dev q avail p = (mem', dev', q', r)"
  shows "queue_geometry q' = queue_geometry q"
  using block_queue_loop_inv [OF assms, where I = "\<lambda>m d k. queue_geometry k = queue_geometry q"]
  by (fastforce dest: block_queue_step_queue(1))

lemma process_queue_geometry:
  assumes "process_queue mem dev q = (mem', dev', q', r)"
  shows "queue_geometry q' = queue_geometry q"
  using assms
  by (auto simp: process_queue_def split: if_splits result.splits prod.splits
      dest: block_queue_loop_geometry)

section \<open>The block device provides the virtio contract\<close>

interpretation block: virtio_device block_ops
proof (unfold_locales, goal_cases)
  case (24 i m d d' m' r)
  obtain m1 d1 q1 r1 where pq: "process_queue m d (bd_queues d ! i) = (m1, d1, q1, r1)"
    by (cases "process_queue m d (bd_queues d ! i)")
  with 24 show ?case
    using block_effect_frame(1) [OF process_queue_effect [OF pq]]
    by (auto simp: block_ops_def block_trait_process_queue_def map_update list_update_same_conv
        split: if_splits)
next
  case (25 m i d d' m' r)
  then show ?case
    by (auto simp: block_ops_def block_trait_process_queue_def block_effect_def
        split: if_splits prod.splits dest!: process_queue_effect)
qed (auto simp: block_ops_def block_reset_def virt_queue_reset_def block_trait_process_queue_def
    split: if_splits prod.splits dest!: process_queue_effect dest: block_effect_frame)

end
