(* ===== verification/Block_Properties.thy ===== *)
theory Block_Properties
  imports Used_Ring Block_Device
begin

text \<open>
  Properties of the block backend: what a completed pass over the queue leaves in the rings,
  that descriptor walks are bounded, that data written can be read back, that a read-only
  disk never changes, and two behaviours worth knowing: the device does not bound requests
  by the capacity it advertises, and a malformed chain stops the whole pass.
\<close>

section \<open>A small guest for the witnesses\<close>

text \<open>
  One queue of two descriptors: a request header at address 64 and a status byte at
  address 80. The available ring at 32 holds one request; the used ring is at 40.
\<close>

definition demo_mem :: "u8 \<Rightarrow> u16 \<Rightarrow> guest_memory" where
  "demo_mem req head = \<lparr>gm_bytes =
     desc_bytes \<lparr>d_addr = 64, d_len = 16, d_flags = 1, d_next = 1\<rparr> @
     desc_bytes \<lparr>d_addr = 80, d_len = 1, d_flags = 2, d_next = 0\<rparr> @
     [0, 0, 1, 0] @ le_bytes 2 head @ [0, 0] @
     replicate 24 0 @ [req, 0, 0, 0] @ replicate 12 0 @ [255],
     gm_size = 81, guest_base = 0, huge_pages = False\<rparr>"

definition demo_queue :: virt_queue where
  "demo_queue = (virt_queue_new 256)\<lparr>q_size := 2, q_ready := True, desc_table_addr := 0,
     avail_ring_addr := 32, used_ring_addr := 40\<rparr>"

definition demo_disk :: disk_file where
  "demo_disk = \<lparr>df_data = replicate 8 7, df_pos = 0, df_writable = True, df_fault = False\<rparr>"

definition demo_block :: "bool \<Rightarrow> block_device" where
  "demo_block ro = \<lparr>disk_file_of = demo_disk, num_sectors = 0, read_only = ro,
     bd_avail_features = VIRTIO_F_VERSION_1, bd_acked_features = 0,
     bd_queues = [demo_queue], bd_activated = True, device_id = build_device_id None\<rparr>"

lemma demo_mem_wf: "mem_wf (demo_mem r h)"
  by (simp add: mem_wf_def demo_mem_def desc_bytes_def)

section \<open>A completed pass over the queue\<close>

lemma block_queue_loop_done:
  assumes "block_queue_loop mem dev q avail p = (mem', dev', q', Ok r)"
  shows "last_avail_idx q' = avail"
    and "last_used_idx q' - last_avail_idx q' = last_used_idx q - last_avail_idx q"
    and "r \<longleftrightarrow> p \<or> last_avail_idx q \<noteq> avail"
    and "used_ring_addr q' = used_ring_addr q"
proof -
  let ?I = "\<lambda>m d k. last_used_idx k - last_avail_idx k = last_used_idx q - last_avail_idx q \<and>
      used_ring_addr k = used_ring_addr q"
  have fin: "?I mem' dev' q' \<and> (\<forall>b. (Ok r :: (bool, block_error) result) = Ok b \<longrightarrow>
      last_avail_idx q' = avail \<and> (b \<longleftrightarrow> p \<or> last_avail_idx q \<noteq> avail))"
    by (rule block_queue_loop_inv [where I = ?I, OF assms]) (auto dest!: block_queue_step_queue(1))
  show "last_avail_idx q' = avail"
    and "last_used_idx q' - last_avail_idx q' = last_used_idx q - last_avail_idx q"
    and "r \<longleftrightarrow> p \<or> last_avail_idx q \<noteq> avail"
    and "used_ring_addr q' = used_ring_addr q" using fin by auto
qed

text \<open>
  The writes of one request go to buffers of its chain: an area that no buffer of the table
  overlaps is not changed.
\<close>

definition apart_from :: "nat set \<Rightarrow> virtq_desc \<Rightarrow> bool" where
  "apart_from S d \<longleftrightarrow> area (d_addr d) (max 1 (unat (d_len d))) \<inter> S = {}"

definition buffer_free :: "guest_memory \<Rightarrow> virt_queue \<Rightarrow> nat set \<Rightarrow> bool" where
  "buffer_free m q S \<longleftrightarrow> (\<forall>i d. block_read_desc m q i = Ok d \<longrightarrow> apart_from S d)"

lemma write_apart:
  assumes "write_bytes m (d_addr d) bs = Ok m'" "mem_wf m" "length bs \<le> max 1 (unat (d_len d))" "apart_from S d"
  shows "unchanged_on S m m'"
proof (rule unchanged_on_write [OF assms(2,1)])
  have "area (d_addr d) (length bs) \<subseteq> area (d_addr d) (max 1 (unat (d_len d)))"
    unfolding area_def using assms(3) by (intro ivl_subset [THEN iffD2] disjI2) simp
  then show "area (d_addr d) (length bs) \<inter> S = {}" using assms(4) unfolding apart_from_def by blast
qed

lemma handle_read_descs_unchanged:
  assumes "handle_read_descs ds mem f tw = (mem', f', tw', r)" "mem_wf mem" "list_all (apart_from S) ds"
  shows "unchanged_on S mem mem'"
  using assms
proof (induction ds arbitrary: mem f tw)
  case (Cons d ds)
  obtain f1 r1 where rd: "file_read_exact (unat (d_len d)) f = (f1, r1)" by fastforce
  show ?case
  proof (cases "is_write_only d \<and> (\<exists>buf m1. r1 = Ok buf \<and> write_bytes mem (d_addr d) buf = Ok m1)")
    case True
    then obtain buf m1 where r1: "r1 = Ok buf" and m1: "write_bytes mem (d_addr d) buf = Ok m1" by blast
    have "length buf \<le> unat (d_len d)" using rd r1 by (auto simp: file_read_exact_def split: if_splits)
    then have "unchanged_on S mem m1"
      using write_apart [OF m1 Cons.prems(2)] Cons.prems(3) by simp
    moreover have "unchanged_on S m1 mem'"
      using Cons.IH [of m1 f1 "tw + d_len d"] Cons.prems True rd r1 m1 mem_wf_write [OF Cons.prems(2) m1] by simp
    ultimately show ?thesis by (rule unchanged_on_trans)
  next
    case False
    then have "mem' = mem" using Cons.prems(1) rd by (auto split: if_splits result.splits)
    then show ?thesis by simp
  qed
qed simp

lemma handle_get_id_unchanged:
  assumes "handle_get_id mem did ds tw = (mem', tw', r)" "mem_wf mem" "list_all (apart_from S) ds"
  shows "unchanged_on S mem mem'"
  using assms
proof (induction ds arbitrary: mem tw)
  case (Cons d ds)
  let ?bs = "take (min (unat (d_len d)) DEVICE_ID_LEN) did"
  show ?case
  proof (cases "is_write_only d \<and> (\<exists>m1. write_bytes mem (d_addr d) ?bs = Ok m1)")
    case True
    then obtain m1 where m1: "write_bytes mem (d_addr d) ?bs = Ok m1" by blast
    have "unchanged_on S mem m1"
      using write_apart [OF m1 Cons.prems(2)] Cons.prems(3) by simp
    moreover have "unchanged_on S m1 mem'"
      using Cons.IH [of m1] Cons.prems True m1 mem_wf_write [OF Cons.prems(2) m1] by (simp add: Let_def)
    ultimately show ?thesis by (rule unchanged_on_trans)
  next
    case False
    then have "mem' = mem" using Cons.prems(1) by (auto simp: Let_def split: if_splits result.splits)
    then show ?thesis by simp
  qed
qed simp

lemma dispatch_request_unchanged:
  assumes "dispatch_request mem dev t ds sec = (mem', dev', tw, r)" "mem_wf mem" "list_all (apart_from S) ds"
  shows "unchanged_on S mem mem'"
  using assms
  by (auto simp: dispatch_request_def handle_read_def split: if_splits prod.splits result.splits
      dest: handle_read_descs_unchanged handle_get_id_unchanged)

lemma walk_chain_apart:
  assumes "walk_chain m q i v chain = Ok chain'" "list_all (apart_from S) chain" "buffer_free m q S"
  shows "list_all (apart_from S) chain'"
  using assms
proof (induction m q i v chain rule: walk_chain.induct)
  case (1 m q i v chain)
  show ?case
  proof (cases "block_read_desc m q i")
    case (Ok d)
    then have "apart_from S d" using "1.prems"(3) by (simp add: buffer_free_def)
    then show ?thesis using 1 Ok by (auto simp: walk_chain.simps [of m q i] split: if_splits)
  qed (use "1.prems" in \<open>simp add: walk_chain.simps [of m q i]\<close>)
qed

lemma process_one_request_unchanged:
  assumes "process_one_request mem dev q h = (mem', dev', st, w)" "mem_wf mem" "buffer_free mem q S"
  shows "unchanged_on S mem mem'"
proof -
  obtain r where "process_one_request_inner mem dev q h = (mem', dev', r)"
    using assms(1) by (auto simp: process_one_request_def split: prod.splits result.splits)
  then consider "mem' = mem" | chain t sec tw m1 r1 where "list_all (apart_from S) chain" "chain \<noteq> []"
      "dispatch_request mem dev t (butlast chain) sec = (m1, dev', tw, r1)"
      "mem' = m1 \<or> (\<exists>s. write_bytes m1 (d_addr (last chain)) [s] = Ok mem')"
    using walk_chain_apart [OF _ _ assms(3)]
    by (fastforce simp: process_one_request_inner_def split: if_splits result.splits prod.splits)
  then show ?thesis
  proof cases
    case 2
    have ap: "list_all (apart_from S) (butlast chain)" "apart_from S (last chain)"
      using 2(1,2) by (auto simp: list_all_iff dest: in_set_butlastD)
    have m1: "unchanged_on S mem m1" by (rule dispatch_request_unchanged [OF 2(3) assms(2) ap(1)])
    have wf: "mem_wf m1" using block_effect_mem_wf [OF dispatch_request_effect [OF 2(3)] assms(2)] .
    have "unchanged_on S m1 mem'" if "write_bytes m1 (d_addr (last chain)) [s] = Ok mem'" for s
      using write_apart [OF that wf _ ap(2)] by simp
    then show ?thesis using 2(4) m1 unchanged_on_trans by blast
  qed simp
qed

lemma write_status_unchanged:
  assumes "write_status_for_chain m q h st = (m', r)" "mem_wf m" "buffer_free m q S"
  shows "unchanged_on S m m'"
proof -
  have "write_status_walk m q i v st = (m', r) \<Longrightarrow> unchanged_on S m m'" for i v
    using assms(2,3)
  proof (induction m q i v st rule: write_status_walk.induct)
    case (1 m q i v st)
    show ?case
    proof (cases "block_read_desc m q i")
      case (Ok d)
      then have "apart_from S d" using "1.prems"(3) by (simp add: buffer_free_def)
      then have "write_bytes m (d_addr d) [st] = Ok m' \<Longrightarrow> unchanged_on S m m'"
        using write_apart [OF _ "1.prems"(2), of d "[st]"] by simp
      then show ?thesis using 1 Ok by (auto simp: write_status_walk.simps [of m q i] split: if_splits result.splits)
    qed (use "1.prems" in \<open>simp add: write_status_walk.simps [of m q i]\<close>)
  qed
  then show ?thesis using assms(1) by (simp add: write_status_for_chain_def)
qed

text \<open>The steps of a pass, one after the other, and what each leaves in its slot.\<close>

lemma block_queue_loop_trace:
  assumes "block_queue_loop mem dev q avail p = (mem', dev', q', Ok b)"
  shows "\<exists>ms ds. ms 0 = mem \<and> ds 0 = dev \<and> ms (pending_entries q avail) = mem' \<and> ds (pending_entries q avail) = dev' \<and>
    q' = advance_by (pending_entries q avail) q \<and>
    (\<forall>k < pending_entries q avail. block_queue_step (ms k) (ds k) (advance_by k q) =
       (ms (Suc k), ds (Suc k), advance_by (Suc k) q, None))"
  using assms
proof (induction mem dev q avail p rule: block_queue_loop.induct)
  case (1 mem dev q avail p)
  show ?case
  proof (cases "last_avail_idx q = avail")
    case True
    with "1.prems" show ?thesis
      by (intro exI [of _ "\<lambda>_. mem"] exI [of _ "\<lambda>_. dev"])
        (auto simp: block_queue_loop.simps [of mem dev q] pending_entries_def)
  next
    case False
    obtain m1 d1 q1 e where st: "block_queue_step mem dev q = (m1, d1, q1, e)"
      by (cases "block_queue_step mem dev q")
    then have e: "e = None" and run: "block_queue_loop m1 d1 q1 avail True = (mem', dev', q', Ok b)"
      using "1.prems" False by (auto simp: block_queue_loop.simps [of mem dev q] split: option.splits)
    have q1: "q1 = advance q" using block_queue_step_queue(2) st e by blast
    let ?n = "pending_entries (advance q) avail"
    obtain ms ds where t: "ms 0 = m1" "ds 0 = d1" "ms ?n = mem'" "ds ?n = dev'" "q' = advance_by ?n (advance q)"
        "\<forall>k < ?n. block_queue_step (ms k) (ds k) (advance_by k (advance q)) =
          (ms (Suc k), ds (Suc k), advance_by (Suc k) (advance q), None)"
      using "1.IH" [OF False st [symmetric] refl refl e run] unfolding q1 by blast
    have one: "advance_by (Suc 0) q = advance q" by (simp add: advance_by_def advance_def)
    have "block_queue_step (case_nat mem ms k) (case_nat dev ds k) (advance_by k q) =
        (case_nat mem ms (Suc k), case_nat dev ds (Suc k), advance_by (Suc k) q, None)" if "k < Suc ?n" for k
      using t(1,2,6) st e q1 that by (cases k) (auto simp: advance_by_advance one)
    then show ?thesis using t
      by (intro exI [of _ "case_nat mem ms"] exI [of _ "case_nat dev ds"])
        (simp add: pending_entries_Suc [OF False] advance_by_advance)
  qed
qed

definition queue_areas :: "virt_queue \<Rightarrow> nat set" where
  "queue_areas q = desc_area q \<union> avail_area q \<union> used_area q"

lemma block_step_entry:
  assumes st: "block_queue_step m d (advance_by k q) = (m3, d3, advance_by (Suc k) q, None)"
    and m: "mem_wf m" "mem_wf mem" "unchanged_on (desc_area q \<union> avail_area q) mem m"
    and q: "rings_apart q" "q_size q \<noteq> 0" "buffers_apart mem q"
  shows "mem_wf m3 \<and> unchanged_on (queue_areas q - used_slot (advance_by k q)) m m3 \<and>
    (\<exists>h m1 s w m2. read_avail_entry BlockMemory mem (advance_by k q) = Ok h \<and>
       process_one_request m d (advance_by k q) h = (m1, d3, s, w) \<and>
       unchanged_on (- used_slot (advance_by k q)) m1 m2 \<and>
       write_status_for_chain m2 (advance_by (Suc k) q) h s = (m3, Ok ()) \<and>
       read_bytes m3 (used_entry_addr (advance_by k q)) 8 = Ok (used_entry h w))"
proof -
  let ?q = "advance_by k q" and ?S = "queue_areas q"
  have q': "advance ?q = advance_by (Suc k) q" by (simp add: advance_def advance_by_def add.assoc add.commute)
  obtain h m1 s w m2 where h: "read_avail_entry BlockMemory m ?q = Ok h" "process_one_request m d ?q h = (m1, d3, s, w)"
      "write_used_entry BlockMemory m1 ?q h w = (m2, Ok ())" "write_status_for_chain m2 (advance_by (Suc k) q) h s = (m3, Ok ())"
    using st by (auto simp: block_queue_step_def q' split: result.splits prod.splits)
  have free: "buffer_free n (advance_by i q) ?S" if "unchanged_on (desc_area q) mem n" "mem_wf n" for n i
    unfolding buffer_free_def apart_from_def queue_areas_def
  proof (intro allI impI)
    fix j e assume "block_read_desc n (advance_by i q) j = Ok e"
    then have "block_read_desc mem q j = Ok e" by (simp add: read_desc_unchanged [OF that(1) m(2) that(2) q(1)])
    then show "area (d_addr e) (max 1 (unat (d_len e))) \<inter> (desc_area q \<union> avail_area q \<union> used_area q) = {}"
      by (rule buffers_apartD [OF q(3)])
  qed
  have d0: "unchanged_on (desc_area q) mem m" by (rule unchanged_on_mono [OF m(3)]) simp
  have m1: "unchanged_on ?S m m1" "mem_wf m1"
    using process_one_request_unchanged [OF h(2) m(1) free [OF d0 m(1)]]
      block_effect_mem_wf [OF process_one_request_effect [OF h(2)] m(1)] by auto
  have m2: "unchanged_on (- used_slot ?q) m1 m2" "read_bytes m2 (used_entry_addr ?q) 8 = Ok (used_entry h w)" "mem_wf m2"
    using write_used_entry_exact [OF _ _ m1(2) h(3)] q(1,2) by auto
  have slot: "used_slot ?q \<subseteq> used_area q" using used_slot_in [of ?q] q(1,2) by simp
  have d2: "unchanged_on (desc_area q) mem m2"
    using unchanged_on_trans [OF d0 unchanged_on_trans [OF unchanged_on_mono [OF m1(1)] unchanged_on_mono [OF m2(1)]]]
      slot q(1) by (auto simp: queue_areas_def rings_apart_def)
  have m3: "unchanged_on ?S m2 m3" "mem_wf m3"
    using write_status_unchanged [OF h(4) m2(3) free [OF d2 m2(3)]] h(4) m2(3)
    by (auto simp: write_status_for_chain_def dest: write_status_walk_wf)
  have same: "read_avail_entry BlockMemory m ?q = read_avail_entry BlockMemory mem ?q"
    by (rule read_avail_entry_unchanged [OF unchanged_on_mono [OF m(3)] m(2,1) q(1,2)]) simp
  have "read_bytes m3 (used_entry_addr ?q) 8 = Ok (used_entry h w)"
    using unchanged_on_read [OF m3(1) m2(3) m3(2), of "used_entry_addr ?q" 8] slot m2(2)
    by (auto simp: used_slot_def queue_areas_def)
  moreover have "unchanged_on (?S - used_slot ?q) m m3"
    by (rule unchanged_on_trans [OF unchanged_on_mono [OF m1(1)]
        unchanged_on_trans [OF unchanged_on_mono [OF m2(1)] unchanged_on_mono [OF m3(1)]]]) auto
  ultimately show ?thesis using h(1) [unfolded same] h(2,4) m2(1) m3(2) by blast
qed

text \<open>The whole pass: its requests in order, and their entries in the memory at the end.\<close>

lemma block_pass_entries:
  assumes lp: "block_queue_loop mem dev q avail False = (m1, dev', q', Ok b)"
    and wr: "if b then write_used_idx BlockMemory m1 q' = (mem', Ok ()) else mem' = m1"
    and q: "mem_wf mem" "q_size q \<noteq> 0" "rings_apart q" "buffers_apart mem q" "pending_entries q avail \<le> unat (q_size q)"
  shows "\<exists>ms ds. ms 0 = mem \<and> ds 0 = dev \<and> ds (pending_entries q avail) = dev' \<and>
    (\<forall>k < pending_entries q avail. \<exists>h m1 s w m2. read_avail_entry BlockMemory mem (advance_by k q) = Ok h \<and>
       process_one_request (ms k) (ds k) (advance_by k q) h = (m1, ds (Suc k), s, w) \<and>
       unchanged_on (- used_slot (advance_by k q)) m1 m2 \<and>
       write_status_for_chain m2 (advance_by (Suc k) q) h s = (ms (Suc k), Ok ()) \<and>
       read_bytes mem' (used_entry_addr (advance_by k q)) 8 = Ok (used_entry h w))"
proof -
  let ?n = "pending_entries q avail"
  obtain ms ds where tr: "ms 0 = mem" "ds 0 = dev" "ms ?n = m1" "ds ?n = dev'" "q' = advance_by ?n q"
      "\<And>k. k < ?n \<Longrightarrow> block_queue_step (ms k) (ds k) (advance_by k q) = (ms (Suc k), ds (Suc k), advance_by (Suc k) q, None)"
    using block_queue_loop_trace [OF lp] by blast
  have slot: "used_slot (advance_by k q) \<subseteq> used_area q" for k using used_slot_in [of "advance_by k q"] q(2,3) by simp
  have inv: "k \<le> ?n \<Longrightarrow> mem_wf (ms k) \<and> unchanged_on (desc_area q \<union> avail_area q) mem (ms k)" for k
  proof (induction k)
    case (Suc k)
    then have "mem_wf (ms (Suc k))" "unchanged_on (queue_areas q - used_slot (advance_by k q)) (ms k) (ms (Suc k))"
      using block_step_entry [OF tr(6) _ q(1) _ q(3,2,4), of k] by auto
    moreover have "desc_area q \<union> avail_area q \<subseteq> queue_areas q - used_slot (advance_by k q)"
      using slot [of k] q(3) by (auto simp: queue_areas_def rings_apart_def)
    ultimately show ?case using Suc unchanged_on_trans unchanged_on_mono by (metis Suc_leD)
  qed (use tr(1) q(1) in simp)
  note step = block_step_entry [OF tr(6) conjunct1 [OF inv] q(1) conjunct2 [OF inv] q(3,2,4), OF _ less_imp_le less_imp_le]
  obtain head a s w b2 where h: "\<And>k. k < ?n \<Longrightarrow> read_avail_entry BlockMemory mem (advance_by k q) = Ok (head k) \<and>
       process_one_request (ms k) (ds k) (advance_by k q) (head k) = (a k, ds (Suc k), s k, w k) \<and>
       unchanged_on (- used_slot (advance_by k q)) (a k) (b2 k) \<and>
       write_status_for_chain (b2 k) (advance_by (Suc k) q) (head k) (s k) = (ms (Suc k), Ok ()) \<and>
       read_bytes (ms (Suc k)) (used_entry_addr (advance_by k q)) 8 = Ok (used_entry (head k) (w k))"
    using step by metis
  have keep: "unchanged_on (used_area q - used_slot (advance_by k q)) (ms k) (ms (Suc k))" if "k < ?n" for k
    by (rule unchanged_on_mono [of "queue_areas q - used_slot (advance_by k q)"]) (use step [OF that that that] in \<open>auto simp: queue_areas_def\<close>)
  have "read_bytes m1 (used_entry_addr (advance_by k q)) 8 = Ok (used_entry (head k) (w k))" if "k < ?n" for k
    unfolding tr(3) [symmetric]
    by (rule entries_stay [where es = "\<lambda>k. used_entry (head k) (w k)", OF q(3,2,5) _ keep _ that]) (use inv h in auto)
  moreover have "read_bytes mem' (used_entry_addr (advance_by k q)) 8 = read_bytes m1 (used_entry_addr (advance_by k q)) 8" for k
    using wr inv [of ?n] write_used_idx_entries [OF q(3,2)] unfolding tr(3,5) by (cases b) auto
  ultimately show ?thesis using tr(1,2,4) h by (intro exI [of _ ms] exI [of _ ds]) fastforce
qed

text \<open>
  C13. A pass over a ready queue that returns without error has consumed every entry the guest
  had made available, has moved the used index by as many (modulo the 16-bit wrap), reports
  work exactly when there was some, and has then published the new used index in guest memory.
  When the driver keeps the used ring apart from the table and the available ring and its
  buffers apart from all three, and no more entries are pending than the ring holds, then the
  requests were those the available ring named before the pass, served in that order, each
  on what the one before it left, and the used ring holds at the end one entry for each, in
  order: its head, and the length that serving it returned.
\<close>

theorem block_pass_drains_queue:
  assumes "mem_wf mem" and "q_ready q" and "q_size q \<noteq> 0"
    and "read_avail_idx BlockMemory mem q = Ok avail"
    and "process_queue mem dev q = (mem', dev', q', Ok processed)"
  shows "last_avail_idx q' = avail \<and>
    last_used_idx q' - last_used_idx q = avail - last_avail_idx q \<and>
    (processed \<longleftrightarrow> last_avail_idx q \<noteq> avail) \<and>
    (processed \<longrightarrow> read_bytes mem' (used_ring_addr q + 2) 2 = Ok (le_bytes 2 (last_used_idx q'))) \<and>
    (rings_apart q \<and> buffers_apart mem q \<and> pending_entries q avail \<le> unat (q_size q) \<longrightarrow>
      (\<exists>ms ds. ms 0 = mem \<and> ds 0 = dev \<and> ds (pending_entries q avail) = dev' \<and>
        (\<forall>k < pending_entries q avail. \<exists>h m1 s w m2. read_avail_entry BlockMemory mem (advance_by k q) = Ok h \<and>
           process_one_request (ms k) (ds k) (advance_by k q) h = (m1, ds (Suc k), s, w) \<and>
           unchanged_on (- used_slot (advance_by k q)) m1 m2 \<and>
           write_status_for_chain m2 (advance_by (Suc k) q) h s = (ms (Suc k), Ok ()) \<and>
           read_bytes mem' (used_entry_addr (advance_by k q)) 8 = Ok (used_entry h w))))"
proof -
  obtain m1 where lp: "block_queue_loop mem dev q avail False = (m1, dev', q', Ok processed)"
      and wr: "if processed then write_used_idx BlockMemory m1 q' = (mem', Ok ()) else mem' = m1"
    using assms by (auto simp: process_queue_def split: result.splits if_splits prod.splits)
  note fin = block_queue_loop_done [OF lp]
  have "mem_wf m1" using block_queue_loop_effect [OF lp] assms(1) by (rule block_effect_mem_wf)
  then have pub: "processed \<longrightarrow> read_bytes mem' (used_ring_addr q + 2) 2 = Ok (le_bytes 2 (last_used_idx q'))"
    using write_used_idx_read fin(4) wr by metis
  have used: "last_used_idx q' - last_used_idx q = avail - last_avail_idx q"
    using fin(1,2) by (simp add: algebra_simps)
  show ?thesis using block_pass_entries [OF lp wr assms(1,3)] pub used fin(1,3) by (intro conjI impI) simp_all
qed

lemma demo_apart: "rings_apart demo_queue" "buffers_apart (demo_mem req head) demo_queue"
proof -
  show "rings_apart demo_queue"
    by (auto simp: rings_apart_def used_area_def desc_area_def avail_area_def area_def demo_queue_def)
  let ?rd = "read_desc (\<lambda>_. ()) (\<lambda>_. ()) (demo_mem req head) demo_queue"
  have 0: "?rd 0 = Ok \<lparr>d_addr = 64, d_len = 16, d_flags = 1, d_next = 1\<rparr>"
    and 1: "?rd 1 = Ok \<lparr>d_addr = 80, d_len = 1, d_flags = 2, d_next = 0\<rparr>"
    by (simp_all add: read_desc_def read_bytes_eq valid_range_def demo_queue_def demo_mem_def slice_def desc_bytes_def parse_desc_def
        word_le_nat_alt)
  have "i = 0 \<or> i = 1" if "?rd i = Ok d" for i d
  proof -
    have "unat i < 2" using read_desc_Ok_index [OF that] by (simp add: demo_queue_def word_less_nat_alt)
    then have "unat i = 0 \<or> unat i = 1" by linarith
    then show ?thesis by (simp add: word_unat_eq_iff)
  qed
  with 0 1 show "buffers_apart (demo_mem req head) demo_queue" unfolding buffers_apart_def
    by (fastforce simp: area_def used_area_def desc_area_def avail_area_def demo_queue_def)
qed

theorem block_pass_drains_queue_witness:
  "\<exists>mem' dev' q'. process_queue (demo_mem 4 0) (demo_block False) demo_queue = (mem', dev', q', Ok True) \<and>
     last_avail_idx q' = 1 \<and> read_bytes mem' 42 2 = Ok (le_bytes 2 (last_used_idx q')) \<and>
     read_bytes mem' 44 8 = Ok (used_entry 0 1)"
proof -
  have av: "read_avail_idx BlockMemory (demo_mem 4 0) demo_queue = Ok 1" by code_simp
  have ok: "snd (snd (snd (process_queue (demo_mem 4 0) (demo_block False) demo_queue))) = Ok True"
    by code_simp
  then obtain m d q where pq: "process_queue (demo_mem 4 0) (demo_block False) demo_queue = (m, d, q, Ok True)"
    by (metis prod.collapse)
  have rq: "q_ready demo_queue" "q_size demo_queue \<noteq> 0" by (simp_all add: demo_queue_def)
  have n: "pending_entries demo_queue 1 = 1" "1 \<le> unat (q_size demo_queue)"
    by (simp_all add: pending_entries_def demo_queue_def virt_queue_new_def)
  note th = block_pass_drains_queue [OF demo_mem_wf rq av pq, unfolded n(1)]
  obtain h m1 s w d1 where e: "read_avail_entry BlockMemory (demo_mem 4 0) demo_queue = Ok h"
      "process_one_request (demo_mem 4 0) (demo_block False) demo_queue h = (m1, d1, s, w)"
      "read_bytes m (used_entry_addr demo_queue) 8 = Ok (used_entry h w)"
    using th demo_apart n(2) by auto
  have "read_avail_entry BlockMemory (demo_mem 4 0) demo_queue = Ok 0" by code_simp
  moreover have "snd (snd (snd (process_one_request (demo_mem 4 0) (demo_block False) demo_queue 0))) = 1" by code_simp
  moreover have "used_entry_addr demo_queue = 44" by code_simp
  moreover have "used_ring_addr demo_queue + 2 = 42" by (simp add: demo_queue_def)
  ultimately show ?thesis using th pq e by auto
qed

section \<open>Descriptor walks\<close>

lemma walk_chain_length:
  "walk_chain mem q i v chain = Ok chain' \<Longrightarrow> length chain = v \<Longrightarrow> length chain' \<le> unat (q_size q)"
proof (induction mem q i v chain rule: walk_chain.induct)
  case (1 mem q i v chain)
  then show ?case
    by (auto simp: walk_chain.simps [of mem q i v chain] split: result.splits if_splits)
qed

lemma walk_chain_all_next:
  assumes "\<And>j d. block_read_desc mem q j = Ok d \<Longrightarrow> has_next d"
  shows "\<exists>e. walk_chain mem q i v chain = Err e"
  using assms
proof (induction mem q i v chain rule: walk_chain.induct)
  case (1 mem q i v chain)
  then show ?case
    by (auto simp: walk_chain.simps [of mem q i v chain] split: result.splits)
qed

text \<open>
  Descriptor chains built by the guest cannot make the device loop or allocate without
  bound: an accepted chain has at most as many descriptors as the queue, and a table in
  which every descriptor links to another (so that every chain is a cycle) is refused.
\<close>

lemma block_chain_bounded:
  "(\<forall>chain. walk_chain mem q i 0 [] = Ok chain \<longrightarrow> length chain \<le> unat (q_size q)) \<and>
   ((\<forall>j d. block_read_desc mem q j = Ok d \<longrightarrow> has_next d) \<longrightarrow> (\<exists>e. walk_chain mem q i 0 [] = Err e))"
  using walk_chain_length [of mem q i 0 "[]"] walk_chain_all_next [of mem q i 0 "[]"] by simp

lemma cyclic_table_reads:
  "block_read_desc \<lparr>gm_bytes = desc_bytes \<lparr>d_addr = 0, d_len = 1, d_flags = 1, d_next = 0\<rparr>,
      gm_size = 16, guest_base = 0, huge_pages = False\<rparr> (demo_queue\<lparr>q_size := 1\<rparr>) j = Ok d \<Longrightarrow>
   d = \<lparr>d_addr = 0, d_len = 1, d_flags = 1, d_next = 0\<rparr>"
  by (auto simp: read_desc_def read_bytes_eq valid_range_def demo_queue_def
      slice_def desc_bytes_def parse_desc_def word_less_1 split: if_splits)

section \<open>Data written is data read\<close>

lemma file_write_all_data:
  assumes "file_write_all bs f = (f', Ok ())"
  shows "df_pos f' = df_pos f + length bs \<and> df_fault f' = df_fault f \<and> df_writable f' = df_writable f \<and>
    (bs \<noteq> [] \<longrightarrow> df_data f' = take (df_pos f) (grow_to (df_pos f) (df_data f)) @ bs @ drop (df_pos f + length bs) (df_data f))"
  using assms
  by (auto simp: file_write_all_def splice_at_def grow_to_def split: if_splits)

lemma min_grow_to [simp]: "min (length (grow_to p xs)) p = p"
  by (simp add: grow_to_def)

lemma length_grown_prefix: "length (take p (grow_to p xs)) = p"
  by (simp add: grow_to_def)

lemma write_after_write:
  assumes "length P = p"
  shows "take (p + length b) (grow_to (p + length b) (P @ b @ drop (p + length b) x)) @ bs @
      drop (p + length b + length bs) (P @ b @ drop (p + length b) x) =
    P @ (b @ bs) @ drop (p + length (b @ bs)) x"
  using assms by (simp add: grow_to_def add.commute add.left_commute)

text \<open>The bytes the guest hands over in a list of device-readable descriptors.\<close>

fun gather :: "guest_memory \<Rightarrow> virtq_desc list \<Rightarrow> (u8 list, memory_error) result" where
  "gather mem [] = Ok []"
| "gather mem (d # ds) =
     (case read_bytes mem (d_addr d) (unat (d_len d)) of
        Err e \<Rightarrow> Err e
      | Ok b \<Rightarrow> (case gather mem ds of Err e \<Rightarrow> Err e | Ok bs \<Rightarrow> Ok (b @ bs)))"

lemma handle_write_descs_data:
  "handle_write_descs ds mem f = (f', Ok VIRTIO_BLK_S_OK) \<Longrightarrow>
   \<exists>bs. gather mem ds = Ok bs \<and> df_fault f' = df_fault f \<and>
     (bs \<noteq> [] \<longrightarrow> df_data f' =
        take (df_pos f) (grow_to (df_pos f) (df_data f)) @ bs @ drop (df_pos f + length bs) (df_data f)) \<and>
     (bs = [] \<longrightarrow> df_data f' = df_data f)"
proof (induction ds arbitrary: f)
  case Nil
  then show ?case by simp
next
  case (Cons d ds)
  obtain b where b: "read_bytes mem (d_addr d) (unat (d_len d)) = Ok b" "\<not> is_write_only d"
    using Cons.prems by (auto split: if_splits result.splits)
  obtain f1 r1 where w: "file_write_all b f = (f1, r1)" by fastforce
  with Cons.prems b have r1: "r1 = Ok ()" and rest: "handle_write_descs ds mem f1 = (f', Ok VIRTIO_BLK_S_OK)"
    by (auto split: result.splits)
  note f1 = file_write_all_data [OF w [unfolded r1]]
  from Cons.IH [OF rest] obtain bs where bs: "gather mem ds = Ok bs" "df_fault f' = df_fault f1"
    "bs \<noteq> [] \<longrightarrow> df_data f' = take (df_pos f1) (grow_to (df_pos f1) (df_data f1)) @ bs @ drop (df_pos f1 + length bs) (df_data f1)"
    "bs = [] \<longrightarrow> df_data f' = df_data f1" by blast
  show ?case
  proof (cases "b = []")
    case True
    with w r1 have "f1 = f" by (simp add: file_write_all_def)
    with True bs b show ?thesis by simp
  next
    case False
    then have d1: "df_data f1 = take (df_pos f) (grow_to (df_pos f) (df_data f)) @ b @ drop (df_pos f + length b) (df_data f)"
      using f1 by simp
    then have "bs \<noteq> [] \<longrightarrow> df_data f' = take (df_pos f) (grow_to (df_pos f) (df_data f)) @ (b @ bs) @
        drop (df_pos f + length (b @ bs)) (df_data f)"
      using bs(3) f1 write_after_write [OF length_grown_prefix, of "df_pos f" b "df_data f" "df_data f" bs]
      by simp
    with bs b False d1 f1 show ?thesis by (cases "bs = []") auto
  qed
qed

text \<open>
  C2. What the guest writes to a sector is what it reads back: after a successful write
  request whose data buffers hold the (non-empty) bytes \<open>bs\<close>, a read request of the same
  length at the same sector into a valid device-writable buffer succeeds, reports the
  length, and leaves \<open>bs\<close> in that buffer.
\<close>

theorem block_write_read_roundtrip:
  assumes "handle_write mem dev ds sector = (dev', Ok VIRTIO_BLK_S_OK)"
    and "gather mem ds = Ok bs" and "bs \<noteq> []"
    and "mem_wf mem2" and "is_write_only d" and "unat (d_len d) = length bs"
    and "valid_range mem2 (d_addr d) (length bs)"
  shows "\<exists>mem3 dev''. handle_read mem2 dev' [d] sector 0 = (mem3, dev'', d_len d, Ok VIRTIO_BLK_S_OK) \<and>
    read_bytes mem3 (d_addr d) (length bs) = Ok bs"
proof -
  let ?off = "unat (sector * SECTOR_SIZE)"
  let ?f = "(disk_file_of dev)\<lparr>df_pos := ?off\<rparr>"
  from assms(1) have ok: "\<not> df_fault (disk_file_of dev)" "\<not> sector * SECTOR_SIZE \<ge> 0x8000000000000000"
    "handle_write_descs ds mem ?f = (disk_file_of dev', Ok VIRTIO_BLK_S_OK)"
    by (auto simp: handle_write_def file_seek_start_def split: if_splits prod.splits)
  from handle_write_descs_data [OF ok(3)] assms(2,3) ok(1)
  have data: "df_data (disk_file_of dev') =
      take ?off (grow_to ?off (df_data (disk_file_of dev))) @ bs @ drop (?off + length bs) (df_data (disk_file_of dev))"
    and nf: "\<not> df_fault (disk_file_of dev')" by auto
  have sl: "slice ?off (length bs) (df_data (disk_file_of dev')) = bs"
    and ln: "?off + length bs \<le> length (df_data (disk_file_of dev'))"
    by (simp_all add: data slice_def)
  obtain mem3 where w: "write_bytes mem2 (d_addr d) bs = Ok mem3"
    using ram.wr_valid_ok assms(7) by blast
  with ok nf sl ln assms(3,5,6) have
    "handle_read mem2 dev' [d] sector 0 =
       (mem3, dev'\<lparr>disk_file_of := (disk_file_of dev')\<lparr>df_pos := ?off + length bs\<rparr>\<rparr>, d_len d, Ok VIRTIO_BLK_S_OK)"
    by (simp add: handle_read_def file_seek_start_def file_read_exact_def)
  moreover have "read_bytes mem3 (d_addr d) (length bs) = Ok bs"
    using ram.rd_wr_same [OF assms(4) w] .
  ultimately show ?thesis by blast
qed

definition demo_out :: virtq_desc where
  "demo_out = \<lparr>d_addr = 64, d_len = 4, d_flags = 0, d_next = 0\<rparr>"

definition demo_in :: virtq_desc where
  "demo_in = \<lparr>d_addr = 72, d_len = 4, d_flags = 2, d_next = 0\<rparr>"

theorem block_write_read_roundtrip_witness:
  "\<exists>dev' mem3 dev''. handle_write (demo_mem 9 0) (demo_block False) [demo_out] 0 = (dev', Ok VIRTIO_BLK_S_OK) \<and>
     handle_read (demo_mem 9 0) dev' [demo_in] 0 0 = (mem3, dev'', 4, Ok VIRTIO_BLK_S_OK) \<and>
     read_bytes mem3 72 4 = Ok [9, 0, 0, 0]"
proof -
  obtain dev' r where w: "handle_write (demo_mem 9 0) (demo_block False) [demo_out] 0 = (dev', r)"
    by fastforce
  have "snd (handle_write (demo_mem 9 0) (demo_block False) [demo_out] 0) = Ok VIRTIO_BLK_S_OK"
    by code_simp
  with w have w': "handle_write (demo_mem 9 0) (demo_block False) [demo_out] 0 = (dev', Ok VIRTIO_BLK_S_OK)"
    by simp
  have g: "gather (demo_mem 9 0) [demo_out] = Ok [9, 0, 0, 0]" by code_simp
  have d: "is_write_only demo_in" "unat (d_len demo_in) = length [9 :: u8, 0, 0, 0]"
    "valid_range (demo_mem 9 0) (d_addr demo_in) (length [9 :: u8, 0, 0, 0])"
    by (simp_all add: demo_in_def is_write_only_def valid_range_def demo_mem_def)
  from block_write_read_roundtrip [OF w' g _ demo_mem_wf d] obtain mem3 dev'' where
    h: "handle_read (demo_mem 9 0) dev' [demo_in] 0 0 = (mem3, dev'', d_len demo_in, Ok VIRTIO_BLK_S_OK)"
    "read_bytes mem3 (d_addr demo_in) (length [9 :: u8, 0, 0, 0]) = Ok [9, 0, 0, 0]"
    by auto
  then have "read_bytes mem3 72 4 = Ok [9, 0, 0, 0]" "d_len demo_in = 4"
    by (simp_all add: demo_in_def eval_nat_numeral)
  with w' h(1) show ?thesis by auto
qed

section \<open>Read-only disks\<close>

text \<open>
  A device opened read-only never changes its backing file, whatever requests the guest
  queues and however malformed they are; the guest's write requests complete with an error
  status.
\<close>

lemma block_read_only_disk_unchanged:
  assumes "read_only dev"
  shows "(process_queue mem dev q = (mem', dev', q', r) \<longrightarrow>
      df_data (disk_file_of dev') = df_data (disk_file_of dev) \<and> read_only dev') \<and>
    handle_write mem dev ds sector = (dev, Ok VIRTIO_BLK_S_IOERR)"
proof -
  have "df_data (disk_file_of dev') = df_data (disk_file_of dev) \<and> read_only dev'"
    if pq: "process_queue mem dev q = (mem', dev', q', r)"
    by (rule block_effectE [OF process_queue_effect [OF pq]]) (use assms in simp)
  then show ?thesis using assms by (simp add: handle_write_def)
qed

section \<open>Requests beyond the advertised capacity\<close>

text \<open>
  The device does not compare the sector of a write request with the capacity it
  advertises: a write whose byte offset fits a file offset succeeds for every
  \<open>num_sectors\<close>, and the backing file grows to the end of the written range when that
  range lies beyond the current end.
\<close>

lemma block_write_ignores_capacity:
  assumes "\<not> read_only dev" and "df_writable (disk_file_of dev)" and "\<not> df_fault (disk_file_of dev)"
    and "sector * SECTOR_SIZE < 0x8000000000000000"
    and "\<not> is_write_only d" and "read_bytes mem (d_addr d) (unat (d_len d)) = Ok bs" and "bs \<noteq> []"
  shows "\<exists>dev'. handle_write mem (dev\<lparr>num_sectors := n\<rparr>) [d] sector = (dev', Ok VIRTIO_BLK_S_OK) \<and>
    length (df_data (disk_file_of dev')) =
      max (length (df_data (disk_file_of dev))) (unat (sector * SECTOR_SIZE) + length bs)"
  using assms
  by (auto simp: handle_write_def file_seek_start_def file_write_all_def grow_to_def splice_at_def)

section \<open>Malformed requests\<close>

text \<open>
  A request whose head index lies outside the queue aborts the whole pass: the used
  entry is written and both indices advance, but the pass returns an error before it looks
  at any later request, and the transport is told that nothing was processed, so the used
  index is not published and no interrupt follows.
\<close>

lemma block_bad_head_aborts_pass:
  assumes "q_ready q" and "q_size q \<noteq> 0" and "read_avail_idx BlockMemory mem q = Ok avail"
    and "last_avail_idx q \<noteq> avail" and "read_avail_entry BlockMemory mem q = Ok head"
    and "head \<ge> q_size q" and "write_used_entry BlockMemory mem q head 0 = (mem', Ok ())"
  shows "process_queue mem dev q =
      (mem', dev, advance q, Err (BlockInvalidDescriptor (IndexOutOfQueue head (q_size q)))) \<and>
    (bd_queues dev = [q] \<longrightarrow>
      snd (snd (block_trait_process_queue 0 mem dev)) = Ok False)"
proof -
  have rd: "block_read_desc m q head = Err (BlockInvalidDescriptor (IndexOutOfQueue head (q_size q)))" for m
    using assms(6) by (simp add: read_desc_def)
  have "block_queue_step mem dev q =
      (mem', dev, advance q, Some (BlockInvalidDescriptor (IndexOutOfQueue head (q_size q))))"
    using assms
    by (simp add: block_queue_step_def process_one_request_def process_one_request_inner_def rd
        write_status_for_chain_def write_status_walk.simps)
  with assms have "process_queue mem dev q =
      (mem', dev, advance q, Err (BlockInvalidDescriptor (IndexOutOfQueue head (q_size q))))"
    by (simp add: process_queue_def block_queue_loop.simps)
  then show ?thesis by (simp add: block_trait_process_queue_def)
qed

end
