(* ===== verification/Mmio_Transport.thy ===== *)
theory Mmio_Transport
  imports Virtio_Device
begin

text \<open>
  The virtio MMIO transport, \<^verbatim>\<open>src/crates/visor-vmm/src/transport/mmio.rs\<close>: the register
  file the guest driver programs, the device status state machine, and the dispatch of
  queue notifications to the device behind it. The transport is defined over the trait
  methods \<open>ops\<close> of an arbitrary device. Lemmas that need the contract of the device are
  proved in the locale \<open>mmio_backend\<close>, which extends \<open>virtio_device\<close>.

  The interrupt line is host state outside the crate: the transport either has an
  \<open>irq_evt\<close> and a deassert callback or not, and \<open>mt_irq_trace\<close> records the calls it makes.
\<close>

section \<open>State\<close>

abbreviation (input) MMIO_MAGIC :: u32 where "MMIO_MAGIC \<equiv> 0x74726976"
abbreviation (input) MMIO_VERSION :: u32 where "MMIO_VERSION \<equiv> 2"
abbreviation (input) VENDOR_ID :: u32 where "VENDOR_ID \<equiv> 0"
abbreviation (input) VIRTIO_MMIO_INT_VRING :: u32 where "VIRTIO_MMIO_INT_VRING \<equiv> 1"
abbreviation (input) DEVICE_STATUS_INIT :: u32 where "DEVICE_STATUS_INIT \<equiv> 0"
abbreviation (input) DEVICE_STATUS_ACKNOWLEDGE :: u32 where "DEVICE_STATUS_ACKNOWLEDGE \<equiv> 1"
abbreviation (input) DEVICE_STATUS_DRIVER :: u32 where "DEVICE_STATUS_DRIVER \<equiv> 2"
abbreviation (input) DEVICE_STATUS_DRIVER_OK :: u32 where "DEVICE_STATUS_DRIVER_OK \<equiv> 4"
abbreviation (input) DEVICE_STATUS_FEATURES_OK :: u32 where "DEVICE_STATUS_FEATURES_OK \<equiv> 8"
abbreviation (input) DEVICE_STATUS_FAILED :: u32 where "DEVICE_STATUS_FAILED \<equiv> 128"

datatype irq_action = IrqTrigger | IrqDeassert

record 'd mmio_transport =
  mt_device :: "'d mutex"
  mt_features_select :: u32
  mt_acked_features_select :: u32
  mt_queue_select :: u32
  mt_device_status :: u32
  mt_config_generation :: u32
  mt_interrupt_status :: u32
  mt_memory :: "guest_memory option"
  mt_irq_evt :: bool
  mt_irq_deassert :: bool
  mt_irq_trace :: "irq_action list"

definition mmio_new :: "'d mutex \<Rightarrow> 'd mmio_transport" where
  "mmio_new dev = \<lparr>mt_device = dev, mt_features_select = 0, mt_acked_features_select = 0,
     mt_queue_select = 0, mt_device_status = DEVICE_STATUS_INIT, mt_config_generation = 0,
     mt_interrupt_status = 0, mt_memory = None, mt_irq_evt = False, mt_irq_deassert = False,
     mt_irq_trace = []\<rparr>"

definition mmio_trigger_interrupt :: "u32 \<Rightarrow> 'd mmio_transport \<Rightarrow> 'd mmio_transport" where
  "mmio_trigger_interrupt flags t = t\<lparr>mt_interrupt_status := mt_interrupt_status t OR flags\<rparr>"

definition mmio_set_memory :: "guest_memory \<Rightarrow> 'd mmio_transport \<Rightarrow> 'd mmio_transport" where
  "mmio_set_memory m t = t\<lparr>mt_memory := Some m\<rparr>"

definition mmio_set_irq_evt :: "'d mmio_transport \<Rightarrow> 'd mmio_transport" where
  "mmio_set_irq_evt t = t\<lparr>mt_irq_evt := True\<rparr>"

definition mmio_set_irq_deassert :: "'d mmio_transport \<Rightarrow> 'd mmio_transport" where
  "mmio_set_irq_deassert t = t\<lparr>mt_irq_deassert := True\<rparr>"

section \<open>Operations\<close>

text \<open>Both callers of \<open>process_queue\<close> raise the vring interrupt the same way.\<close>

definition mmio_signal_vring :: "'d mmio_transport \<Rightarrow> 'd mmio_transport" where
  "mmio_signal_vring t =
     (let t1 = t\<lparr>mt_interrupt_status := mt_interrupt_status t OR VIRTIO_MMIO_INT_VRING\<rparr>
      in if mt_irq_evt t1 then t1\<lparr>mt_irq_trace := mt_irq_trace t1 @ [IrqTrigger]\<rparr> else t1)"

definition process_external_queue ::
  "'d virtio_ops \<Rightarrow> nat \<Rightarrow> 'd mmio_transport \<Rightarrow> 'd mmio_transport \<times> bool" where
  "process_external_queue ops queue_idx t =
     (case mt_memory t of None \<Rightarrow> (t, False)
      | Some memory \<Rightarrow> (case lock (mt_device t) of None \<Rightarrow> (t, False)
        | Some locked \<Rightarrow>
            if \<not> vd_is_activated ops locked then (t, False)
            else (case vd_process_queue ops queue_idx memory locked of
              (dev', mem', r) \<Rightarrow>
                let t1 = t\<lparr>mt_device := Healthy dev', mt_memory := Some mem'\<rparr>
                in if unwrap_or r False then (mmio_signal_vring t1, True) else (t1, False))))"

definition check_status :: "'d mmio_transport \<Rightarrow> u32 \<Rightarrow> u32 \<Rightarrow> bool" where
  "check_status t required forbidden \<longleftrightarrow>
     mt_device_status t AND (required OR forbidden) = required"

definition with_queue ::
  "'d virtio_ops \<Rightarrow> 'd mmio_transport \<Rightarrow> 'u \<Rightarrow> (virt_queue \<Rightarrow> 'u) \<Rightarrow> 'u" where
  "with_queue ops t dflt f =
     (case lock (mt_device t) of None \<Rightarrow> dflt
      | Some locked \<Rightarrow>
          (let qs = vd_queues ops locked; i = unat (mt_queue_select t)
           in if i < length qs then f (qs ! i) else dflt))"

definition update_queue_field ::
  "'d virtio_ops \<Rightarrow> (virt_queue \<Rightarrow> virt_queue) \<Rightarrow> 'd mmio_transport \<Rightarrow> 'd mmio_transport" where
  "update_queue_field ops f t =
     (if \<not> check_status t DEVICE_STATUS_FEATURES_OK (DEVICE_STATUS_DRIVER_OK OR DEVICE_STATUS_FAILED)
      then t
      else case lock (mt_device t) of None \<Rightarrow> t
        | Some locked \<Rightarrow>
            (let i = unat (mt_queue_select t)
             in if i < length (vd_queues ops locked)
                then t\<lparr>mt_device := Healthy (vd_update_queues ops (\<lambda>qs. qs[i := f (qs ! i)]) locked)\<rparr>
                else t))"

definition mmio_reset :: "'d virtio_ops \<Rightarrow> 'd mmio_transport \<Rightarrow> 'd mmio_transport" where
  "mmio_reset ops t =
     (let t1 = t\<lparr>mt_features_select := 0, mt_acked_features_select := 0, mt_queue_select := 0,
                 mt_device_status := DEVICE_STATUS_INIT, mt_interrupt_status := 0\<rparr>
      in case lock (mt_device t1) of None \<Rightarrow> t1
         | Some locked \<Rightarrow>
             t1\<lparr>mt_device := Healthy (vd_update_queues ops (map virt_queue_reset) (vd_reset ops locked))\<rparr>)"

text \<open>
  Reaching \<open>DRIVER_OK\<close> activates the device once. The second component says whether the
  receive queue of a vsock device has to be drained afterwards (\<open>kick_vsock_rx\<close>).
\<close>

definition mmio_activate ::
  "'d virtio_ops \<Rightarrow> device_type option \<Rightarrow> 'd mmio_transport \<Rightarrow> 'd mmio_transport \<times> bool" where
  "mmio_activate ops device_kind t =
     (case lock (mt_device t) of None \<Rightarrow> (t, False)
      | Some locked \<Rightarrow>
          if vd_is_activated ops locked then (t, False)
          else (case vd_activate ops locked of
              (dev', Err e) \<Rightarrow>
                (t\<lparr>mt_device := Healthy dev',
                   mt_device_status := mt_device_status t OR DEVICE_STATUS_FAILED\<rparr>, False)
            | (dev', Ok _) \<Rightarrow> (t\<lparr>mt_device := Healthy dev'\<rparr>, device_kind = Some Vsock)))"

definition set_device_status ::
  "'d virtio_ops \<Rightarrow> u32 \<Rightarrow> 'd mmio_transport \<Rightarrow> 'd mmio_transport" where
  "set_device_status ops status t =
     (let device_kind = map_option (vd_device_type ops) (lock (mt_device t));
          cur = mt_device_status t;
          changed = NOT cur AND status
      in if status = 0 then mmio_reset ops t
         else if status AND DEVICE_STATUS_FAILED \<noteq> 0
         then t\<lparr>mt_device_status := cur OR DEVICE_STATUS_FAILED\<rparr>
         else if changed = DEVICE_STATUS_ACKNOWLEDGE \<and> cur = DEVICE_STATUS_INIT
         then t\<lparr>mt_device_status := status\<rparr>
         else if changed = DEVICE_STATUS_DRIVER \<and> cur = DEVICE_STATUS_ACKNOWLEDGE
         then t\<lparr>mt_device_status := status\<rparr>
         else if changed = DEVICE_STATUS_FEATURES_OK
                 \<and> cur = (DEVICE_STATUS_ACKNOWLEDGE OR DEVICE_STATUS_DRIVER)
         then t\<lparr>mt_device_status := status\<rparr>
         else if changed = DEVICE_STATUS_DRIVER_OK
                 \<and> cur = (DEVICE_STATUS_ACKNOWLEDGE OR DEVICE_STATUS_DRIVER OR DEVICE_STATUS_FEATURES_OK)
         then (case mmio_activate ops device_kind (t\<lparr>mt_device_status := status\<rparr>) of
             (t1, kick_vsock_rx) \<Rightarrow>
               if kick_vsock_rx then fst (process_external_queue ops 0 t1) else t1)
         else t)"

definition read_register :: "'d virtio_ops \<Rightarrow> 'd mmio_transport \<Rightarrow> u64 \<Rightarrow> u32" where
  "read_register ops t offset =
     (if offset = 0x00 then MMIO_MAGIC
      else if offset = 0x04 then MMIO_VERSION
      else if offset = 0x08 then
        (case lock (mt_device t) of None \<Rightarrow> 0
         | Some locked \<Rightarrow> device_type_id (vd_device_type ops locked))
      else if offset = 0x0C then VENDOR_ID
      else if offset = 0x10 then
        (case lock (mt_device t) of None \<Rightarrow> 0
         | Some locked \<Rightarrow>
             (let features = vd_avail_features ops locked
              in if mt_features_select t = 0 then ucast (features AND 0xFFFFFFFF)
                 else if mt_features_select t = 1 then ucast (drop_bit 32 features)
                 else 0))
      else if offset = 0x34 then with_queue ops t 0 (\<lambda>q. ucast (max_size q))
      else if offset = 0x44 then with_queue ops t 0 (\<lambda>q. if q_ready q then 1 else 0)
      else if offset = 0x60 then mt_interrupt_status t
      else if offset = 0x70 then mt_device_status t
      else if offset = 0xFC then mt_config_generation t
      else 0)"

text \<open>The two halves of a 64-bit ring address are programmed by separate 32-bit writes.\<close>

definition set_lo32 :: "u32 \<Rightarrow> u64 \<Rightarrow> u64" where
  "set_lo32 v a = (a AND NOT 0xFFFFFFFF) OR ucast v"

definition set_hi32 :: "u32 \<Rightarrow> u64 \<Rightarrow> u64" where
  "set_hi32 v a = (a AND 0xFFFFFFFF) OR push_bit 32 (ucast v)"

definition mmio_driver_features ::
  "'d virtio_ops \<Rightarrow> u32 \<Rightarrow> 'd mmio_transport \<Rightarrow> 'd mmio_transport" where
  "mmio_driver_features ops val t =
     (case lock (mt_device t) of None \<Rightarrow> t
      | Some locked \<Rightarrow>
          if mt_acked_features_select t \<noteq> 0 \<and> mt_acked_features_select t \<noteq> 1 then t
          else (let page_features = (if mt_acked_features_select t = 0 then ucast val
                                     else push_bit 32 (ucast val));
                    available = vd_avail_features ops locked;
                    already_acked = vd_acked_features ops locked;
                    new_acked = already_acked OR (page_features AND available)
                in t\<lparr>mt_device := Healthy (vd_set_acked_features ops new_acked locked)\<rparr>))"

definition mmio_queue_notify ::
  "'d virtio_ops \<Rightarrow> u32 \<Rightarrow> 'd mmio_transport \<Rightarrow> 'd mmio_transport" where
  "mmio_queue_notify ops val t =
     (case mt_memory t of None \<Rightarrow> t
      | Some memory \<Rightarrow> (case lock (mt_device t) of None \<Rightarrow> t
        | Some locked \<Rightarrow> (case vd_process_queue ops (unat val) memory locked of
            (dev', mem', r) \<Rightarrow>
              let t1 = t\<lparr>mt_device := Healthy dev', mt_memory := Some mem'\<rparr>
              in if unwrap_or r False then mmio_signal_vring t1 else t1)))"

definition mmio_interrupt_ack :: "u32 \<Rightarrow> 'd mmio_transport \<Rightarrow> 'd mmio_transport" where
  "mmio_interrupt_ack val t =
     (let prev = mt_interrupt_status t;
          t1 = t\<lparr>mt_interrupt_status := prev AND NOT val\<rparr>
      in if prev AND NOT val = 0 \<and> mt_irq_deassert t1
         then t1\<lparr>mt_irq_trace := mt_irq_trace t1 @ [IrqDeassert]\<rparr> else t1)"

definition write_register ::
  "'d virtio_ops \<Rightarrow> u64 \<Rightarrow> u32 \<Rightarrow> 'd mmio_transport \<Rightarrow> 'd mmio_transport" where
  "write_register ops offset val t =
     (if offset = 0x14 then t\<lparr>mt_features_select := val\<rparr>
      else if offset = 0x20 \<and> check_status t DEVICE_STATUS_DRIVER DEVICE_STATUS_FEATURES_OK
      then mmio_driver_features ops val t
      else if offset = 0x24 then t\<lparr>mt_acked_features_select := val\<rparr>
      else if offset = 0x30 then t\<lparr>mt_queue_select := val\<rparr>
      else if offset = 0x38 then update_queue_field ops (\<lambda>q. q\<lparr>q_size := ucast (val AND 0xFFFF)\<rparr>) t
      else if offset = 0x44 then update_queue_field ops (\<lambda>q. q\<lparr>q_ready := (val = 1)\<rparr>) t
      else if offset = 0x50 then mmio_queue_notify ops val t
      else if offset = 0x64 \<and> check_status t DEVICE_STATUS_DRIVER_OK 0
      then mmio_interrupt_ack val t
      else if offset = 0x70 then set_device_status ops val t
      else if offset = 0x80
      then update_queue_field ops (\<lambda>q. q\<lparr>desc_table_addr := set_lo32 val (desc_table_addr q)\<rparr>) t
      else if offset = 0x84
      then update_queue_field ops (\<lambda>q. q\<lparr>desc_table_addr := set_hi32 val (desc_table_addr q)\<rparr>) t
      else if offset = 0x90
      then update_queue_field ops (\<lambda>q. q\<lparr>avail_ring_addr := set_lo32 val (avail_ring_addr q)\<rparr>) t
      else if offset = 0x94
      then update_queue_field ops (\<lambda>q. q\<lparr>avail_ring_addr := set_hi32 val (avail_ring_addr q)\<rparr>) t
      else if offset = 0xA0
      then update_queue_field ops (\<lambda>q. q\<lparr>used_ring_addr := set_lo32 val (used_ring_addr q)\<rparr>) t
      else if offset = 0xA4
      then update_queue_field ops (\<lambda>q. q\<lparr>used_ring_addr := set_hi32 val (used_ring_addr q)\<rparr>) t
      else t)"

definition mmio_read ::
  "'d virtio_ops \<Rightarrow> u64 \<Rightarrow> u8 list \<Rightarrow> 'd mmio_transport \<Rightarrow> u8 list" where
  "mmio_read ops offset data t =
     (if offset \<le> 0xFF \<and> length data = 4 then le_bytes 4 (read_register ops t offset)
      else if 0x100 \<le> offset \<and> offset \<le> 0xFFF then
        (case lock (mt_device t) of None \<Rightarrow> data
         | Some locked \<Rightarrow> vd_read_config ops locked (offset - 0x100) data)
      else data)"

definition mmio_write ::
  "'d virtio_ops \<Rightarrow> u64 \<Rightarrow> u8 list \<Rightarrow> 'd mmio_transport \<Rightarrow> 'd mmio_transport" where
  "mmio_write ops offset data t =
     (if offset \<le> 0xFF \<and> length data = 4 then write_register ops offset (le_word data) t
      else if 0x100 \<le> offset \<and> offset \<le> 0xFFF then
        (case lock (mt_device t) of None \<Rightarrow> t
         | Some locked \<Rightarrow> t\<lparr>mt_device := Healthy (vd_write_config ops (offset - 0x100) data locked)\<rparr>)
      else t)"

section \<open>Steps and reachable states\<close>

text \<open>
  What can happen to a transport while the machine runs: the vCPU exits with an MMIO write
  (reads change nothing), the run loop polls a queue, a backend raises interrupt bits, or
  the guest stores into its own memory.
\<close>

inductive mmio_step :: "'d virtio_ops \<Rightarrow> 'd mmio_transport \<Rightarrow> 'd mmio_transport \<Rightarrow> bool"
  for ops :: "'d virtio_ops" where
  guest_write: "mmio_step ops t (mmio_write ops offset data t)"
| external_queue: "mmio_step ops t (fst (process_external_queue ops i t))"
| raise_irq: "mmio_step ops t (mmio_trigger_interrupt flags t)"
| guest_store: "\<lbrakk>mt_memory t = Some m; mem_wf m'\<rbrakk> \<Longrightarrow> mmio_step ops t (t\<lparr>mt_memory := Some m'\<rparr>)"

inductive mmio_reach :: "'d virtio_ops \<Rightarrow> 'd mmio_transport \<Rightarrow> 'd mmio_transport \<Rightarrow> bool"
  for ops :: "'d virtio_ops" where
  start: "mmio_reach ops t t"
| more: "\<lbrakk>mmio_reach ops t u; mmio_step ops u v\<rbrakk> \<Longrightarrow> mmio_reach ops t v"

inductive_cases mmio_stepE: "mmio_step ops t t'"

lemma mmio_reach_invariant:
  assumes "mmio_reach ops t t'" "P t" "\<And>u v. \<lbrakk>P u; mmio_step ops u v\<rbrakk> \<Longrightarrow> P v"
  shows "P t'"
  using assms by (induction rule: mmio_reach.induct) auto

text \<open>The transport as the VMM wires it up: memory attached, the guest not yet started.\<close>

definition mmio_boot :: "'d \<Rightarrow> guest_memory \<Rightarrow> 'd mmio_transport" where
  "mmio_boot dev mem = mmio_set_irq_evt (mmio_set_memory mem (mmio_new (Healthy dev)))"

lemmas mmio_boot_defs = mmio_boot_def mmio_set_irq_evt_def mmio_set_memory_def mmio_new_def

text \<open>A status write that adds exactly the bits \<open>b\<close> to \<open>c\<close> may still drop bits of \<open>c\<close>.\<close>

lemma status_split:
  fixes s c b :: "'a::len word"
  assumes "NOT c AND s = b"
  shows "s = (s AND c) OR b"
  unfolding assms [symmetric] by (rule bit_word_eqI) (auto simp: bit_simps)

lemma and_not_eq_0_trans:
  fixes a b c :: "'a::len word"
  assumes "a AND NOT b = 0" "b AND NOT c = 0"
  shows "a AND NOT c = 0"
proof (rule bit_word_eqI)
  fix n assume "n < LENGTH('a)"
  then show "bit (a AND NOT c) n = bit (0 :: 'a word) n"
    using arg_cong [OF assms(1), of "\<lambda>w. bit w n"] arg_cong [OF assms(2), of "\<lambda>w. bit w n"]
    by (auto simp: bit_simps)
qed

definition status_wf :: "u32 \<Rightarrow> bool" where
  "status_wf s \<longleftrightarrow> s AND NOT 0x8F = 0"

lemma status_wf_added:
  assumes "NOT c AND s = b" "status_wf c" "status_wf b"
  shows "status_wf s"
proof -
  have "s AND NOT 0x8F = (s AND (c AND NOT 0x8F)) OR (b AND NOT 0x8F)"
    by (subst status_split [OF assms(1)]) (simp add: bit.conj_disj_distrib bit.conj_disj_distrib2 ac_simps)
  then show ?thesis using assms(2,3) by (simp add: status_wf_def)
qed

lemma status_added_bit:
  assumes "NOT c AND s = b"
  shows "s AND b = (b :: u32)"
  unfolding assms [symmetric] by (rule bit_word_eqI) (auto simp: bit_simps)

lemma check_status_driver_ok:
  "check_status t DEVICE_STATUS_FEATURES_OK (DEVICE_STATUS_DRIVER_OK OR DEVICE_STATUS_FAILED) \<Longrightarrow>
    mt_device_status t AND DEVICE_STATUS_DRIVER_OK = 0"
  unfolding check_status_def
  by (drule arg_cong [of _ _ "\<lambda>w. w AND 4"]) (simp add: and.assoc)

text \<open>
  The invariant: only offered features are acknowledged, only the defined status bits are
  ever set, and the device is live exactly when the driver reached \<open>DRIVER_OK\<close> without
  the device failing.
\<close>

definition mmio_inv :: "'d virtio_ops \<Rightarrow> 'd mmio_transport \<Rightarrow> bool" where
  "mmio_inv ops t \<longleftrightarrow>
     status_wf (mt_device_status t) \<and>
     (case mt_memory t of None \<Rightarrow> True | Some m \<Rightarrow> mem_wf m) \<and>
     (case mt_device t of Poisoned \<Rightarrow> True
      | Healthy d \<Rightarrow>
          vd_acked_features ops d AND NOT (vd_avail_features ops d) = 0 \<and>
          (vd_is_activated ops d \<longrightarrow> mt_device_status t AND DEVICE_STATUS_DRIVER_OK \<noteq> 0) \<and>
          (mt_device_status t AND DEVICE_STATUS_DRIVER_OK \<noteq> 0 \<longrightarrow>
             mt_device_status t AND DEVICE_STATUS_FAILED = 0 \<longrightarrow> vd_is_activated ops d))"

lemma signal_vring_frame [simp]:
  "mt_device (mmio_signal_vring t) = mt_device t"
  "mt_memory (mmio_signal_vring t) = mt_memory t"
  "mt_device_status (mmio_signal_vring t) = mt_device_status t"
  by (simp_all add: mmio_signal_vring_def Let_def)

lemma interrupt_ack_frame [simp]:
  "mt_device (mmio_interrupt_ack v t) = mt_device t"
  "mt_memory (mmio_interrupt_ack v t) = mt_memory t"
  "mt_device_status (mmio_interrupt_ack v t) = mt_device_status t"
  by (simp_all add: mmio_interrupt_ack_def Let_def)

lemma trigger_interrupt_frame [simp]:
  "mt_device (mmio_trigger_interrupt v t) = mt_device t"
  "mt_memory (mmio_trigger_interrupt v t) = mt_memory t"
  "mt_device_status (mmio_trigger_interrupt v t) = mt_device_status t"
  by (simp_all add: mmio_trigger_interrupt_def)

lemma update_queue_field_frame [simp]:
  "mt_memory (update_queue_field ops f t) = mt_memory t"
  "mt_device_status (update_queue_field ops f t) = mt_device_status t"
  by (simp_all add: update_queue_field_def Let_def split: option.splits)

lemma driver_features_frame [simp]:
  "mt_memory (mmio_driver_features ops v t) = mt_memory t"
  "mt_device_status (mmio_driver_features ops v t) = mt_device_status t"
  by (simp_all add: mmio_driver_features_def Let_def split: option.splits)

lemma mmio_inv_cong:
  assumes "mt_device t' = mt_device t" "mt_memory t' = mt_memory t"
    "mt_device_status t' = mt_device_status t"
  shows "mmio_inv ops t' = mmio_inv ops t"
  using assms by (simp add: mmio_inv_def split: mutex.splits)

lemma mmio_inv_device:
  assumes "mmio_inv ops t" "mt_device t = Healthy d"
    and "vd_acked_features ops d' AND NOT (vd_avail_features ops d') = 0"
    and "vd_is_activated ops d' = vd_is_activated ops d"
    and "\<And>m. mt_memory t = Some m \<Longrightarrow> mem_wf m \<Longrightarrow> case mm of None \<Rightarrow> True | Some m \<Rightarrow> mem_wf m"
    and "mt_memory t = None \<Longrightarrow> mm = None"
  shows "mmio_inv ops (t\<lparr>mt_device := Healthy d', mt_memory := mm\<rparr>)"
  using assms by (auto simp: mmio_inv_def split: option.splits)

section \<open>The driver side of the handshake\<close>

text \<open>
  The register writes of a driver that initialises the device with one queue, in the order
  the virtio specification gives them. \<open>lo32\<close> and \<open>hi32\<close> split a 64-bit value into the two
  writes the registers take.
\<close>

abbreviation lo32 :: "u64 \<Rightarrow> u32" where "lo32 x \<equiv> ucast x"
abbreviation hi32 :: "u64 \<Rightarrow> u32" where "hi32 x \<equiv> ucast (drop_bit 32 x)"

definition write_registers ::
  "'d virtio_ops \<Rightarrow> (u64 \<times> u32) list \<Rightarrow> 'd mmio_transport \<Rightarrow> 'd mmio_transport" where
  "write_registers ops ws t = fold (\<lambda>(off, v). write_register ops off v) ws t"

definition queue_setup :: "u32 \<Rightarrow> u32 \<Rightarrow> u64 \<Rightarrow> u64 \<Rightarrow> u64 \<Rightarrow> (u64 \<times> u32) list" where
  "queue_setup qi sz desc avail used =
     [(0x30, qi), (0x38, sz), (0x80, lo32 desc), (0x84, hi32 desc), (0x90, lo32 avail),
      (0x94, hi32 avail), (0xA0, lo32 used), (0xA4, hi32 used), (0x44, 1)]"

definition driver_init :: "u64 \<Rightarrow> u32 \<Rightarrow> u32 \<Rightarrow> u64 \<Rightarrow> u64 \<Rightarrow> u64 \<Rightarrow> (u64 \<times> u32) list" where
  "driver_init feats qi sz desc avail used =
     [(0x70, 0), (0x70, 1), (0x70, 3), (0x24, 0), (0x20, lo32 feats), (0x24, 1),
      (0x20, hi32 feats), (0x70, 11)] @ queue_setup qi sz desc avail used @ [(0x70, 15)]"

lemma write_registers_simps [simp]:
  "write_registers ops [] t = t"
  "write_registers ops ((off, v) # ws) t = write_registers ops ws (write_register ops off v t)"
  "write_registers ops (ws @ vs) t = write_registers ops vs (write_registers ops ws t)"
  by (simp_all add: write_registers_def)

lemma ones_mask: "(0xFFFFFFFF :: u64) = mask 32" "(0xFFFF :: u32) = mask 16"
  by (simp_all add: mask_eq_exp_minus_1)

lemma set_hi_lo32 [simp]: "set_hi32 (hi32 x) (set_lo32 (lo32 x) a) = x"
  unfolding set_hi32_def set_lo32_def ones_mask
  by (rule bit_word_eqI) (auto simp: bit_simps)

lemma feature_pages: "(ucast (lo32 x) OR push_bit 32 (ucast (hi32 x)) :: u64) = x"
  by (rule bit_word_eqI) (auto simp: bit_simps)

lemma ack_pages:
  "(a OR (ucast (lo32 x) AND f)) OR (push_bit 32 (ucast (hi32 x)) AND f) = a OR (x AND f :: u64)"
  by (simp add: or.assoc bit.conj_disj_distrib2 [symmetric] feature_pages)

lemma ucast_and_mask16: "(ucast (v AND 0xFFFF) :: u16) = ucast (v :: u32)"
  unfolding ones_mask by (rule bit_word_eqI) (auto simp: bit_simps)

text \<open>What each write of the sequence reaches.\<close>

lemma write_register_select [simp]:
  "write_register ops 0x24 v t = t\<lparr>mt_acked_features_select := v\<rparr>"
  "write_register ops 0x30 v t = t\<lparr>mt_queue_select := v\<rparr>"
  "write_register ops 0x70 v t = set_device_status ops v t"
  by (simp_all add: write_register_def)

lemma write_register_queue:
  "write_register ops 0x38 v t = update_queue_field ops (\<lambda>q. q\<lparr>q_size := ucast (v AND 0xFFFF)\<rparr>) t"
  "write_register ops 0x44 v t = update_queue_field ops (\<lambda>q. q\<lparr>q_ready := (v = 1)\<rparr>) t"
  "write_register ops 0x80 v t = update_queue_field ops (\<lambda>q. q\<lparr>desc_table_addr := set_lo32 v (desc_table_addr q)\<rparr>) t"
  "write_register ops 0x84 v t = update_queue_field ops (\<lambda>q. q\<lparr>desc_table_addr := set_hi32 v (desc_table_addr q)\<rparr>) t"
  "write_register ops 0x90 v t = update_queue_field ops (\<lambda>q. q\<lparr>avail_ring_addr := set_lo32 v (avail_ring_addr q)\<rparr>) t"
  "write_register ops 0x94 v t = update_queue_field ops (\<lambda>q. q\<lparr>avail_ring_addr := set_hi32 v (avail_ring_addr q)\<rparr>) t"
  "write_register ops 0xA0 v t = update_queue_field ops (\<lambda>q. q\<lparr>used_ring_addr := set_lo32 v (used_ring_addr q)\<rparr>) t"
  "write_register ops 0xA4 v t = update_queue_field ops (\<lambda>q. q\<lparr>used_ring_addr := set_hi32 v (used_ring_addr q)\<rparr>) t"
  by (simp_all add: write_register_def)

lemma write_register_features:
  assumes "mt_device_status t = 3" "mt_device t = Healthy d" "mt_acked_features_select t = 0"
  shows "write_register ops 0x20 v t = t\<lparr>mt_device := Healthy (vd_set_acked_features ops
    (vd_acked_features ops d OR (ucast v AND vd_avail_features ops d)) d)\<rparr>"
  using assms by (simp add: write_register_def check_status_def mmio_driver_features_def Let_def)

lemma write_register_features_hi:
  assumes "mt_device_status t = 3" "mt_device t = Healthy d" "mt_acked_features_select t = 1"
  shows "write_register ops 0x20 v t = t\<lparr>mt_device := Healthy (vd_set_acked_features ops
    (vd_acked_features ops d OR (push_bit 32 (ucast v) AND vd_avail_features ops d)) d)\<rparr>"
  using assms by (simp add: write_register_def check_status_def mmio_driver_features_def Let_def)

lemma update_queue_field_ok:
  assumes "mt_device_status t = 11" "mt_device t = Healthy d"
    "unat (mt_queue_select t) < length (vd_queues ops d)"
  shows "update_queue_field ops f t = t\<lparr>mt_device := Healthy (vd_update_queues ops
    (\<lambda>qs. qs[unat (mt_queue_select t) := f (qs ! unat (mt_queue_select t))]) d)\<rparr>"
  using assms by (simp add: update_queue_field_def check_status_def Let_def)

lemma set_device_status_steps:
  "set_device_status ops 0 t = mmio_reset ops t"
  "mt_device_status t = 0 \<Longrightarrow> set_device_status ops 1 t = t\<lparr>mt_device_status := 1\<rparr>"
  "mt_device_status t = 1 \<Longrightarrow> set_device_status ops 3 t = t\<lparr>mt_device_status := 3\<rparr>"
  "mt_device_status t = 3 \<Longrightarrow> set_device_status ops 11 t = t\<lparr>mt_device_status := 11\<rparr>"
  by (simp_all add: set_device_status_def)

lemma set_device_status_live:
  assumes "mt_device_status t = 11" "mt_device t = Healthy d" "\<not> vd_is_activated ops d"
    "vd_activate ops d = (d', Ok u)" "vd_device_type ops d \<noteq> Vsock" "NOT 11 AND s = 4" "s AND 128 = 0"
  shows "set_device_status ops s t = t\<lparr>mt_device_status := s, mt_device := Healthy d'\<rparr>"
proof -
  have "s \<noteq> 0" using assms(6) by auto
  with assms show ?thesis by (simp add: set_device_status_def Let_def mmio_activate_def)
qed

lemma mmio_reach_trans:
  assumes "mmio_reach ops t u" "mmio_reach ops u v"
  shows "mmio_reach ops t v"
  using assms(2,1) by (induction rule: mmio_reach.induct) (auto intro: mmio_reach.more)

lemma write_register_step: "off \<le> 0xFF \<Longrightarrow> mmio_step ops t (write_register ops off v t)"
  using guest_write [of ops t off "le_bytes 4 v"] by (simp add: mmio_write_def)

lemma write_registers_reach:
  "list_all (\<lambda>(off, v). off \<le> 0xFF) ws \<Longrightarrow> mmio_reach ops t (write_registers ops ws t)"
proof (induction ws arbitrary: t)
  case (Cons w ws)
  obtain off v where w: "w = (off, v)" by (cases w)
  have "mmio_reach ops t (write_register ops off v t)"
    by (rule more [OF start write_register_step]) (use Cons.prems w in simp)
  then show ?case using Cons w by (auto intro: mmio_reach_trans)
qed (simp add: start)

text \<open>Case rules: which handler a register write reaches.\<close>

lemma set_device_status_cases:
  obtains
    (reset) "s = 0" "set_device_status ops s t = mmio_reset ops t"
  | (failed) "set_device_status ops s t = t\<lparr>mt_device_status := mt_device_status t OR DEVICE_STATUS_FAILED\<rparr>"
  | (add) b where "b \<in> {1, 2, 8}" "mt_device_status t \<in> {0, 1, 3}" "NOT (mt_device_status t) AND s = b"
      "set_device_status ops s t = t\<lparr>mt_device_status := s\<rparr>"
  | (act) k t1 where "mt_device_status t = 11" "NOT (mt_device_status t) AND s = 4"
      "t1 = fst (mmio_activate ops k (t\<lparr>mt_device_status := s\<rparr>))"
      "set_device_status ops s t = t1 \<or>
       set_device_status ops s t = fst (process_external_queue ops 0 t1)"
  | (same) "set_device_status ops s t = t"
proof -
  note d = set_device_status_def Let_def
  let ?c = "mt_device_status t" and ?ch = "NOT (mt_device_status t) AND s"
  consider "s = 0" | "s \<noteq> 0" "s AND 128 \<noteq> 0"
    | "s \<noteq> 0" "s AND 128 = 0" "?ch = 1 \<and> ?c = 0 \<or> ?ch = 2 \<and> ?c = 1 \<or> ?ch = 8 \<and> ?c = 3"
    | "s \<noteq> 0" "s AND 128 = 0" "?ch = 4" "?c = 11"
    | "s \<noteq> 0" "s AND 128 = 0" "\<not> (?ch = 1 \<and> ?c = 0 \<or> ?ch = 2 \<and> ?c = 1 \<or> ?ch = 8 \<and> ?c = 3)"
      "\<not> (?ch = 4 \<and> ?c = 11)"
    by argo
  then show thesis
  proof cases
    case 1 then show ?thesis by (intro reset) (simp_all add: d)
  next
    case 2 then show ?thesis by (intro failed) (simp add: d)
  next
    case 3
    then have "set_device_status ops s t = t\<lparr>mt_device_status := s\<rparr>"
      by (auto simp: d)
    then show ?thesis using 3(3) add [of ?ch] by auto
  next
    case 4
    have "set_device_status ops s t = (case mmio_activate ops (map_option (vd_device_type ops)
        (lock (mt_device t))) (t\<lparr>mt_device_status := s\<rparr>) of (t1, kick_vsock_rx) \<Rightarrow>
        if kick_vsock_rx then fst (process_external_queue ops 0 t1) else t1)"
      unfolding d using 4 by simp
    then show ?thesis
      by (intro act [OF 4(4,3) refl, of "map_option (vd_device_type ops) (lock (mt_device t))"])
        (simp split: prod.splits)
  next
    case 5
    then have "set_device_status ops s t = t" unfolding d by (auto simp del: not_not)
    then show ?thesis by (rule same)
  qed
qed

lemma write_register_cases:
  obtains
    (features) "check_status t DEVICE_STATUS_DRIVER DEVICE_STATUS_FEATURES_OK"
      "write_register ops off v t = mmio_driver_features ops v t"
  | (queue) f where "write_register ops off v t = update_queue_field ops f t"
  | (notify) "write_register ops off v t = mmio_queue_notify ops v t"
  | (status) "off = 0x70" "write_register ops off v t = set_device_status ops v t"
  | (other) "mt_device (write_register ops off v t) = mt_device t"
      "mt_memory (write_register ops off v t) = mt_memory t"
      "mt_device_status (write_register ops off v t) = mt_device_status t"
proof -
  note d = write_register_def
  consider "off = 0x20" "check_status t DEVICE_STATUS_DRIVER DEVICE_STATUS_FEATURES_OK"
    | "off \<in> {0x38, 0x44, 0x80, 0x84, 0x90, 0x94, 0xA0, 0xA4}" | "off = 0x50" | "off = 0x70"
    | "off \<notin> {0x38, 0x44, 0x80, 0x84, 0x90, 0x94, 0xA0, 0xA4, 0x50, 0x70}"
      "\<not> (off = 0x20 \<and> check_status t DEVICE_STATUS_DRIVER DEVICE_STATUS_FEATURES_OK)"
    by blast
  then show thesis
  proof cases
    case 1 then show ?thesis by (intro features) (simp_all add: d)
  next
    case 2 then show ?thesis unfolding insert_iff empty_iff
      by (elim disjE; intro queue) (simp_all add: d; fail)+
  next
    case 3 then show ?thesis by (intro notify) (simp add: d)
  next
    case 4 then show ?thesis by (intro status) (simp_all add: d)
  next
    case 5 then show ?thesis by (intro other) (auto simp: d)
  qed
qed

text \<open>A device that keeps the contract of the trait, behind this transport.\<close>

locale mmio_backend = virtio_device ops for ops :: "'d virtio_ops"
begin

lemma inv_update_queue_field: "mmio_inv ops t \<Longrightarrow> mmio_inv ops (update_queue_field ops f t)"
  by (auto simp: update_queue_field_def mmio_inv_def upd_queues_acked upd_queues_avail
      upd_queues_activated Let_def split: option.splits)

lemma inv_driver_features: "mmio_inv ops t \<Longrightarrow> mmio_inv ops (mmio_driver_features ops v t)"
  by (auto simp: mmio_driver_features_def mmio_inv_def set_acked set_acked_avail
      set_acked_activated Let_def bit.conj_disj_distrib2 and.assoc split: option.splits)

lemma process_inv:
  assumes "mmio_inv ops t" "mt_memory t = Some m" "mt_device t = Healthy d"
    and "vd_process_queue ops i m d = (d', m', pr)"
  shows "mmio_inv ops (t\<lparr>mt_device := Healthy d', mt_memory := Some m'\<rparr>)"
  using assms process_mem [OF _ assms(4)]
  by (simp add: mmio_inv_def process_acked [OF assms(4)] process_avail [OF assms(4)]
      process_activated [OF assms(4)])

lemma inv_signal_vring: "mmio_inv ops (mmio_signal_vring t) = mmio_inv ops t"
  by (rule mmio_inv_cong) simp_all

lemma inv_queue_notify: "mmio_inv ops t \<Longrightarrow> mmio_inv ops (mmio_queue_notify ops v t)"
  by (auto simp: mmio_queue_notify_def Let_def inv_signal_vring process_inv
      split: option.splits prod.splits)

lemma inv_process_external:
  "mmio_inv ops t \<Longrightarrow> mmio_inv ops (fst (process_external_queue ops i t))"
  by (auto simp: process_external_queue_def Let_def inv_signal_vring process_inv
      split: option.splits prod.splits)

lemma inv_reset:
  assumes "mmio_inv ops t"
  shows "mmio_inv ops (mmio_reset ops t)"
proof -
  have "vd_acked_features ops (vd_reset ops d) AND NOT (vd_avail_features ops d) = 0"
    if "vd_acked_features ops d AND NOT (vd_avail_features ops d) = 0" for d
    using that reset_acked [of d] by (simp add: and_not_eq_0_trans)
  then show ?thesis using assms
    by (auto simp: mmio_reset_def mmio_inv_def Let_def upd_queues_acked upd_queues_avail
        upd_queues_activated reset_avail reset_activated status_wf_def split: option.splits)
qed

lemma inv_activate:
  assumes inv: "mmio_inv ops t" and pre: "mt_device_status t AND DEVICE_STATUS_DRIVER_OK = 0"
    and s: "status_wf s" "s AND DEVICE_STATUS_DRIVER_OK = DEVICE_STATUS_DRIVER_OK"
  shows "mmio_inv ops (fst (mmio_activate ops k (t\<lparr>mt_device_status := s\<rparr>)))"
proof (cases "mt_device t")
  case (Healthy d)
  have failed: "status_wf (s OR 128)" "(s OR 128) AND 4 \<noteq> 0" "(s OR 128) AND 128 \<noteq> 0"
    using s by (simp_all add: status_wf_def bit.conj_disj_distrib2)
  obtain d' r where act: "vd_activate ops d = (d', r)" by (cases "vd_activate ops d")
  have nact: "\<not> vd_is_activated ops d" using inv pre Healthy by (auto simp: mmio_inv_def)
  show ?thesis
  proof (cases r)
    case (Ok u)
    then have "vd_is_activated ops d'" using act activate_ok [of d d'] by (cases u) simp
    with inv s Healthy act nact Ok show ?thesis
      by (simp add: mmio_activate_def mmio_inv_def activate_acked activate_avail)
  next
    case (Err e)
    with inv s Healthy act nact failed show ?thesis
      by (simp add: mmio_activate_def mmio_inv_def activate_acked activate_avail)
  qed
qed (use inv s in \<open>simp add: mmio_activate_def mmio_inv_def\<close>)

lemma inv_set_status:
  assumes inv: "mmio_inv ops t"
  shows "mmio_inv ops (set_device_status ops s t)"
proof -
  let ?c = "mt_device_status t"
  have plain: "mmio_inv ops (t\<lparr>mt_device_status := s\<rparr>)"
    if "NOT ?c AND s = b" "?c AND 4 = 0" "b AND 4 = 0" "status_wf b" for b
  proof -
    have "s AND 4 = (s AND ?c AND 4) OR (b AND 4)"
      by (subst status_split [OF that(1)]) (simp add: bit.conj_disj_distrib2 and.assoc)
    then have "s AND 4 = 0" using that(2,3) by (simp add: and.assoc)
    moreover have "status_wf s"
      by (rule status_wf_added [OF that(1) _ that(4)]) (use inv in \<open>simp add: mmio_inv_def\<close>)
    ultimately show ?thesis
      using inv that(2) by (auto simp: mmio_inv_def split: mutex.splits)
  qed
  have failed: "mmio_inv ops (t\<lparr>mt_device_status := ?c OR 128\<rparr>)"
    using inv by (auto simp: mmio_inv_def status_wf_def bit.conj_disj_distrib2 split: mutex.splits)
  have act_inv: "mmio_inv ops (fst (mmio_activate ops k (t\<lparr>mt_device_status := s\<rparr>)))"
    if "NOT ?c AND s = 4" "?c = 11" for k
  proof (rule inv_activate [OF inv])
    show "status_wf s"
      by (rule status_wf_added [OF that(1)]) (use that(2) in \<open>simp_all add: status_wf_def\<close>)
    show "s AND 4 = 4" by (rule status_added_bit [OF that(1)])
  qed (simp add: that(2))
  show ?thesis
  proof (cases rule: set_device_status_cases [of s ops t])
    case (add b)
    then show ?thesis using plain [of b] by (auto simp: status_wf_def)
  next
    case (act k t1)
    then show ?thesis using act_inv [of k] inv_process_external by auto
  qed (use inv inv_reset failed in simp_all)
qed

lemma inv_write_register:
  assumes "mmio_inv ops t"
  shows "mmio_inv ops (write_register ops off v t)"
  by (cases rule: write_register_cases [of t ops off v])
    (use assms mmio_inv_cong [of "write_register ops off v t" t] in
     \<open>simp_all add: inv_update_queue_field inv_driver_features inv_queue_notify inv_set_status\<close>)

lemma inv_mmio_write:
  assumes "mmio_inv ops t"
  shows "mmio_inv ops (mmio_write ops off bs t)"
  using assms inv_write_register [OF assms]
  by (auto simp: mmio_write_def mmio_inv_def write_config_acked write_config_avail
      write_config_activated split: option.splits)

lemma inv_step:
  assumes "mmio_step ops t t'" "mmio_inv ops t"
  shows "mmio_inv ops t'"
  using assms(1)
proof cases
  case (raise_irq flags)
  then show ?thesis using assms(2) mmio_inv_cong [of t' t] by simp
next
  case (guest_store m m')
  then show ?thesis using assms(2) by (simp add: mmio_inv_def split: mutex.splits)
qed (use assms(2) inv_mmio_write inv_process_external in simp_all)

lemma inv_reach:
  assumes "mmio_reach ops t t'" "mmio_inv ops t"
  shows "mmio_inv ops t'"
  using mmio_reach_invariant [of ops t t' "mmio_inv ops"] assms inv_step by blast

lemma inv_boot:
  assumes "mem_wf mem" "\<not> vd_is_activated ops dev"
    "vd_acked_features ops dev AND NOT (vd_avail_features ops dev) = 0"
  shows "mmio_inv ops (mmio_boot dev mem)"
  using assms by (simp add: mmio_inv_def mmio_boot_defs status_wf_def)

text \<open>
  Once \<open>DRIVER_OK\<close> is set nothing but a reset moves the rings: their addresses, sizes and
  ready flags stay as the driver left them.
\<close>

lemma notify_frame:
  assumes "mt_device t = Healthy d"
  shows "\<exists>d'. mt_device (mmio_queue_notify ops v t) = Healthy d' \<and>
    map queue_geometry (vd_queues ops d') = map queue_geometry (vd_queues ops d) \<and>
    vd_is_activated ops d' = vd_is_activated ops d"
  using assms
  by (auto simp: mmio_queue_notify_def Let_def dest: process_queues process_activated
      split: option.splits prod.splits)

lemma external_frame:
  assumes "mt_device t = Healthy d"
  shows "\<exists>d'. mt_device (fst (process_external_queue ops i t)) = Healthy d' \<and>
    map queue_geometry (vd_queues ops d') = map queue_geometry (vd_queues ops d) \<and>
    vd_is_activated ops d' = vd_is_activated ops d"
  using assms
  by (auto simp: process_external_queue_def Let_def dest: process_queues process_activated
      split: option.splits prod.splits)

lemma reset_frame: "mt_device_status (mmio_reset ops t) = 0"
  by (simp add: mmio_reset_def Let_def split: option.splits)

lemma driver_features_queues:
  assumes "mt_device t = Healthy d"
  shows "\<exists>d'. mt_device (mmio_driver_features ops v t) = Healthy d' \<and>
    vd_queues ops d' = vd_queues ops d \<and> vd_is_activated ops d' = vd_is_activated ops d"
  using assms by (simp add: mmio_driver_features_def Let_def set_acked_queues set_acked_activated)

lemma frozen_write_register:
  assumes "mt_device t = Healthy d" "mt_device_status t AND DEVICE_STATUS_DRIVER_OK \<noteq> 0"
  shows "mt_device_status (write_register ops off v t) = 0 \<or>
    (\<exists>d'. mt_device (write_register ops off v t) = Healthy d' \<and>
       map queue_geometry (vd_queues ops d') = map queue_geometry (vd_queues ops d) \<and>
       vd_is_activated ops d' = vd_is_activated ops d)"
proof (cases rule: write_register_cases [of t ops off v])
  case features
  then show ?thesis using driver_features_queues [OF assms(1), of v] by auto
next
  case (queue f)
  have "update_queue_field ops f t = t"
    using assms(2) check_status_driver_ok [of t] by (auto simp: update_queue_field_def)
  then show ?thesis using queue assms(1) by simp
next
  case notify
  then show ?thesis using notify_frame [OF assms(1), of v] by auto
next
  case status
  show ?thesis
    by (cases rule: set_device_status_cases [of v ops t])
      (use assms status(2) reset_frame in \<open>auto\<close>)
qed (use assms(1) in simp)

lemma frozen_step:
  assumes "mmio_step ops t t'" "mt_device t = Healthy d"
    "mt_device_status t AND DEVICE_STATUS_DRIVER_OK \<noteq> 0"
  shows "mt_device_status t' = 0 \<or>
    (\<exists>d'. mt_device t' = Healthy d' \<and>
       map queue_geometry (vd_queues ops d') = map queue_geometry (vd_queues ops d) \<and>
       vd_is_activated ops d' = vd_is_activated ops d)"
  using assms(1)
proof cases
  case (guest_write off bs)
  then show ?thesis using assms(2) frozen_write_register [OF assms(2,3)]
    by (simp add: mmio_write_def write_config_queues write_config_activated)
next
  case (external_queue i)
  then show ?thesis using external_frame [OF assms(2), of i] by simp
qed (use assms(2) in simp_all)

text \<open>A device becomes live only by the status write that completes the handshake.\<close>

lemma activation_set_status:
  assumes "mt_device t = Healthy d" "\<not> vd_is_activated ops d"
    "mt_device (set_device_status ops v t) = Healthy d'" "vd_is_activated ops d'"
  shows "mt_device_status t = 11"
proof (cases rule: set_device_status_cases [of v ops t])
  case reset
  then show ?thesis using assms
    by (auto simp: mmio_reset_def Let_def upd_queues_activated reset_activated)
qed (use assms in auto)

lemma activation_write_register:
  assumes "mt_device t = Healthy d" "\<not> vd_is_activated ops d"
    "mt_device (write_register ops off v t) = Healthy d'" "vd_is_activated ops d'"
  shows "off = 0x70 \<and> mt_device_status t = 11"
proof (cases rule: write_register_cases [of t ops off v])
  case features
  then show ?thesis using driver_features_queues [OF assms(1), of v] assms by auto
next
  case (queue f)
  then show ?thesis using assms
    by (auto simp: update_queue_field_def Let_def upd_queues_activated split: if_splits)
next
  case notify
  then show ?thesis using notify_frame [OF assms(1), of v] assms by auto
qed (use assms activation_set_status in auto)

lemma activation_step:
  assumes "mmio_step ops t t'" "mt_device t = Healthy d" "\<not> vd_is_activated ops d"
    "mt_device t' = Healthy d'" "vd_is_activated ops d'"
  shows "mt_device_status t = 11"
  using assms(1)
proof cases
  case (guest_write off bs)
  then show ?thesis using assms(2-) activation_write_register [OF assms(2,3)]
    by (auto simp: mmio_write_def write_config_activated split: if_splits)
next
  case (external_queue i)
  then show ?thesis using external_frame [OF assms(2), of i] assms(2-) by auto
qed (use assms(2-) in auto)

end

section \<open>Device invariants lift to the machine\<close>

text \<open>
  A predicate on the device state that every trait method keeps holds in every reachable
  state of the transport, whatever the guest writes.
\<close>

locale device_invariant =
  fixes ops :: "'d virtio_ops" and P :: "'d \<Rightarrow> bool"
  assumes P_set_acked: "P d \<Longrightarrow> P (vd_set_acked_features ops f d)"
    and P_update_queues: "P d \<Longrightarrow> P (vd_update_queues ops g d)"
    and P_activate: "vd_activate ops d = (d1, ar) \<Longrightarrow> P d \<Longrightarrow> P d1"
    and P_reset: "P d \<Longrightarrow> P (vd_reset ops d)"
    and P_write_config: "P d \<Longrightarrow> P (vd_write_config ops off bs d)"
    and P_process: "vd_process_queue ops i m d = (d1, m1, pr) \<Longrightarrow> P d \<Longrightarrow> P d1"
begin

definition holds :: "'d mmio_transport \<Rightarrow> bool" where
  "holds t \<longleftrightarrow> (\<exists>d. mt_device t = Healthy d \<and> P d)"

lemma holds_external: "holds t \<Longrightarrow> holds (fst (process_external_queue ops i t))"
  by (auto simp: holds_def process_external_queue_def Let_def dest: P_process split: option.splits prod.splits)

lemma holds_notify: "holds t \<Longrightarrow> holds (mmio_queue_notify ops v t)"
  by (auto simp: holds_def mmio_queue_notify_def Let_def dest: P_process split: option.splits prod.splits)

lemma holds_activate: "holds t \<Longrightarrow> holds (fst (mmio_activate ops k t))"
  by (auto simp: holds_def mmio_activate_def dest: P_activate split: prod.splits result.splits)

lemma holds_set_status:
  assumes "holds t"
  shows "holds (set_device_status ops s t)"
proof (cases rule: set_device_status_cases [of s ops t])
  case reset
  then show ?thesis using assms P_update_queues P_reset
    by (auto simp: holds_def mmio_reset_def Let_def)
next
  case (act k t1)
  have "holds t1" unfolding act(3) by (rule holds_activate) (use assms in \<open>simp add: holds_def\<close>)
  then show ?thesis using act(4) holds_external by auto
qed (use assms in \<open>simp_all add: holds_def\<close>)

lemma holds_write_register:
  assumes "holds t"
  shows "holds (write_register ops off v t)"
proof (cases rule: write_register_cases [of t ops off v])
  case features
  then show ?thesis using assms P_set_acked
    by (auto simp: holds_def mmio_driver_features_def Let_def)
next
  case (queue f)
  then show ?thesis using assms P_update_queues
    by (auto simp: holds_def update_queue_field_def Let_def)
next
  case other
  then show ?thesis using assms by (simp add: holds_def)
qed (use assms holds_notify holds_set_status in simp_all)

lemma holds_step:
  assumes "mmio_step ops t t'" "holds t"
  shows "holds t'"
  using assms(1)
proof cases
  case (guest_write off bs)
  then show ?thesis using assms(2) holds_write_register P_write_config
    by (auto simp: mmio_write_def holds_def)
next
  case (external_queue i)
  then show ?thesis using assms(2) holds_external by simp
qed (use assms(2) in \<open>simp_all add: holds_def\<close>)

lemma holds_reach:
  assumes "mmio_reach ops t t'" "holds t"
  shows "holds t'"
  using mmio_reach_invariant [of ops t t' holds] assms holds_step by blast

end

end
