(* ===== verification/Transport_Properties.thy ===== *)
theory Transport_Properties
  imports Block_Properties Mmio_Transport
begin

text \<open>
  Properties of a virtio device behind the MMIO transport, at the block device: they
  instantiate the lemmas of \<open>Mmio_Transport\<close> through the interpretations \<open>block_mmio\<close> and \<open>block_ro\<close>.
\<close>

interpretation block_mmio: mmio_backend block_ops
  by unfold_locales


lemma block_handshake_result:
  assumes dev: "mt_device t = Healthy d" and qi: "unat qi < length (bd_queues d)"
  shows "\<exists>d'. mt_device (write_registers block_ops (driver_init feats qi sz desc avail used) t) = Healthy d'
      \<and> mt_device_status (write_registers block_ops (driver_init feats qi sz desc avail used) t) = 15
      \<and> bd_activated d'
      \<and> bd_acked_features d' = bd_acked_features d OR (feats AND bd_avail_features d)
      \<and> bd_queues d' ! unat qi = \<lparr>max_size = max_size (bd_queues d ! unat qi), q_size = ucast sz,
          q_ready = True, desc_table_addr = desc, avail_ring_addr = avail, used_ring_addr = used,
          last_avail_idx = 0, last_used_idx = 0\<rparr>
      \<and> disk_file_of d' = disk_file_of d
      \<and> bd_avail_features d' = bd_avail_features d \<and> length (bd_queues d') = length (bd_queues d)"
proof -
  define d1 where "d1 = (block_reset d)\<lparr>bd_queues := map virt_queue_reset (bd_queues (block_reset d))\<rparr>"
  have d1: "bd_acked_features d1 = bd_acked_features d" "bd_avail_features d1 = bd_avail_features d"
    "disk_file_of d1 = disk_file_of d" "\<not> bd_activated d1" "unat qi < length (bd_queues d1)" "length (bd_queues d1) = length (bd_queues d)"
    "bd_queues d1 ! unat qi = virt_queue_new (max_size (bd_queues d ! unat qi))"
    using qi by (simp_all add: d1_def block_reset_def virt_queue_reset_def virt_queue_new_def)
  have r: "mt_device_status (mmio_reset block_ops t) = 0"
    "mt_device (mmio_reset block_ops t) = Healthy d1"
    using dev by (simp_all add: mmio_reset_def d1_def block_ops_def)
  show ?thesis
    unfolding driver_init_def queue_setup_def
    using r d1
    by (simp add: set_device_status_steps write_register_features write_register_features_hi
        write_register_queue update_queue_field_ok set_device_status_live block_ops_def
        ucast_and_mask16 ack_pages virt_queue_new_def)
qed

text \<open>The concrete machine of the witnesses: a disk behind a transport, after its handshake.\<close>

definition demo_idle :: "bool \<Rightarrow> block_device" where
  "demo_idle ro = (demo_block ro)\<lparr>bd_activated := False\<rparr>"

definition demo_live :: "bool \<Rightarrow> block_device mmio_transport" where
  "demo_live ro = write_registers block_ops (driver_init 0x100000000 0 2 64 128 192)
     (mmio_boot (demo_idle ro) (demo_mem 4 0))"

lemma demo_live_reach: "mmio_reach block_ops (mmio_boot (demo_idle ro) (demo_mem 4 0)) (demo_live ro)"
  unfolding demo_live_def by (rule write_registers_reach) (simp add: driver_init_def queue_setup_def)

lemma demo_idle_simps [simp]:
  "\<not> bd_activated (demo_idle ro)" "bd_acked_features (demo_idle ro) = 0" "read_only (demo_idle ro) = ro"
  "length (bd_queues (demo_idle ro)) = 1"
  by (simp_all add: demo_idle_def demo_block_def)

lemma demo_live_device:
  obtains d where "mt_device (demo_live ro) = Healthy d" "bd_activated d"
    "mt_device_status (demo_live ro) = 15"
  using block_handshake_result [of "mmio_boot (demo_idle ro) (demo_mem 4 0)" "demo_idle ro" 0
      "0x100000000" 2 64 128 192]
  by (auto simp: mmio_boot_defs demo_live_def)

text \<open>
  C6. The initialisation sequence of a driver (reset, acknowledge, driver, both feature
  pages, features-ok, one queue's size, addresses and ready flag, driver-ok) leaves the
  transport in status 15 with the device live and the selected queue holding the size and the
  three 64-bit addresses the driver wrote, with both ring indices at zero; the disk is not
  touched.  The features acknowledged are those of the driver that the device offers, on top of
  what was acknowledged before: the reset that opens the sequence does not clear them.  So the
  first driver of a device gets exactly the features it negotiated, while after a second
  sequence the features of the first are still in force, whether or not the second asked for
  them.
\<close>

theorem block_driver_handshake:
  fixes feats feats2 desc avail used desc2 avail2 used2 :: u64 and sz sz2 :: u32
  assumes dev: "mt_device t = Healthy d" and qi: "unat qi < length (bd_queues d)"
  defines "t1 \<equiv> write_registers block_ops (driver_init feats qi sz desc avail used) t"
  shows "\<exists>d'. mt_device t1 = Healthy d' \<and> mt_device_status t1 = 15 \<and> bd_activated d'
      \<and> bd_acked_features d' = bd_acked_features d OR (feats AND bd_avail_features d)
      \<and> (bd_acked_features d = 0 \<longrightarrow> bd_acked_features d' = feats AND bd_avail_features d)
      \<and> bd_queues d' ! unat qi = \<lparr>max_size = max_size (bd_queues d ! unat qi), q_size = ucast sz,
          q_ready = True, desc_table_addr = desc, avail_ring_addr = avail, used_ring_addr = used,
          last_avail_idx = 0, last_used_idx = 0\<rparr>
      \<and> disk_file_of d' = disk_file_of d
      \<and> (\<exists>d2. mt_device (write_registers block_ops (driver_init feats2 qi sz2 desc2 avail2 used2) t1) = Healthy d2
           \<and> bd_activated d2 \<and> bd_acked_features d2 = bd_acked_features d' OR (feats2 AND bd_avail_features d))"
proof -
  obtain d' where d': "mt_device t1 = Healthy d'" "mt_device_status t1 = 15" "bd_activated d'"
      "bd_acked_features d' = bd_acked_features d OR (feats AND bd_avail_features d)"
      "bd_queues d' ! unat qi = \<lparr>max_size = max_size (bd_queues d ! unat qi), q_size = ucast sz,
          q_ready = True, desc_table_addr = desc, avail_ring_addr = avail, used_ring_addr = used,
          last_avail_idx = 0, last_used_idx = 0\<rparr>" "disk_file_of d' = disk_file_of d"
      "bd_avail_features d' = bd_avail_features d" "length (bd_queues d') = length (bd_queues d)"
    using block_handshake_result [OF assms(1,2)] unfolding t1_def by blast
  obtain d2 where "mt_device (write_registers block_ops (driver_init feats2 qi sz2 desc2 avail2 used2) t1) = Healthy d2"
      "bd_activated d2" "bd_acked_features d2 = bd_acked_features d' OR (feats2 AND bd_avail_features d')"
    using block_handshake_result [OF d'(1), of qi feats2 sz2 desc2 avail2 used2] qi d'(8) by auto
  with d' show ?thesis by simp
qed

theorem block_driver_handshake_witness:
  "\<exists>d'. mt_device (write_registers block_ops (driver_init 0x100000000 0 2 64 128 192)
        (mmio_new (Healthy (demo_block False)))) = Healthy d' \<and> bd_activated d' \<and>
      bd_acked_features d' = 0x100000000 \<and> desc_table_addr (bd_queues d' ! 0) = 64 \<and> q_size (bd_queues d' ! 0) = 2"
  using block_driver_handshake [of "mmio_new (Healthy (demo_block False))" "demo_block False" 0
      "0x100000000" 2 64 128 192 0 2 64 128 192]
  by (auto simp: mmio_new_def demo_block_def)

text \<open>
  C18. In every state the machine can reach from boot (any sequence of MMIO writes, queue
  polls, interrupts and guest stores), the device has acknowledged only features it offers,
  only the six defined status bits are set, and the device is live exactly when the driver
  has set \<open>DRIVER_OK\<close>, unless the driver marked it failed.
\<close>

theorem block_mmio_invariant:
  assumes "mmio_reach block_ops (mmio_boot dev mem) t" "mem_wf mem" "\<not> bd_activated dev"
    "bd_acked_features dev = 0" "mt_device t = Healthy d"
  shows "bd_acked_features d AND NOT (bd_avail_features d) = 0
    \<and> mt_device_status t AND NOT (1 OR 2 OR 4 OR 8 OR 128) = 0
    \<and> (bd_activated d \<longrightarrow> mt_device_status t AND DEVICE_STATUS_DRIVER_OK \<noteq> 0)
    \<and> (mt_device_status t AND DEVICE_STATUS_DRIVER_OK \<noteq> 0 \<and>
         mt_device_status t AND DEVICE_STATUS_FAILED = 0 \<longrightarrow> bd_activated d)"
proof -
  have "mmio_inv block_ops (mmio_boot dev mem)"
    by (rule block_mmio.inv_boot) (use assms in \<open>simp_all add: block_ops_def\<close>)
  from block_mmio.inv_reach [OF assms(1) this] show ?thesis
    using assms(5) by (simp add: mmio_inv_def status_wf_def block_ops_def)
qed

theorem block_mmio_invariant_witness:
  "\<exists>d. mt_device (demo_live False) = Healthy d \<and> bd_acked_features d AND NOT (bd_avail_features d) = 0"
  by (rule demo_live_device [of False])
    (use block_mmio_invariant [OF demo_live_reach demo_mem_wf] in auto)

text \<open>
  While the device is live, no step but a reset changes the configuration of any queue:
  whatever the guest writes, the size, ready flag and ring addresses the device uses are
  those that were in force when the driver set \<open>DRIVER_OK\<close>, and the device stays live.
\<close>

lemma block_live_queues_frozen:
  assumes "mmio_reach block_ops (mmio_boot dev mem) t" "mem_wf mem" "\<not> bd_activated dev"
    "bd_acked_features dev = 0" "mt_device t = Healthy d" "bd_activated d" "mmio_step block_ops t t'"
  shows "mt_device_status t' = DEVICE_STATUS_INIT \<or>
    (\<exists>d'. mt_device t' = Healthy d' \<and> bd_activated d' \<and>
       map queue_geometry (bd_queues d') = map queue_geometry (bd_queues d))"
proof -
  have "mmio_inv block_ops (mmio_boot dev mem)"
    by (rule block_mmio.inv_boot) (use assms in \<open>simp_all add: block_ops_def\<close>)
  from block_mmio.inv_reach [OF assms(1) this] have "mt_device_status t AND 4 \<noteq> 0"
    using assms(5,6) by (simp add: mmio_inv_def block_ops_def)
  from block_mmio.frozen_step [OF assms(7,5) this] assms(6) show ?thesis
    by (auto simp: block_ops_def)
qed

text \<open>
  A device becomes live only through the last step of the handshake: a step from a
  state in which it is not live to one in which it is starts in status
  \<open>ACKNOWLEDGE | DRIVER | FEATURES_OK\<close>, so with the failed bit clear.
\<close>

lemma block_activation_needs_handshake:
  assumes "mmio_step block_ops t t'" "mt_device t = Healthy d" "\<not> bd_activated d"
    "mt_device t' = Healthy d'" "bd_activated d'"
  shows "mt_device_status t =
    DEVICE_STATUS_ACKNOWLEDGE OR DEVICE_STATUS_DRIVER OR DEVICE_STATUS_FEATURES_OK"
  using block_mmio.activation_step [OF assms(1,2)] assms(3-) by (simp add: block_ops_def)

text \<open>
  A status write may clear bits. From the state before \<open>DRIVER_OK\<close> the write of 6 drops
  \<open>ACKNOWLEDGE\<close> and \<open>FEATURES_OK\<close> and still makes the device live; the transport then accepts
  further driver features, so the feature set of a live device can grow.
\<close>

lemma block_live_features_renegotiable:
  assumes "mt_device t = Healthy d" "\<not> bd_activated d" "mt_device_status t = 11"
    "mt_acked_features_select t = 0"
  shows "mt_device_status (write_register block_ops 0x70 6 t) = 6 \<and>
    mt_device (write_registers block_ops [(0x70, 6), (0x20, v)] t) =
      Healthy (d\<lparr>bd_activated := True,
        bd_acked_features := bd_acked_features d OR (ucast v AND bd_avail_features d)\<rparr>)"
proof -
  have "write_register block_ops 0x70 6 t =
      t\<lparr>mt_device_status := 6, mt_device := Healthy (d\<lparr>bd_activated := True\<rparr>)\<rparr>"
    using set_device_status_live [of t d block_ops "d\<lparr>bd_activated := True\<rparr>" "()" 6] assms
    by (simp add: block_ops_def)
  then show ?thesis using assms
    by (simp add: write_register_def [of _ "0x20"] check_status_def mmio_driver_features_def
        block_ops_def)
qed

lemma block_process_read_only:
  assumes "block_trait_process_queue i m d = (d1, m1, pr)" "read_only d"
  shows "read_only d1 \<and> df_data (disk_file_of d1) = df_data (disk_file_of d)"
proof -
  obtain m2 d2 q2 r2 where pq: "process_queue m d (bd_queues d ! i) = (m2, d2, q2, r2)"
    by (cases "process_queue m d (bd_queues d ! i)")
  have "read_only d2 \<and> df_data (disk_file_of d2) = df_data (disk_file_of d)"
    by (rule block_effectE [OF process_queue_effect [OF pq]]) (use assms(2) in simp)
  then show ?thesis using assms pq
    by (auto simp: block_trait_process_queue_def split: if_splits)
qed

interpretation block_ro: device_invariant block_ops
  "\<lambda>d. read_only d \<and> df_data (disk_file_of d) = D" for D
proof (unfold_locales, goal_cases)
  case (6 i m d d1 m1 pr)
  then show ?case using block_process_read_only [of i m d d1 m1 pr] by (simp add: block_ops_def)
qed (auto simp: block_ops_def block_reset_def)

text \<open>
  C31. A read-only block device keeps the contents of its backing file in every reachable
  state of the machine, for every guest.
\<close>

theorem block_read_only_machine:
  assumes "mmio_reach block_ops (mmio_boot dev mem) t" "read_only dev"
  shows "\<exists>d. mt_device t = Healthy d \<and> read_only d \<and>
    df_data (disk_file_of d) = df_data (disk_file_of dev)"
  using block_ro.holds_reach [OF assms(1), of "df_data (disk_file_of dev)"] assms(2)
  by (simp add: block_ro.holds_def mmio_boot_defs)

theorem block_read_only_machine_witness:
  "\<exists>d. mt_device (demo_live True) = Healthy d \<and> df_data (disk_file_of d) = replicate 8 7"
  using block_read_only_machine [OF demo_live_reach [of True]]
  by (auto simp: demo_idle_def demo_block_def demo_disk_def)

end
