(* ===== verification/Io_Bus.thy ===== *)
theory Io_Bus
  imports Visor_Prelude
begin

text \<open>
  The I/O bus, \<^verbatim>\<open>src/crates/visor-vmm/src/devices/bus.rs\<close>: registration of device ranges in a
  vector sorted by base address, lookup by binary search, and dispatch. A
  \<open>dyn BusDevice\<close> is a state with its two trait methods; because devices are shared
  (\<open>Arc<Mutex<..>>\<close>), a bus entry holds the identity of a device and the states live in a
  store indexed by identity.

  The locale \<open>address_map\<close> is the contract of the bus: what a lookup returns after a
  registration.
\<close>

section \<open>State\<close>

record 's bus_ops =
  bus_dev_read :: "u64 \<Rightarrow> u8 list \<Rightarrow> 's \<Rightarrow> 's \<times> u8 list"
  bus_dev_write :: "u64 \<Rightarrow> u8 list \<Rightarrow> 's \<Rightarrow> 's"

type_synonym 's device_store = "nat \<Rightarrow> 's mutex"

datatype bus_error = Overlap u64 u64 | ZeroSizedRange

record bus_entry =
  be_base :: u64
  be_size :: u64
  be_device :: nat

type_synonym bus = "bus_entry list"

definition bus_new :: bus where
  "bus_new = []"

section \<open>Operations\<close>

text \<open>
  \<open>slice::binary_search_by_key\<close>: the position of the key, or the position where it can be
  inserted. The search looks at the entries \<open>lo..<hi\<close>.
\<close>

function binary_search :: "u64 list \<Rightarrow> u64 \<Rightarrow> nat \<Rightarrow> nat \<Rightarrow> (nat, nat) result" where
  "binary_search ks key lo hi =
     (if lo \<ge> hi then Err lo
      else let mid = lo + (hi - lo) div 2 in
        if ks ! mid = key then Ok mid
        else if ks ! mid < key then binary_search ks key (mid + 1) hi
        else binary_search ks key lo mid)"
  by auto
termination by (relation "measure (\<lambda>(ks, key, lo, hi). hi - lo)") (auto simp: Let_def)

declare binary_search.simps [simp del]

definition binary_search_by_base :: "bus \<Rightarrow> u64 \<Rightarrow> (nat, nat) result" where
  "binary_search_by_base b key = binary_search (map be_base b) key 0 (length b)"

definition ranges_overlap :: "u64 \<Rightarrow> u64 \<Rightarrow> u64 \<Rightarrow> u64 \<Rightarrow> bool" where
  "ranges_overlap a_base a_size b_base b_size \<longleftrightarrow>
     a_base < b_base + b_size \<and> b_base < a_base + a_size"

definition insert_at :: "nat \<Rightarrow> 'a \<Rightarrow> 'a list \<Rightarrow> 'a list" where
  "insert_at i x xs = take i xs @ x # drop i xs"

definition register :: "bus \<Rightarrow> u64 \<Rightarrow> u64 \<Rightarrow> nat \<Rightarrow> (bus, bus_error) result" where
  "register b base sz device =
     (if sz = 0 then Err ZeroSizedRange
      else if list_ex (\<lambda>e. ranges_overlap base sz (be_base e) (be_size e)) b then Err (Overlap base sz)
      else let pos = (case binary_search_by_base b base of Ok i \<Rightarrow> i | Err i \<Rightarrow> i)
           in Ok (insert_at pos \<lparr>be_base = base, be_size = sz, be_device = device\<rparr> b))"

definition bus_find :: "bus \<Rightarrow> u64 \<Rightarrow> (nat \<times> u64) option" where
  "bus_find b addr =
     (let idx = (case binary_search_by_base b addr of
                   Ok i \<Rightarrow> Some i
                 | Err i \<Rightarrow> if i = 0 then None else Some (i - 1))
      in case idx of None \<Rightarrow> None
         | Some i \<Rightarrow>
             (let entry = b ! i; offset = addr - be_base entry
              in if offset < be_size entry then Some (i, offset) else None))"

definition bus_read ::
  "'s bus_ops \<Rightarrow> bus \<Rightarrow> u64 \<Rightarrow> u8 list \<Rightarrow> 's device_store \<Rightarrow> ('s device_store \<times> u8 list) option" where
  "bus_read ops b addr data st =
     (case bus_find b addr of None \<Rightarrow> None
      | Some (i, offset) \<Rightarrow>
          (case lock (st (be_device (b ! i))) of None \<Rightarrow> None
           | Some s \<Rightarrow> (case bus_dev_read ops offset data s of
               (s', data') \<Rightarrow> Some (st(be_device (b ! i) := Healthy s'), data'))))"

definition bus_write ::
  "'s bus_ops \<Rightarrow> bus \<Rightarrow> u64 \<Rightarrow> u8 list \<Rightarrow> 's device_store \<Rightarrow> 's device_store option" where
  "bus_write ops b addr data st =
     (case bus_find b addr of None \<Rightarrow> None
      | Some (i, offset) \<Rightarrow>
          (case lock (st (be_device (b ! i))) of None \<Rightarrow> None
           | Some s \<Rightarrow> Some (st(be_device (b ! i) := Healthy (bus_dev_write ops offset data s)))))"

section \<open>Binary search\<close>

lemma binary_search_Ok:
  "binary_search ks key lo hi = Ok i \<Longrightarrow> lo \<le> i \<and> i < hi \<and> ks ! i = key"
proof (induction ks key lo hi rule: binary_search.induct)
  case (1 ks key lo hi)
  then show ?case
    by (subst (asm) (3) binary_search.simps) (auto simp: Let_def split: if_splits)
qed

lemma binary_search_Err:
  assumes "binary_search ks key lo hi = Err i" "sorted ks" "hi \<le> length ks" "lo \<le> hi"
  shows "lo \<le> i \<and> i \<le> hi \<and> (\<forall>j. lo \<le> j \<and> j < i \<longrightarrow> ks ! j < key) \<and> (\<forall>j. i \<le> j \<and> j < hi \<longrightarrow> key < ks ! j)"
  using assms
proof (induction ks key lo hi rule: binary_search.induct)
  case (1 ks key lo hi)
  let ?mid = "lo + (hi - lo) div 2"
  show ?case
  proof (cases "lo \<ge> hi")
    case True
    with "1.prems" show ?thesis by (auto simp: binary_search.simps)
  next
    case False
    then have mid: "lo \<le> ?mid" "?mid < hi" by auto
    have mono: "ks ! a \<le> ks ! c" if "a \<le> c" "c < hi" for a c
      using that "1.prems"(2,3) by (auto intro: sorted_nth_mono)
    consider "ks ! ?mid < key" | "key < ks ! ?mid"
      using "1.prems"(1) False by (auto simp: binary_search.simps [of ks key lo hi] Let_def split: if_splits)
    then show ?thesis
    proof cases
      case 1
      then have rec: "binary_search ks key (?mid + 1) hi = Err i"
        using "1.prems"(1) False by (auto simp: binary_search.simps [of ks key lo hi] Let_def split: if_splits)
      have below: "ks ! j < key" if "j \<le> ?mid" for j
        using mono [of j ?mid] that mid 1 by simp
      have IH: "?mid + 1 \<le> i \<and> i \<le> hi \<and> (\<forall>j. ?mid + 1 \<le> j \<and> j < i \<longrightarrow> ks ! j < key) \<and>
          (\<forall>j. i \<le> j \<and> j < hi \<longrightarrow> key < ks ! j)"
        using "1.IH"(1) [OF False refl _ 1 rec] 1 "1.prems"(2,3) mid by simp
      have "ks ! j < key" if "lo \<le> j \<and> j < i" for j
        using IH below [of j] that by (cases "j \<le> ?mid") auto
      then show ?thesis using IH mid by auto
    next
      case 2
      then have rec: "binary_search ks key lo ?mid = Err i"
        using "1.prems"(1) False by (auto simp: binary_search.simps [of ks key lo hi] Let_def split: if_splits)
      have above: "key < ks ! j" if "?mid \<le> j" "j < hi" for j
        using mono [of ?mid j] that 2 by simp
      have IH: "lo \<le> i \<and> i \<le> ?mid \<and> (\<forall>j. lo \<le> j \<and> j < i \<longrightarrow> ks ! j < key) \<and>
          (\<forall>j. i \<le> j \<and> j < ?mid \<longrightarrow> key < ks ! j)"
        using "1.IH"(2) [OF False refl _ _ rec] 2 "1.prems"(2,3) mid by simp
      have "key < ks ! j" if "i \<le> j \<and> j < hi" for j
        using IH above [of j] that by (cases "?mid \<le> j") auto
      then show ?thesis using IH mid by auto
    qed
  qed
qed

section \<open>Well-formed buses\<close>

text \<open>
  The entries are sorted, non-empty, pairwise disjoint, and none reaches the end of the
  address space. \<open>in_range\<close> is membership over unbounded numbers, free of wrap-around.
\<close>

definition entry_end :: "bus_entry \<Rightarrow> nat" where
  "entry_end e = unat (be_base e) + unat (be_size e)"

definition in_range :: "u64 \<Rightarrow> bus_entry \<Rightarrow> bool" where
  "in_range addr e \<longleftrightarrow> unat (be_base e) \<le> unat addr \<and> unat addr < entry_end e"

definition bus_wf :: "bus \<Rightarrow> bool" where
  "bus_wf b \<longleftrightarrow>
     sorted_wrt (\<lambda>e f. entry_end e \<le> unat (be_base f)) b \<and>
     (\<forall>e \<in> set b. be_size e \<noteq> 0 \<and> entry_end e < 2 ^ 64)"

lemma bus_wf_new [simp]: "bus_wf bus_new"
  by (simp add: bus_wf_def bus_new_def)

lemma bus_wf_ends:
  assumes "bus_wf b" "i < j" "j < length b"
  shows "entry_end (b ! i) \<le> unat (be_base (b ! j))"
  using assms sorted_wrt_nth_less [of "\<lambda>e f. entry_end e \<le> unat (be_base f)" b i j]
  by (simp add: bus_wf_def)

lemma entry_end_gt: "be_size e \<noteq> 0 \<Longrightarrow> unat (be_base e) < entry_end e"
  by (simp add: entry_end_def unat_gt_0)

lemma bus_wf_sorted:
  assumes "bus_wf b"
  shows "sorted (map be_base b)"
proof (subst sorted_map, rule sorted_wrt_mono_rel [of b "\<lambda>e f. entry_end e \<le> unat (be_base f)"])
  fix e f assume "e \<in> set b" "f \<in> set b" "entry_end e \<le> unat (be_base f)"
  then show "be_base e \<le> be_base f" using entry_end_gt [of e] assms
    by (auto simp: bus_wf_def word_le_nat_alt)
qed (use assms in \<open>simp add: bus_wf_def\<close>)

lemma in_range_unique:
  assumes "bus_wf b" "i < length b" "j < length b" "in_range addr (b ! i)" "in_range addr (b ! j)"
  shows "i = j"
  using assms bus_wf_ends [OF assms(1), of i j] bus_wf_ends [OF assms(1), of j i]
  by (cases i j rule: linorder_cases) (auto simp: in_range_def)

lemma offset_in_range:
  assumes "be_base e \<le> addr"
  shows "addr - be_base e < be_size e \<longleftrightarrow> in_range addr e"
  using assms by (auto simp: in_range_def entry_end_def word_less_nat_alt word_le_nat_alt unat_sub)

lemma search_position:
  assumes "bus_wf b" "binary_search_by_base b addr = Err i"
  shows "i \<le> length b" "j < i \<Longrightarrow> be_base (b ! j) < addr"
    "i \<le> j \<Longrightarrow> j < length b \<Longrightarrow> addr < be_base (b ! j)"
  using binary_search_Err [of "map be_base b" addr 0 "length b" i] assms bus_wf_sorted [OF assms(1)]
  by (auto simp: binary_search_by_base_def dest: spec [of _ j])

text \<open>Lookup by binary search finds exactly the entry that contains the address.\<close>

lemma bus_find_iff:
  assumes wf: "bus_wf b"
  shows "bus_find b addr = Some (i, off) \<longleftrightarrow>
    i < length b \<and> in_range addr (b ! i) \<and> off = addr - be_base (b ! i)"
proof (cases "binary_search_by_base b addr")
  case (Ok k)
  then have k: "k < length b" "be_base (b ! k) = addr"
    using binary_search_Ok [of "map be_base b" addr 0 "length b" k]
    by (auto simp: binary_search_by_base_def)
  then have "in_range addr (b ! k)"
    using wf entry_end_gt [of "b ! k"] by (auto simp: in_range_def bus_wf_def)
  then show ?thesis
    using Ok k in_range_unique [OF wf k(1), of i addr] offset_in_range [of "b ! k" addr]
    by (auto simp: bus_find_def Let_def)
next
  case (Err k)
  note pos = search_position [OF wf Err]
  have above: "\<not> in_range addr (b ! j)" if "k \<le> j" "j < length b" for j
    using pos(3) [OF that] by (auto simp: in_range_def word_less_nat_alt)
  show ?thesis
  proof (cases "k = 0")
    case True
    then show ?thesis using Err above [of i] by (auto simp: bus_find_def)
  next
    case False
    then have last: "k - 1 < length b" using pos(1) by simp
    have "be_base (b ! (k - 1)) < addr" using False pos(2) [of "k - 1"] by simp
    then have off: "addr - be_base (b ! (k - 1)) < be_size (b ! (k - 1)) \<longleftrightarrow> in_range addr (b ! (k - 1))"
      by (intro offset_in_range) simp
    have below: "\<not> in_range addr (b ! j)" if "j < k - 1" for j
      using bus_wf_ends [OF wf that last] \<open>be_base (b ! (k - 1)) < addr\<close> False
      by (auto simp: in_range_def word_less_nat_alt)
    have "i = k - 1" if "i < length b" "in_range addr (b ! i)"
      using above [of i] below [of i] that by linarith
    then show ?thesis
      using Err False off pos(1) by (auto simp: bus_find_def Let_def)
  qed
qed

section \<open>Routing\<close>

text \<open>The device that answers at an address, with the offset it sees.\<close>

definition route :: "bus \<Rightarrow> u64 \<Rightarrow> (nat \<times> u64) option" where
  "route b addr = map_option (\<lambda>(i, off). (be_device (b ! i), off)) (bus_find b addr)"

lemma route_iff:
  assumes "bus_wf b"
  shows "route b addr = Some (d, off) \<longleftrightarrow>
    (\<exists>e \<in> set b. in_range addr e \<and> be_device e = d \<and> off = addr - be_base e)"
proof
  assume "route b addr = Some (d, off)"
  then obtain i where "bus_find b addr = Some (i, off)" "be_device (b ! i) = d"
    by (auto simp: route_def)
  then show "\<exists>e \<in> set b. in_range addr e \<and> be_device e = d \<and> off = addr - be_base e"
    using bus_find_iff [OF assms, of addr i off] nth_mem by blast
next
  assume "\<exists>e \<in> set b. in_range addr e \<and> be_device e = d \<and> off = addr - be_base e"
  then obtain i where "i < length b" "in_range addr (b ! i)" "be_device (b ! i) = d" "off = addr - be_base (b ! i)"
    by (auto simp: in_set_conv_nth)
  then show "route b addr = Some (d, off)"
    using bus_find_iff [OF assms, of addr i off] by (simp add: route_def)
qed

lemma route_None_iff:
  assumes "bus_wf b"
  shows "route b addr = None \<longleftrightarrow> (\<forall>e \<in> set b. \<not> in_range addr e)"
  using route_iff [OF assms, of addr] by (metis not_Some_eq surj_pair)

lemma ranges_overlap_iff:
  assumes "unat base + unat sz < 2 ^ 64" "entry_end e < 2 ^ 64"
  shows "ranges_overlap base sz (be_base e) (be_size e) \<longleftrightarrow>
    unat base < entry_end e \<and> unat (be_base e) < unat base + unat sz"
  using assms by (simp add: ranges_overlap_def entry_end_def word_less_nat_alt unat_word_ariths)

lemma set_insert_at [simp]: "set (insert_at i x xs) = insert x (set xs)"
proof -
  have "set (take i xs) \<union> set (drop i xs) = set xs" by (metis append_take_drop_id set_append)
  then show ?thesis by (simp add: insert_at_def)
qed

lemma sorted_wrt_insert_at:
  assumes "sorted_wrt R xs" "\<And>j. j < i \<Longrightarrow> j < length xs \<Longrightarrow> R (xs ! j) x"
    "\<And>j. i \<le> j \<Longrightarrow> j < length xs \<Longrightarrow> R x (xs ! j)"
  shows "sorted_wrt R (insert_at i x xs)"
proof -
  have "sorted_wrt R (take i xs @ drop i xs)" using assms(1) by simp
  moreover have "R a x" if "a \<in> set (take i xs)" for a
    using that assms(2) by (auto simp: in_set_conv_nth)
  moreover have "R x a" if "a \<in> set (drop i xs)" for a
    using that assms(3) by (auto simp: in_set_conv_nth)
  ultimately show ?thesis unfolding insert_at_def sorted_wrt_append by simp
qed

text \<open>What a successful registration does, when the new range does not reach the end of the space.\<close>

lemma register_Ok:
  assumes wf: "bus_wf b" and nowrap: "unat base + unat sz < 2 ^ 64"
    and ok: "register b base sz d = Ok b'"
  shows "bus_wf b'" "set b' = insert \<lparr>be_base = base, be_size = sz, be_device = d\<rparr> (set b)"
proof -
  let ?n = "\<lparr>be_base = base, be_size = sz, be_device = d\<rparr>"
  define pos where "pos = (case binary_search_by_base b base of Ok i \<Rightarrow> i | Err i \<Rightarrow> i)"
  have sz: "sz \<noteq> 0" and no: "\<not> ranges_overlap base sz (be_base e) (be_size e)" if "e \<in> set b" for e
    using ok that by (auto simp: register_def list_ex_iff split: if_splits)
  have b': "b' = insert_at pos ?n b" and sz: "sz \<noteq> 0"
    using ok by (auto simp: register_def pos_def Let_def split: if_splits)
  have apart: "entry_end e \<le> unat base \<or> unat base + unat sz \<le> unat (be_base e)" if "e \<in> set b" for e
    using no [OF that] ranges_overlap_iff [OF nowrap, of e] wf that by (auto simp: bus_wf_def)
  have e_pos: "unat (be_base e) < entry_end e" if "e \<in> set b" for e
    using wf that by (intro entry_end_gt) (auto simp: bus_wf_def)
  have s_pos: "0 < unat sz" using sz by (simp add: unat_gt_0)
  obtain i where i: "binary_search_by_base b base = Err i"
  proof (cases "binary_search_by_base b base")
    case (Ok k)
    then have "b ! k \<in> set b" "be_base (b ! k) = base"
      using binary_search_Ok [of "map be_base b" base 0 "length b" k]
      by (auto simp: binary_search_by_base_def)
    then show ?thesis using apart [of "b ! k"] e_pos [of "b ! k"] s_pos by auto
  qed
  then have pos: "pos = i" by (simp add: pos_def)
  have "sorted_wrt (\<lambda>e f. entry_end e \<le> unat (be_base f)) (insert_at pos ?n b)"
  proof (rule sorted_wrt_insert_at)
    fix j assume j: "j < pos" "j < length b"
    then show "entry_end (b ! j) \<le> unat (be_base ?n)"
      using search_position(2) [OF wf i, of j] apart [of "b ! j"] e_pos [of "b ! j"] pos s_pos
      by (auto simp: word_less_nat_alt)
  next
    fix j assume j: "pos \<le> j" "j < length b"
    then show "entry_end ?n \<le> unat (be_base (b ! j))"
      using search_position(3) [OF wf i, of j] apart [of "b ! j"] e_pos [of "b ! j"] pos
      by (auto simp: word_less_nat_alt entry_end_def)
  qed (use wf in \<open>simp add: bus_wf_def\<close>)
  then show "bus_wf b'" using wf nowrap sz by (simp add: b' bus_wf_def entry_end_def)
  show "set b' = insert ?n (set b)" by (simp add: b')
qed

section \<open>The contract of the bus\<close>

abbreviation range_has :: "u64 \<Rightarrow> u64 \<Rightarrow> u64 \<Rightarrow> bool" where
  "range_has base sz a \<equiv> unat base \<le> unat a \<and> unat a < unat base + unat sz"

locale address_map =
  fixes reg :: "'b \<Rightarrow> u64 \<Rightarrow> u64 \<Rightarrow> nat \<Rightarrow> ('b, 'e) result"
    and rt :: "'b \<Rightarrow> u64 \<Rightarrow> (nat \<times> u64) option"
    and inv :: "'b \<Rightarrow> bool"
  assumes reg_inv: "\<lbrakk>inv b; unat base + unat sz < 2 ^ 64; reg b base sz d = Ok b'\<rbrakk> \<Longrightarrow> inv b'"
    and reg_new: "\<lbrakk>inv b; unat base + unat sz < 2 ^ 64; reg b base sz d = Ok b'; range_has base sz a\<rbrakk>
      \<Longrightarrow> rt b' a = Some (d, a - base)"
    and reg_old: "\<lbrakk>inv b; unat base + unat sz < 2 ^ 64; reg b base sz d = Ok b'; \<not> range_has base sz a\<rbrakk>
      \<Longrightarrow> rt b' a = rt b a"
    and reg_ok_iff: "\<lbrakk>inv b; unat base + unat sz < 2 ^ 64\<rbrakk> \<Longrightarrow>
      is_ok (reg b base sz d) \<longleftrightarrow> sz \<noteq> 0 \<and> (\<forall>a. range_has base sz a \<longrightarrow> rt b a = None)"
begin

text \<open>A later registration never takes an address away from a device.\<close>

lemma reg_stays:
  assumes "inv b" "unat base + unat sz < 2 ^ 64" "reg b base sz d = Ok b'" "rt b a = Some x"
  shows "rt b' a = Some x"
proof -
  have "\<not> range_has base sz a"
    using reg_ok_iff [OF assms(1,2), of d] assms(3,4) by auto
  then show ?thesis using reg_old [OF assms(1-3)] assms(4) by simp
qed

fun reg_all :: "'b \<Rightarrow> (u64 \<times> u64 \<times> nat) list \<Rightarrow> ('b, 'e) result" where
  "reg_all b [] = Ok b"
| "reg_all b ((base, sz, d) # rs) = (case reg b base sz d of Ok b' \<Rightarrow> reg_all b' rs | Err e \<Rightarrow> Err e)"

lemma reg_all_keeps:
  assumes "reg_all b rs = Ok b'" "inv b" "\<forall>(base, sz, d) \<in> set rs. unat base + unat sz < 2 ^ 64"
  shows "inv b' \<and> (\<forall>a x. rt b a = Some x \<longrightarrow> rt b' a = Some x)"
  using assms
proof (induction b rs rule: reg_all.induct)
  case (2 b base sz d rs)
  then obtain b1 where b1: "reg b base sz d = Ok b1" "reg_all b1 rs = Ok b'"
    by (auto split: result.splits)
  have nw: "unat base + unat sz < 2 ^ 64" using "2.prems"(3) by simp
  have i1: "inv b1" by (rule reg_inv [OF "2.prems"(2) nw b1(1)])
  have "inv b' \<and> (\<forall>a x. rt b1 a = Some x \<longrightarrow> rt b' a = Some x)"
    using "2.IH" [OF b1(1,2) i1] "2.prems"(3) by simp
  then show ?case using reg_stays [OF "2.prems"(2) nw b1(1)] by blast
qed simp

lemma reg_all_routes:
  assumes "reg_all b rs = Ok b'" "inv b" "\<forall>(base, sz, d) \<in> set rs. unat base + unat sz < 2 ^ 64"
    "(base, sz, d) \<in> set rs" "range_has base sz a"
  shows "rt b' a = Some (d, a - base)"
  using assms
proof (induction b rs rule: reg_all.induct)
  case (2 b base1 sz1 d1 rs)
  then obtain b1 where b1: "reg b base1 sz1 d1 = Ok b1" "reg_all b1 rs = Ok b'"
    by (auto split: result.splits)
  have nw: "unat base1 + unat sz1 < 2 ^ 64" using "2.prems"(3) by simp
  have i1: "inv b1" by (rule reg_inv [OF "2.prems"(2) nw b1(1)])
  have rs: "\<forall>(base, sz, d) \<in> set rs. unat base + unat sz < 2 ^ 64" using "2.prems"(3) by simp
  show ?case
  proof (cases "(base, sz, d) = (base1, sz1, d1)")
    case True
    then have "rt b1 a = Some (d, a - base)"
      using reg_new [OF "2.prems"(2) nw b1(1)] "2.prems"(5) by simp
    then show ?thesis using reg_all_keeps [OF b1(2) i1 rs] by blast
  next
    case False
    then have "(base, sz, d) \<in> set rs" using "2.prems"(4) by auto
    then show ?thesis using "2.IH" [OF b1(1,2) i1 rs] "2.prems"(5) by blast
  qed
qed simp

end

lemma overlap_common:
  assumes "unat base + unat sz < 2 ^ 64" "sz \<noteq> 0" "entry_end e < 2 ^ 64" "be_size e \<noteq> 0"
  shows "ranges_overlap base sz (be_base e) (be_size e) \<longleftrightarrow> (\<exists>a. range_has base sz a \<and> in_range a e)"
proof
  assume "ranges_overlap base sz (be_base e) (be_size e)"
  then have "unat base < entry_end e" "unat (be_base e) < unat base + unat sz"
    using ranges_overlap_iff [OF assms(1,3)] by auto
  moreover have "0 < unat sz" "unat (be_base e) < entry_end e"
    using assms(2,4) entry_end_gt by (simp_all add: unat_gt_0)
  ultimately show "\<exists>a. range_has base sz a \<and> in_range a e"
    by (intro exI [of _ "if be_base e \<le> base then base else be_base e"])
      (auto simp: in_range_def word_le_nat_alt)
next
  assume "\<exists>a. range_has base sz a \<and> in_range a e"
  then show "ranges_overlap base sz (be_base e) (be_size e)"
    using ranges_overlap_iff [OF assms(1,3)] by (auto simp: in_range_def)
qed

interpretation bus: address_map register route bus_wf
proof (unfold_locales, goal_cases)
  case (1 b base sz d b')
  then show ?case by (rule register_Ok(1))
next
  case (2 b base sz d b' a)
  then show ?case
    using register_Ok [OF 2(1-3)] by (subst route_iff) (auto simp: in_range_def entry_end_def)
next
  case (3 b base sz d b' a)
  note r = register_Ok [OF 3(1-3)]
  have "route b' a = Some (x, off) \<longleftrightarrow> route b a = Some (x, off)" for x off
    using 3 r by (auto simp: route_iff in_range_def entry_end_def)
  then show ?case by (metis not_Some_eq surj_pair)
next
  case (4 b base sz d)
  have "(\<forall>e\<in>set b. \<not> ranges_overlap base sz (be_base e) (be_size e)) \<longleftrightarrow>
      (\<forall>a. range_has base sz a \<longrightarrow> route b a = None)" if "sz \<noteq> 0"
    unfolding route_None_iff [OF 4(1)] using overlap_common [OF 4(2) that] 4(1)
    by (auto simp: bus_wf_def)
  then show ?case by (auto simp: register_def list_ex_iff Let_def)
qed

section \<open>Properties\<close>

text \<open>
  C14. On a well-formed bus the binary search of \<open>find\<close> is exact: it returns an entry if and
  only if that entry's range contains the address, with the offset from the entry's base.
\<close>

theorem bus_find_exact:
  assumes "bus_wf b"
  shows "bus_find b addr = Some (i, off) \<longleftrightarrow>
    i < length b \<and> in_range addr (b ! i) \<and> off = addr - be_base (b ! i)"
  using assms by (rule bus_find_iff)

definition demo_bus :: bus where
  "demo_bus = [\<lparr>be_base = 0x3F8, be_size = 8, be_device = 0\<rparr>, \<lparr>be_base = 0xCF8, be_size = 8, be_device = 1\<rparr>]"

lemma demo_bus_wf: "bus_wf demo_bus"
  by (simp add: bus_wf_def demo_bus_def entry_end_def)

theorem bus_find_exact_witness: "bus_find demo_bus 0xCFC = Some (1, 4) \<and> bus_find demo_bus 0x400 \<noteq> Some (0, 8)"
  using bus_find_exact [OF demo_bus_wf, of "0xCFC" 1 4] bus_find_exact [OF demo_bus_wf, of "0x400" 0 8]
  by (simp add: demo_bus_def in_range_def entry_end_def)

text \<open>
  C15. Registration keeps the bus well formed. A range that stays below the end of the address
  space is accepted exactly when it is non-empty and no address of it already has an owner;
  afterwards its addresses, and no others, are answered by the new device.
\<close>

theorem bus_register_exact:
  assumes "bus_wf b" "unat base + unat sz < 2 ^ 64"
  shows "(is_ok (register b base sz d) \<longleftrightarrow>
       sz \<noteq> 0 \<and> (\<forall>a. range_has base sz a \<longrightarrow> route b a = None)) \<and>
    (\<forall>b'. register b base sz d = Ok b' \<longrightarrow>
       bus_wf b' \<and>
       (\<forall>a. route b' a = (if range_has base sz a then Some (d, a - base) else route b a)))"
  using bus.reg_ok_iff [OF assms] bus.reg_inv [OF assms] bus.reg_new [OF assms] bus.reg_old [OF assms]
  by auto

theorem bus_register_exact_witness:
  "\<exists>b'. register demo_bus 0x60 5 7 = Ok b' \<and> bus_wf b' \<and> route b' 0x64 = Some (7, 4) \<and>
     route b' 0xCF8 = route demo_bus 0xCF8"
proof -
  have nw: "unat (0x60 :: u64) + unat (5 :: u64) < 2 ^ 64" by simp
  obtain b' where b': "register demo_bus 0x60 5 7 = Ok b'"
    using bus_register_exact [OF demo_bus_wf nw, of 7] route_None_iff [OF demo_bus_wf]
    by (auto simp: is_ok_iff demo_bus_def in_range_def entry_end_def)
  then show ?thesis using bus_register_exact [OF demo_bus_wf nw, of 7] by simp
qed

text \<open>
  A range that ends exactly at the top of the 64-bit space defeats the overlap test,
  whose sums wrap to zero: the same range can be registered twice, and both calls succeed.
\<close>

lemma bus_top_range_overlap_missed:
  assumes "base + sz = 0" "sz \<noteq> 0"
  shows "\<exists>b1 b2. register bus_new base sz d1 = Ok b1 \<and> register b1 base sz d2 = Ok b2 \<and> length b2 = 2"
  using assms
  by (simp add: register_def bus_new_def ranges_overlap_def insert_at_def Let_def split: result.splits)

end
