(* ===== verification/Device_Manager.thy ===== *)
theory Device_Manager
  imports Io_Bus
begin

text \<open>
  The device manager (\<^verbatim>\<open>src/crates/visor-vmm/src/devices/mod.rs\<close>), which routes VM exits to
  the port and MMIO buses, the exit types of \<^verbatim>\<open>platform/mod.rs\<close>, the translation of KVM
  exits in \<^verbatim>\<open>vcpu.rs\<close>, and the run loop of \<^verbatim>\<open>vm/linux.rs\<close>.

  What \<open>KVM_RUN\<close> returns is outside the crate: the loop is a function of the sequence of
  outcomes, one per iteration, each with the value of the kill flag read before it.
\<close>

section \<open>Exits\<close>

abbreviation (input) VM_EXIT_DATA_MAX :: nat where "VM_EXIT_DATA_MAX \<equiv> 8"

record exit_data =
  ed_buf :: "u8 list"
  ed_len :: u8

text \<open>\<open>from_slice\<close> asserts that the data fits; \<open>None\<close> is the panic.\<close>

definition from_slice :: "u8 list \<Rightarrow> exit_data option" where
  "from_slice data =
     (if length data \<le> VM_EXIT_DATA_MAX
      then Some \<lparr>ed_buf = splice_at 0 data (replicate VM_EXIT_DATA_MAX 0), ed_len = of_nat (length data)\<rparr>
      else None)"

definition as_bytes :: "exit_data \<Rightarrow> u8 list" where
  "as_bytes d = take (unat (ed_len d)) (ed_buf d)"

lemma as_bytes_from_slice: "from_slice data = Some d \<Longrightarrow> as_bytes d = data"
  by (auto simp: from_slice_def as_bytes_def splice_at_def unat_of_nat split: if_splits)

lemma from_slice_short: "length data \<le> 8 \<Longrightarrow> \<exists>d. from_slice data = Some d \<and> as_bytes d = data"
  using as_bytes_from_slice [of data] by (auto simp: from_slice_def)

datatype vm_exit =
    IoIn u16 nat
  | IoOut u16 exit_data
  | MmioRead u64 nat
  | MmioWrite u64 exit_data
  | Halt
  | Shutdown
  | Reboot

datatype exit_action = Continue | Stop

datatype vcpu_error = RunError nat | FailEntry u64 u32 | InternalError

section \<open>The device manager\<close>

abbreviation (input) PCI_CONFIG_ADDRESS :: u16 where "PCI_CONFIG_ADDRESS \<equiv> 0xCF8"
abbreviation (input) PCI_CONFIG_IO_SIZE :: u64 where "PCI_CONFIG_IO_SIZE \<equiv> 8"
abbreviation (input) KBD_CMD_PORT :: u16 where "KBD_CMD_PORT \<equiv> 0x64"
abbreviation (input) KBD_RESET_CMD :: u8 where "KBD_RESET_CMD \<equiv> 0xFE"
abbreviation (input) PCI_RESET_PORT :: u16 where "PCI_RESET_PORT \<equiv> 0xCF9"
abbreviation (input) PCI_RESET_BIT :: u8 where "PCI_RESET_BIT \<equiv> 0x04"
abbreviation (input) FAST_RESET_PORT :: u16 where "FAST_RESET_PORT \<equiv> 0x92"
abbreviation (input) FAST_RESET_BIT :: u8 where "FAST_RESET_BIT \<equiv> 0x01"

text \<open>
  \<open>dm_devices\<close> and \<open>dm_next\<close> are the heap of shared devices: the state of each
  \<open>Arc<Mutex<dyn BusDevice>>\<close> and the identity the next allocation gets.
\<close>

record 's device_manager =
  dm_pio_bus :: bus
  dm_mmio_bus :: bus
  dm_pci_bus :: "nat option"
  dm_devices :: "'s device_store"
  dm_next :: nat

definition device_manager_new :: "'s device_manager" where
  "device_manager_new = \<lparr>dm_pio_bus = bus_new, dm_mmio_bus = bus_new, dm_pci_bus = None,
     dm_devices = (\<lambda>_. Poisoned), dm_next = 0\<rparr>"

definition enable_pci ::
  "'s \<Rightarrow> 's device_manager \<Rightarrow> 's device_manager \<times> (unit, bus_error) result" where
  "enable_pci pci_bus_new dm =
     (let i = dm_next dm;
          dm1 = dm\<lparr>dm_devices := (dm_devices dm)(i := Healthy pci_bus_new), dm_next := i + 1\<rparr>
      in case register (dm_pio_bus dm1) (ucast PCI_CONFIG_ADDRESS) PCI_CONFIG_IO_SIZE i of
           Err e \<Rightarrow> (dm1, Err e)
         | Ok b \<Rightarrow> (dm1\<lparr>dm_pio_bus := b, dm_pci_bus := Some i\<rparr>, Ok ()))"

definition is_reboot_io :: "u16 \<Rightarrow> u8 list \<Rightarrow> bool" where
  "is_reboot_io port data =
     (case data of [] \<Rightarrow> False
      | byte # _ \<Rightarrow>
          if port = KBD_CMD_PORT then byte = KBD_RESET_CMD
          else if port = PCI_RESET_PORT then byte AND PCI_RESET_BIT \<noteq> 0
          else if port = FAST_RESET_PORT then byte AND FAST_RESET_BIT \<noteq> 0
          else False)"

definition handle_exit ::
  "'s bus_ops \<Rightarrow> vm_exit \<Rightarrow> 's device_manager \<Rightarrow> 's device_manager \<times> exit_action" where
  "handle_exit ops exit dm =
     (case exit of
        IoOut port data \<Rightarrow>
          if is_reboot_io port (as_bytes data) then (dm, Stop)
          else (case bus_write ops (dm_pio_bus dm) (ucast port) (as_bytes data) (dm_devices dm) of
                  None \<Rightarrow> (dm, Continue)
                | Some st \<Rightarrow> (dm\<lparr>dm_devices := st\<rparr>, Continue))
      | MmioWrite addr data \<Rightarrow>
          (case bus_write ops (dm_mmio_bus dm) addr (as_bytes data) (dm_devices dm) of
             None \<Rightarrow> (dm, Continue)
           | Some st \<Rightarrow> (dm\<lparr>dm_devices := st\<rparr>, Continue))
      | IoIn _ _ \<Rightarrow> (dm, Continue)
      | MmioRead _ _ \<Rightarrow> (dm, Continue)
      | Halt \<Rightarrow> (dm, Continue)
      | Shutdown \<Rightarrow> (dm, Stop)
      | Reboot \<Rightarrow> (dm, Stop))"

definition handle_io_read ::
  "'s bus_ops \<Rightarrow> u16 \<Rightarrow> u8 list \<Rightarrow> 's device_manager \<Rightarrow> 's device_manager \<times> u8 list" where
  "handle_io_read ops port data dm =
     (case bus_read ops (dm_pio_bus dm) (ucast port) data (dm_devices dm) of
        None \<Rightarrow> (dm, replicate (length data) 0xFF)
      | Some (st, data') \<Rightarrow> (dm\<lparr>dm_devices := st\<rparr>, data'))"

definition handle_mmio_read ::
  "'s bus_ops \<Rightarrow> u64 \<Rightarrow> u8 list \<Rightarrow> 's device_manager \<Rightarrow> 's device_manager \<times> u8 list" where
  "handle_mmio_read ops addr data dm =
     (case bus_read ops (dm_mmio_bus dm) addr data (dm_devices dm) of
        None \<Rightarrow> (dm, replicate (length data) 0xFF)
      | Some (st, data') \<Rightarrow> (dm\<lparr>dm_devices := st\<rparr>, data'))"

section \<open>The run loop\<close>

text \<open>
  The outcomes of \<open>KVM_RUN\<close> that the code distinguishes. A read exit carries the buffer the
  handler fills; \<open>KOther\<close> stands for \<open>Hlt\<close> and every exit without a case of its own.
\<close>

datatype kvm_run =
    KIoIn u16 "u8 list"
  | KIoOut u16 "u8 list"
  | KMmioRead u64 "u8 list"
  | KMmioWrite u64 "u8 list"
  | KShutdown
  | KSystemEvent u32
  | KFailEntry u64 u32
  | KInternalError
  | KOther
  | KErrno nat

abbreviation (input) EINTR :: nat where "EINTR \<equiv> 4"
abbreviation (input) EAGAIN :: nat where "EAGAIN \<equiv> 11"

text \<open>One run: the handler state, the filled buffer, and the exit; \<open>None\<close> is the panic of
  \<open>ExitData::from_slice\<close>.\<close>

definition run_once_with_handler ::
  "'s bus_ops \<Rightarrow> kvm_run \<Rightarrow> 's device_manager \<Rightarrow>
     ('s device_manager \<times> u8 list \<times> (vm_exit, vcpu_error) result) option" where
  "run_once_with_handler ops k dm =
     (case k of
        KIoIn port data \<Rightarrow>
          (case handle_io_read ops port data dm of
             (dm', data') \<Rightarrow> Some (dm', data', Ok (IoIn port (length data'))))
      | KIoOut port data \<Rightarrow> map_option (\<lambda>d. (dm, [], Ok (IoOut port d))) (from_slice data)
      | KMmioRead addr data \<Rightarrow>
          (case handle_mmio_read ops addr data dm of
             (dm', data') \<Rightarrow> Some (dm', data', Ok (MmioRead addr (length data'))))
      | KMmioWrite addr data \<Rightarrow> map_option (\<lambda>d. (dm, [], Ok (MmioWrite addr d))) (from_slice data)
      | KShutdown \<Rightarrow> Some (dm, [], Ok Shutdown)
      | KSystemEvent t \<Rightarrow> Some (dm, [], Ok (if t = 2 then Reboot else Shutdown))
      | KFailEntry reason cpu \<Rightarrow> Some (dm, [], Err (FailEntry reason cpu))
      | KInternalError \<Rightarrow> Some (dm, [], Err InternalError)
      | KOther \<Rightarrow> Some (dm, [], Ok Halt)
      | KErrno errno \<Rightarrow>
          Some (dm, [], if errno = EAGAIN \<or> errno = EINTR then Ok Halt else Err (RunError errno)))"

text \<open>After each exit the loop drains queue 0 of the vsock and network transports.\<close>

definition poll_transport :: "('s \<Rightarrow> 's) \<Rightarrow> nat \<Rightarrow> 's device_store \<Rightarrow> 's device_store" where
  "poll_transport process_external i st =
     (case lock (st i) of None \<Rightarrow> st | Some s \<Rightarrow> st(i := Healthy (process_external s)))"

definition poll_transports ::
  "('s \<Rightarrow> 's) \<Rightarrow> nat option \<Rightarrow> nat list \<Rightarrow> 's device_manager \<Rightarrow> 's device_manager" where
  "poll_transports pe vsock nets dm =
     (let st = (case vsock of None \<Rightarrow> dm_devices dm | Some v \<Rightarrow> poll_transport pe v (dm_devices dm))
      in dm\<lparr>dm_devices := fold (poll_transport pe) nets st\<rparr>)"

datatype loop_end = LoopOk | LoopErr vcpu_error | LoopPanic | LoopRunning

fun run_loop ::
  "'s bus_ops \<Rightarrow> ('s \<Rightarrow> 's) \<Rightarrow> nat option \<Rightarrow> nat list \<Rightarrow> (bool \<times> kvm_run) list \<Rightarrow>
     's device_manager \<Rightarrow> 's device_manager \<times> loop_end" where
  "run_loop ops pe vsock nets [] dm = (dm, LoopRunning)"
| "run_loop ops pe vsock nets ((kill_flag, k) # rest) dm =
     (if kill_flag then (dm, LoopOk)
      else case run_once_with_handler ops k dm of
             None \<Rightarrow> (dm, LoopPanic)
           | Some (dm1, _, Err e) \<Rightarrow> (dm1, LoopErr e)
           | Some (dm1, _, Ok exit) \<Rightarrow>
               (case handle_exit ops exit dm1 of
                  (dm2, Stop) \<Rightarrow> (dm2, LoopOk)
                | (dm2, Continue) \<Rightarrow>
                    run_loop ops pe vsock nets rest (poll_transports pe vsock nets dm2)))"

section \<open>Properties\<close>

text \<open>The buses reach devices only through \<open>route\<close>.\<close>

lemma bus_write_route:
  "bus_write ops b addr data st =
     (case route b addr of None \<Rightarrow> None
      | Some (i, off) \<Rightarrow> (case st i of Poisoned \<Rightarrow> None
          | Healthy s \<Rightarrow> Some (st(i := Healthy (bus_dev_write ops off data s)))))"
  by (auto simp: bus_write_def route_def split: option.splits mutex.splits)

lemma bus_read_route:
  "bus_read ops b addr data st =
     (case route b addr of None \<Rightarrow> None
      | Some (i, off) \<Rightarrow> (case st i of Poisoned \<Rightarrow> None
          | Healthy s \<Rightarrow> (case bus_dev_read ops off data s of
              (s', data') \<Rightarrow> Some (st(i := Healthy s'), data'))))"
  by (auto simp: bus_read_def route_def split: option.splits mutex.splits prod.splits)

text \<open>
  C34. A guest access touches exactly the device that owns its address.  The bus is well
  formed, as registration keeps it (ranges that do not overlap).  An MMIO access to an address
  inside a registered range reaches the device registered there and no other: a read returns
  what it answers at the offset from the base of its range, a write hands it the bytes at that
  offset, and the rest of the machine, every other device included, is as before.  At an address
  inside no range, or whose device is poisoned, a read returns all ones, a write is dropped,
  and nothing changes.  No write stops the machine.
\<close>

theorem mmio_access_isolated:
  assumes "bus_wf (dm_mmio_bus dm)"
  shows "(\<forall>e \<in> set (dm_mmio_bus dm).
      unat (be_base e) \<le> unat addr \<and> unat addr < unat (be_base e) + unat (be_size e) \<longrightarrow>
      (case dm_devices dm (be_device e) of
         Poisoned \<Rightarrow> handle_mmio_read ops addr data dm = (dm, replicate (length data) 0xFF) \<and>
           handle_exit ops (MmioWrite addr d) dm = (dm, Continue)
       | Healthy s \<Rightarrow>
           (\<forall>s' data'. bus_dev_read ops (addr - be_base e) data s = (s', data') \<longrightarrow>
              handle_mmio_read ops addr data dm =
                (dm\<lparr>dm_devices := (dm_devices dm)(be_device e := Healthy s')\<rparr>, data')) \<and>
           handle_exit ops (MmioWrite addr d) dm =
             (dm\<lparr>dm_devices := (dm_devices dm)(be_device e :=
                Healthy (bus_dev_write ops (addr - be_base e) (as_bytes d) s))\<rparr>, Continue))) \<and>
    ((\<forall>e \<in> set (dm_mmio_bus dm). unat addr < unat (be_base e) \<or> unat (be_base e) + unat (be_size e) \<le> unat addr) \<longrightarrow>
      handle_mmio_read ops addr data dm = (dm, replicate (length data) 0xFF) \<and>
      handle_exit ops (MmioWrite addr d) dm = (dm, Continue))"
proof (intro conjI ballI impI)
  fix e assume e: "e \<in> set (dm_mmio_bus dm)"
    and a: "unat (be_base e) \<le> unat addr \<and> unat addr < unat (be_base e) + unat (be_size e)"
  have "in_range addr e" using a by (simp add: in_range_def entry_end_def)
  then have r: "route (dm_mmio_bus dm) addr = Some (be_device e, addr - be_base e)"
    using route_iff [OF assms] e by blast
  show "case dm_devices dm (be_device e) of
         Poisoned \<Rightarrow> handle_mmio_read ops addr data dm = (dm, replicate (length data) 0xFF) \<and>
           handle_exit ops (MmioWrite addr d) dm = (dm, Continue)
       | Healthy s \<Rightarrow>
           (\<forall>s' data'. bus_dev_read ops (addr - be_base e) data s = (s', data') \<longrightarrow>
              handle_mmio_read ops addr data dm =
                (dm\<lparr>dm_devices := (dm_devices dm)(be_device e := Healthy s')\<rparr>, data')) \<and>
           handle_exit ops (MmioWrite addr d) dm =
             (dm\<lparr>dm_devices := (dm_devices dm)(be_device e :=
                Healthy (bus_dev_write ops (addr - be_base e) (as_bytes d) s))\<rparr>, Continue)"
    by (auto simp: handle_exit_def handle_mmio_read_def bus_write_route bus_read_route r split: mutex.split)
next
  assume "\<forall>e \<in> set (dm_mmio_bus dm). unat addr < unat (be_base e) \<or> unat (be_base e) + unat (be_size e) \<le> unat addr"
  then have "\<forall>e \<in> set (dm_mmio_bus dm). \<not> in_range addr e" by (force simp: in_range_def entry_end_def)
  then have r: "route (dm_mmio_bus dm) addr = None" using route_None_iff [OF assms] by blast
  show "handle_mmio_read ops addr data dm = (dm, replicate (length data) 0xFF)"
    "handle_exit ops (MmioWrite addr d) dm = (dm, Continue)"
    by (simp_all add: handle_exit_def handle_mmio_read_def bus_write_route bus_read_route r)
qed

text \<open>
  A toy device for the witnesses: one byte, read and written at offset 0.
\<close>

definition byte_ops :: "u8 bus_ops" where
  "byte_ops = \<lparr>bus_dev_read = (\<lambda>off data s. (s, map (\<lambda>_. s) data)),
     bus_dev_write = (\<lambda>off data s. case data of [] \<Rightarrow> s | b # _ \<Rightarrow> b)\<rparr>"

definition demo_dm :: "u8 device_manager" where
  "demo_dm = \<lparr>dm_pio_bus = demo_bus, dm_mmio_bus = demo_bus, dm_pci_bus = None,
     dm_devices = (\<lambda>_. Healthy 5), dm_next = 2\<rparr>"

theorem mmio_access_isolated_witness:
  "handle_mmio_read byte_ops 0x500 [0, 0] demo_dm = (demo_dm, [0xFF, 0xFF]) \<and>
   handle_mmio_read byte_ops 0x3FF [0, 0] demo_dm =
     (demo_dm\<lparr>dm_devices := (dm_devices demo_dm)(0 := Healthy 5)\<rparr>, [5, 5])"
proof -
  have wf: "bus_wf (dm_mmio_bus demo_dm)" using demo_bus_wf by (simp add: demo_dm_def)
  let ?e = "\<lparr>be_base = 0x3F8, be_size = 8, be_device = 0\<rparr>" and ?d = "\<lparr>ed_buf = [], ed_len = 0\<rparr>"
  have e: "?e \<in> set (dm_mmio_bus demo_dm)" and h: "dm_devices demo_dm 0 = Healthy 5"
    by (simp_all add: demo_dm_def demo_bus_def)
  have none: "\<forall>e \<in> set (dm_mmio_bus demo_dm). unat (0x500 :: u64) < unat (be_base e) \<or>
      unat (be_base e) + unat (be_size e) \<le> unat (0x500 :: u64)"
    by (simp add: demo_dm_def demo_bus_def)
  have rd: "bus_dev_read byte_ops (0x3FF - 0x3F8) [0, 0] 5 = (5, [5, 5])" by (simp add: byte_ops_def)
  have "handle_mmio_read byte_ops 0x3FF [0, 0] demo_dm =
     (demo_dm\<lparr>dm_devices := (dm_devices demo_dm)(0 := Healthy 5)\<rparr>, [5, 5])"
    using mmio_access_isolated [OF wf, of "0x3FF" byte_ops "[0, 0]" ?d, THEN conjunct1, THEN bspec, OF e] h rd by simp
  moreover have "handle_mmio_read byte_ops 0x500 [0, 0] demo_dm = (demo_dm, replicate (length [0, 0 :: u8]) 0xFF)"
    using mmio_access_isolated [OF wf, of "0x500" byte_ops "[0, 0]" ?d, THEN conjunct2] none by blast
  ultimately show ?thesis by simp
qed

lemma run_loop_append:
  "run_loop ops pe v n xs dm = (dm1, LoopRunning) \<Longrightarrow>
   run_loop ops pe v n (xs @ ys) dm = run_loop ops pe v n ys dm1"
proof (induction xs arbitrary: dm)
  case (Cons x xs)
  obtain kill k where x: "x = (kill, k)" by (cases x)
  show ?case using Cons unfolding x
    by (auto split: if_splits option.splits prod.splits result.splits exit_action.splits)
qed simp

lemma run_loop_append_ended:
  "run_loop ops pe v n xs dm = (dm1, r) \<Longrightarrow> r \<noteq> LoopRunning \<Longrightarrow>
   run_loop ops pe v n (xs @ ys) dm = (dm1, r)"
proof (induction xs arbitrary: dm)
  case (Cons x xs)
  obtain kill k where x: "x = (kill, k)" by (cases x)
  show ?case using Cons unfolding x
    by (auto split: if_splits option.splits prod.splits result.splits exit_action.splits)
qed simp

text \<open>
  The run loop ends at the first reset request and not later: however long it has been
  running, a write of the reset command to the keyboard controller, the PCI reset port or
  the fast reset port ends the loop without error, leaves every device as it was, and no
  later exit is looked at.
\<close>

lemma run_loop_stops_on_reset:
  assumes "run_loop ops pe v n xs dm = (dm1, LoopRunning)" "is_reboot_io port data" "length data \<le> 8"
  shows "run_loop ops pe v n (xs @ (False, KIoOut port data) # ys) dm = (dm1, LoopOk)"
proof -
  obtain d where "from_slice data = Some d" "as_bytes d = data"
    using from_slice_short [OF assms(3)] by blast
  then show ?thesis
    using run_loop_append [OF assms(1)] assms(2)
    by (simp add: run_once_with_handler_def handle_exit_def)
qed

text \<open>
  Enabling PCI claims exactly the ports 0xCF8 to 0xCFF for the new PCI bus, leaves every
  other port with its owner, and fails when one of the eight ports is already taken, in
  particular when PCI is enabled a second time.
\<close>

lemma enable_pci_claims_ports:
  assumes "bus_wf (dm_pio_bus dm)"
  shows "(case enable_pci p dm of
      (dm', Ok _) \<Rightarrow>
        bus_wf (dm_pio_bus dm') \<and> dm_pci_bus dm' = Some (dm_next dm) \<and>
        dm_devices dm' (dm_next dm) = Healthy p \<and>
        (\<forall>a. route (dm_pio_bus dm') a =
           (if 0xCF8 \<le> unat a \<and> unat a \<le> 0xCFF then Some (dm_next dm, a - 0xCF8)
            else route (dm_pio_bus dm) a)) \<and>
        (\<exists>dm''. enable_pci p dm' = (dm'', Err (Overlap 0xCF8 8)))
    | (dm', Err e) \<Rightarrow>
        dm_pio_bus dm' = dm_pio_bus dm \<and> dm_pci_bus dm' = dm_pci_bus dm \<and>
        (\<exists>a. 0xCF8 \<le> unat a \<and> unat a \<le> 0xCFF \<and> route (dm_pio_bus dm) a \<noteq> None))"
proof -
  have nw: "unat (0xCF8 :: u64) + unat (8 :: u64) < 2 ^ 64" by simp
  note reg = bus.reg_ok_iff [OF assms nw, of "dm_next dm"]
  show ?thesis
  proof (cases "register (dm_pio_bus dm) 0xCF8 8 (dm_next dm)")
    case (Ok b)
    have wf: "bus_wf b" by (rule bus.reg_inv [OF assms nw Ok])
    have rt: "route b a = (if 0xCF8 \<le> unat a \<and> unat a \<le> 0xCFF then Some (dm_next dm, a - 0xCF8)
        else route (dm_pio_bus dm) a)" for a
      using bus.reg_new [OF assms nw Ok, of a] bus.reg_old [OF assms nw Ok, of a] by auto
    have taken: "\<not> is_ok (register b 0xCF8 8 i)" for i
      using bus.reg_ok_iff [OF wf nw, of i] rt [of "0xCF8"] by auto
    have "register b 0xCF8 8 i = Err (Overlap 0xCF8 8)" for i
      using taken [of i] by (auto simp: register_def Let_def split: if_splits)
    then show ?thesis using Ok wf rt by (simp add: enable_pci_def Let_def)
  next
    case (Err e)
    then have "\<exists>a. 0xCF8 \<le> unat a \<and> unat a \<le> 0xCFF \<and> route (dm_pio_bus dm) a \<noteq> None"
      using reg by auto
    then show ?thesis using Err by (simp add: enable_pci_def Let_def)
  qed
qed

end
