(* ===== verification/Rate_Limit.thy ===== *)
theory Rate_Limit
  imports Visor_Prelude
begin

text \<open>
  The token bucket and the disk and network limiters built from it,
  \<^verbatim>\<open>src/crates/visor-vmm/src/rate_limit/{mod,disk,net}.rs\<close>. \<open>Instant::now()\<close> is an argument:
  instants are nanoseconds on a clock, and \<open>duration_since\<close> is zero for a clock that went
  back. Token counts are \<open>u64\<close>; the scaled counts are \<open>u128\<close> in the code and natural numbers
  here, with the saturation of \<open>saturating_add\<close> and \<open>saturating_mul\<close> written out. The other
  products are of a \<open>u64\<close> with \<open>10 ^ 9\<close> and fit.
\<close>

named_theorems bucket_defs \<open>operations of the token bucket\<close>

abbreviation NANOS_PER_SEC :: nat where "NANOS_PER_SEC \<equiv> 1000000000"
abbreviation (input) U128_MAX :: nat where "U128_MAX \<equiv> 340282366920938463463374607431768211455"

datatype rate_limit_error = ExceedsBurst u64 u64

record token_bucket =
  tb_rate :: u64
  tb_burst :: u64
  scaled_tokens :: nat
  last_refill :: nat

section \<open>The token bucket\<close>

definition token_bucket_new :: "nat \<Rightarrow> u64 \<Rightarrow> u64 \<Rightarrow> token_bucket" where
  "token_bucket_new now rate burst = \<lparr>tb_rate = rate, tb_burst = burst,
     scaled_tokens = unat burst * NANOS_PER_SEC, last_refill = now\<rparr>"

definition refill :: "nat \<Rightarrow> token_bucket \<Rightarrow> token_bucket" where
  [bucket_defs]: "refill now b =
     (let elapsed_nanos = now - last_refill b
      in if elapsed_nanos = 0 then b
         else let new_scaled = min U128_MAX (elapsed_nanos * unat (tb_rate b));
                  max_scaled = unat (tb_burst b) * NANOS_PER_SEC
              in b\<lparr>scaled_tokens := min (min U128_MAX (scaled_tokens b + new_scaled)) max_scaled,
                   last_refill := now\<rparr>)"

definition consume :: "nat \<Rightarrow> u64 \<Rightarrow> token_bucket \<Rightarrow> token_bucket \<times> bool" where
  "consume now tokens b =
     (if tokens = 0 then (b, True)
      else let b1 = refill now b; needed = unat tokens * NANOS_PER_SEC
           in if scaled_tokens b1 \<ge> needed
              then (b1\<lparr>scaled_tokens := scaled_tokens b1 - needed\<rparr>, True)
              else (b1, False))"

definition available :: "nat \<Rightarrow> token_bucket \<Rightarrow> token_bucket \<times> u64" where
  "available now b =
     (let b1 = refill now b; whole = scaled_tokens b1 div NANOS_PER_SEC
      in (b1, if whole < 2 ^ 64 then of_nat whole else tb_burst b1))"

definition has :: "nat \<Rightarrow> u64 \<Rightarrow> token_bucket \<Rightarrow> token_bucket \<times> bool" where
  "has now tokens b =
     (let b1 = refill now b in (b1, scaled_tokens b1 \<ge> unat tokens * NANOS_PER_SEC))"

definition force_consume :: "u64 \<Rightarrow> token_bucket \<Rightarrow> token_bucket" where
  "force_consume tokens b =
     b\<lparr>scaled_tokens := scaled_tokens b - unat tokens * NANOS_PER_SEC\<rparr>"

text \<open>
  \<open>wait_for\<close> sleeps between attempts. The environment decides how much later than asked the
  task resumes: \<open>es\<close> lists the overshoot of each sleep in nanoseconds. \<open>WaitPending\<close> means the
  task is still asleep when the list ends; \<open>WaitPanic\<close> is the division by a zero rate.
\<close>

datatype wait_result = WaitOk | WaitErr rate_limit_error | WaitPanic | WaitPending

fun wait_loop :: "nat list \<Rightarrow> nat \<Rightarrow> u64 \<Rightarrow> token_bucket \<Rightarrow> token_bucket \<times> nat \<times> wait_result" where
  "wait_loop es now tokens b =
     (let b1 = refill now b; needed = unat tokens * NANOS_PER_SEC
      in if scaled_tokens b1 \<ge> needed
         then (b1\<lparr>scaled_tokens := scaled_tokens b1 - needed\<rparr>, now, WaitOk)
         else if tb_rate b1 = 0 then (b1, now, WaitPanic)
         else let deficit_scaled = needed - scaled_tokens b1;
                  wait_nanos = deficit_scaled div unat (tb_rate b1);
                  capped = min wait_nanos NANOS_PER_SEC
              in case es of [] \<Rightarrow> (b1, now, WaitPending)
                 | e # es' \<Rightarrow> wait_loop es' (now + capped + e) tokens b1)"

declare wait_loop.simps [simp del]

definition wait_for :: "nat list \<Rightarrow> nat \<Rightarrow> u64 \<Rightarrow> token_bucket \<Rightarrow> token_bucket \<times> nat \<times> wait_result" where
  "wait_for es now tokens b =
     (if tokens = 0 then (b, now, WaitOk)
      else if tokens > tb_burst b then (b, now, WaitErr (ExceedsBurst tokens (tb_burst b)))
      else wait_loop es now tokens b)"

section \<open>The disk limiter\<close>

record disk_rate_limit_config =
  cfg_iops :: "u64 option"
  cfg_bandwidth_bytes :: "u64 option"

record disk_rate_limiter =
  iops_bucket :: "token_bucket option"
  bandwidth_bucket :: "token_bucket option"

definition disk_limiter_new :: "nat \<Rightarrow> disk_rate_limit_config \<Rightarrow> disk_rate_limiter" where
  "disk_limiter_new now config =
     \<lparr>iops_bucket = map_option (\<lambda>rate. token_bucket_new now rate rate) (cfg_iops config),
      bandwidth_bucket = map_option (\<lambda>rate. token_bucket_new now rate rate) (cfg_bandwidth_bytes config)\<rparr>"

text \<open>An absent bucket answers yes; the two readings of the clock may differ.\<close>

definition has_opt :: "nat \<Rightarrow> u64 \<Rightarrow> token_bucket option \<Rightarrow> token_bucket option \<times> bool" where
  "has_opt now tokens ob =
     (case ob of None \<Rightarrow> (None, True) | Some b \<Rightarrow> (case has now tokens b of (b', r) \<Rightarrow> (Some b', r)))"

definition try_io :: "nat \<Rightarrow> nat \<Rightarrow> u64 \<Rightarrow> disk_rate_limiter \<Rightarrow> disk_rate_limiter \<times> bool" where
  "try_io now1 now2 bytes l =
     (case has_opt now1 1 (iops_bucket l) of (ib, iops_ok) \<Rightarrow>
      case has_opt now2 bytes (bandwidth_bucket l) of (bb, bw_ok) \<Rightarrow>
        if iops_ok \<and> bw_ok
        then (l\<lparr>iops_bucket := map_option (force_consume 1) ib,
               bandwidth_bucket := map_option (force_consume bytes) bb\<rparr>, True)
        else (l\<lparr>iops_bucket := ib, bandwidth_bucket := bb\<rparr>, False))"

definition wait_opt ::
  "nat list \<Rightarrow> nat \<Rightarrow> u64 \<Rightarrow> token_bucket option \<Rightarrow> token_bucket option \<times> nat \<times> wait_result" where
  "wait_opt es now tokens ob =
     (case ob of None \<Rightarrow> (None, now, WaitOk)
      | Some b \<Rightarrow> (case wait_for es now tokens b of (b', t, r) \<Rightarrow> (Some b', t, r)))"

definition wait_for_io ::
  "nat list \<Rightarrow> nat list \<Rightarrow> nat \<Rightarrow> u64 \<Rightarrow> disk_rate_limiter \<Rightarrow> disk_rate_limiter \<times> nat \<times> wait_result" where
  "wait_for_io es1 es2 now bytes l =
     (case wait_opt es1 now 1 (iops_bucket l) of (ib, t1, r1) \<Rightarrow>
        let l1 = l\<lparr>iops_bucket := ib\<rparr>
        in if r1 \<noteq> WaitOk then (l1, t1, r1)
           else (case wait_opt es2 t1 bytes (bandwidth_bucket l1) of
                   (bb, t2, r2) \<Rightarrow> (l1\<lparr>bandwidth_bucket := bb\<rparr>, t2, r2)))"

section \<open>The network limiter\<close>

record net_rate_limit_config =
  cfg_rx_bytes :: "u64 option"
  cfg_tx_bytes :: "u64 option"

record net_rate_limiter =
  rx_bucket :: "token_bucket option"
  tx_bucket :: "token_bucket option"

definition net_limiter_new :: "nat \<Rightarrow> net_rate_limit_config \<Rightarrow> net_rate_limiter" where
  "net_limiter_new now config =
     \<lparr>rx_bucket = map_option (\<lambda>rate. token_bucket_new now rate rate) (cfg_rx_bytes config),
      tx_bucket = map_option (\<lambda>rate. token_bucket_new now rate rate) (cfg_tx_bytes config)\<rparr>"

definition consume_opt :: "nat \<Rightarrow> u64 \<Rightarrow> token_bucket option \<Rightarrow> token_bucket option \<times> bool" where
  "consume_opt now tokens ob =
     (case ob of None \<Rightarrow> (None, True) | Some b \<Rightarrow> (case consume now tokens b of (b', r) \<Rightarrow> (Some b', r)))"

definition try_rx :: "nat \<Rightarrow> u64 \<Rightarrow> net_rate_limiter \<Rightarrow> net_rate_limiter \<times> bool" where
  "try_rx now bytes l = (case consume_opt now bytes (rx_bucket l) of (b, r) \<Rightarrow> (l\<lparr>rx_bucket := b\<rparr>, r))"

definition try_tx :: "nat \<Rightarrow> u64 \<Rightarrow> net_rate_limiter \<Rightarrow> net_rate_limiter \<times> bool" where
  "try_tx now bytes l = (case consume_opt now bytes (tx_bucket l) of (b, r) \<Rightarrow> (l\<lparr>tx_bucket := b\<rparr>, r))"

definition wait_for_rx ::
  "nat list \<Rightarrow> nat \<Rightarrow> u64 \<Rightarrow> net_rate_limiter \<Rightarrow> net_rate_limiter \<times> nat \<times> wait_result" where
  "wait_for_rx es now bytes l =
     (case wait_opt es now bytes (rx_bucket l) of (b, t, r) \<Rightarrow> (l\<lparr>rx_bucket := b\<rparr>, t, r))"

definition wait_for_tx ::
  "nat list \<Rightarrow> nat \<Rightarrow> u64 \<Rightarrow> net_rate_limiter \<Rightarrow> net_rate_limiter \<times> nat \<times> wait_result" where
  "wait_for_tx es now bytes l =
     (case wait_opt es now bytes (tx_bucket l) of (b, t, r) \<Rightarrow> (l\<lparr>tx_bucket := b\<rparr>, t, r))"

section \<open>The bucket invariant\<close>

definition bucket_wf :: "token_bucket \<Rightarrow> bool" where
  "bucket_wf b \<longleftrightarrow> scaled_tokens b \<le> unat (tb_burst b) * NANOS_PER_SEC"

lemma bucket_wf_new [simp]: "bucket_wf (token_bucket_new now rate burst)"
  by (simp add: bucket_wf_def token_bucket_new_def)

lemma burst_fits: "unat (x :: u64) * NANOS_PER_SEC \<le> U128_MAX"
proof -
  have "unat x < 2 ^ LENGTH(64)" by (rule unsigned_less)
  then show ?thesis by simp
qed

lemma refill_frame [simp]:
  "tb_rate (refill now b) = tb_rate b" "tb_burst (refill now b) = tb_burst b"
  "last_refill (refill now b) = max now (last_refill b)"
  by (auto simp: refill_def Let_def)

text \<open>The saturations never take effect: refilling adds rate times elapsed time, up to the burst.\<close>

lemma min_saturated: "(m :: nat) \<le> u \<Longrightarrow> min (min u (s + min u x)) m = min (s + x) m"
  by (simp add: min_def)

lemma refill_exact:
  assumes "bucket_wf b"
  shows "scaled_tokens (refill now b) =
    min (scaled_tokens b + (now - last_refill b) * unat (tb_rate b)) (unat (tb_burst b) * NANOS_PER_SEC)"
proof (cases "now - last_refill b = 0")
  case True
  then show ?thesis using assms by (simp add: refill_def bucket_wf_def)
next
  case False
  then show ?thesis
    using min_saturated [OF burst_fits [of "tb_burst b"]] by (simp add: refill_def Let_def)
qed

lemma refill_wf [simp]: "bucket_wf b \<Longrightarrow> bucket_wf (refill now b)"
  by (simp add: bucket_wf_def refill_exact)

lemma refill_mono: "bucket_wf b \<Longrightarrow> scaled_tokens b \<le> scaled_tokens (refill now b)"
  by (simp add: refill_exact bucket_wf_def)

lemma consume_wf: "bucket_wf b \<Longrightarrow> consume now n b = (b', r) \<Longrightarrow> bucket_wf b'"
  using refill_wf [of b now] by (auto simp: consume_def bucket_wf_def Let_def split: if_splits)

lemma consume_frame:
  "consume now n b = (b', r) \<Longrightarrow> tb_rate b' = tb_rate b \<and> tb_burst b' = tb_burst b"
  by (auto simp: consume_def Let_def split: if_splits)

text \<open>
  Conservation: tokens handed out plus tokens left never exceed what was there plus what
  the elapsed time earned.
\<close>

lemma consume_conserves:
  assumes "bucket_wf b" "consume now n b = (b', r)"
  shows "last_refill b \<le> last_refill b' \<and> last_refill b' \<le> max now (last_refill b) \<and>
    (if r then unat n else 0) * NANOS_PER_SEC + scaled_tokens b' \<le>
      scaled_tokens b + (last_refill b' - last_refill b) * unat (tb_rate b)"
proof (cases "n = 0")
  case True
  then show ?thesis using assms(2) by (auto simp: consume_def)
next
  case False
  have "max now (last_refill b) - last_refill b = now - last_refill b" by simp
  then show ?thesis using assms(2) False refill_exact [OF assms(1), of now]
    by (auto simp: consume_def Let_def split: if_splits)
qed

text \<open>A sequence of attempts \<open>(time, tokens)\<close>, with the total granted.\<close>

fun consume_run :: "(nat \<times> u64) list \<Rightarrow> token_bucket \<Rightarrow> token_bucket \<times> nat" where
  "consume_run [] b = (b, 0)"
| "consume_run ((now, n) # rs) b =
     (case consume now n b of (b1, r) \<Rightarrow>
      case consume_run rs b1 of (b2, g) \<Rightarrow> (b2, (if r then unat n else 0) + g))"

lemma consume_run_conserves:
  assumes "bucket_wf b" "consume_run rs b = (b', g)" "\<forall>(t, n) \<in> set rs. t \<le> T" "last_refill b \<le> T"
  shows "last_refill b \<le> last_refill b' \<and> last_refill b' \<le> T \<and>
    g * NANOS_PER_SEC + scaled_tokens b' \<le>
      scaled_tokens b + (last_refill b' - last_refill b) * unat (tb_rate b)"
  using assms
proof (induction rs arbitrary: b b' g)
  case (Cons x rs)
  obtain t n where x: "x = (t, n)" by (cases x)
  obtain b1 r where c: "consume t n b = (b1, r)" by (cases "consume t n b")
  obtain b2 g2 where c2: "consume_run rs b1 = (b2, g2)" by (cases "consume_run rs b1")
  have res: "b' = b2" "g = (if r then unat n else 0) + g2"
    using Cons.prems(2) x c c2 by auto
  note 1 = consume_conserves [OF Cons.prems(1) c]
  have "last_refill b1 \<le> T" using 1 Cons.prems(3,4) x by auto
  then have 2: "last_refill b1 \<le> last_refill b2 \<and> last_refill b2 \<le> T \<and>
      g2 * NANOS_PER_SEC + scaled_tokens b2 \<le>
        scaled_tokens b1 + (last_refill b2 - last_refill b1) * unat (tb_rate b)"
    using Cons.IH [OF consume_wf [OF Cons.prems(1) c] c2] Cons.prems(3) consume_frame [OF c] by simp
  have "(last_refill b1 - last_refill b) * unat (tb_rate b) + (last_refill b2 - last_refill b1) * unat (tb_rate b)
      = (last_refill b2 - last_refill b) * unat (tb_rate b)"
    using 1 2 by (simp add: distrib_right [symmetric])
  then show ?case unfolding res using 1 2 by (auto simp: distrib_right)
qed auto

text \<open>
  C17. Rate conformance: whatever requests are made and at whatever times, the tokens granted
  from a bucket up to time \<open>T\<close> are at most its burst plus the rate times the time elapsed
  since the last refill. Times are in nanoseconds.
\<close>

theorem bucket_rate_conformance:
  assumes "bucket_wf b" "\<forall>(t, n) \<in> set rs. t \<le> T" "last_refill b \<le> T"
  shows "snd (consume_run rs b) * NANOS_PER_SEC \<le>
    unat (tb_burst b) * NANOS_PER_SEC + (T - last_refill b) * unat (tb_rate b)"
proof -
  obtain b' g where run: "consume_run rs b = (b', g)" by (cases "consume_run rs b")
  note c = consume_run_conserves [OF assms(1) run assms(2,3)]
  have "(last_refill b' - last_refill b) * unat (tb_rate b) \<le> (T - last_refill b) * unat (tb_rate b)"
    using c by (intro mult_right_mono) auto
  then have "g * NANOS_PER_SEC \<le> scaled_tokens b + (T - last_refill b) * unat (tb_rate b)"
    using c by linarith
  then show ?thesis using run assms(1) by (simp add: bucket_wf_def)
qed

theorem bucket_rate_conformance_witness:
  "snd (consume_run [(0, 5), (1000000000, 3)] (token_bucket_new 0 2 5)) * NANOS_PER_SEC \<le>
     5 * NANOS_PER_SEC + 1000000000 * 2"
  using bucket_rate_conformance [of "token_bucket_new 0 2 5" "[(0, 5), (1000000000, 3)]" "1000000000"]
  by (simp add: token_bucket_new_def bucket_wf_def)

text \<open>
  A disk request is charged to both buckets or to neither. When it is refused no token
  leaves either bucket; when it is granted one token leaves the operations bucket and one
  per byte leaves the bandwidth bucket, exactly, without the saturating subtraction cutting
  anything off. It is granted exactly when both buckets, after refilling, can pay.
\<close>

definition can_pay :: "nat \<Rightarrow> u64 \<Rightarrow> token_bucket option \<Rightarrow> bool" where
  "can_pay now n ob \<longleftrightarrow>
     (case ob of None \<Rightarrow> True | Some b \<Rightarrow> unat n * NANOS_PER_SEC \<le> scaled_tokens (refill now b))"

definition paid :: "nat \<Rightarrow> u64 \<Rightarrow> token_bucket option \<Rightarrow> token_bucket option \<Rightarrow> bool" where
  "paid now n ob ob' \<longleftrightarrow>
     (case (ob, ob') of (None, None) \<Rightarrow> True
      | (Some b, Some b') \<Rightarrow>
          tb_rate b' = tb_rate b \<and> tb_burst b' = tb_burst b \<and> last_refill b' = max now (last_refill b) \<and>
          scaled_tokens b' + unat n * NANOS_PER_SEC = scaled_tokens (refill now b)
      | _ \<Rightarrow> False)"

theorem try_io_atomic:
  "case try_io t1 t2 bytes l of (l', ok) \<Rightarrow>
     ok = (can_pay t1 1 (iops_bucket l) \<and> can_pay t2 bytes (bandwidth_bucket l)) \<and>
     paid t1 (if ok then 1 else 0) (iops_bucket l) (iops_bucket l') \<and>
     paid t2 (if ok then bytes else 0) (bandwidth_bucket l) (bandwidth_bucket l')"
  by (auto simp: try_io_def has_opt_def has_def force_consume_def can_pay_def paid_def Let_def
      split: option.splits)

lemma deficit_step:
  fixes need s g m x k :: nat
  assumes "need \<le> m" "x \<le> g" "x \<le> need - s" "need - s < Suc k * x"
  shows "need - min (s + g) m < k * x"
proof -
  define y where "y = k * x"
  have "need - s < x + y" using assms(4) by (simp add: y_def)
  then have "need - min (s + g) m < y" using assms(1-3) unfolding min_def by (split if_split) arith
  then show ?thesis by (simp add: y_def)
qed

lemma not_div_less: "\<not> (a :: nat) div r < n \<Longrightarrow> n * r \<le> a"
  by (meson div_times_less_eq_dividend le_trans mult_le_mono1 not_less)

text \<open>
  Each sleep either pays the whole remaining deficit or lasts a full second, so \<open>k\<close> sleeps are
  enough for a deficit below \<open>k\<close> seconds of refill.
\<close>

lemma wait_loop_terminates:
  assumes "bucket_wf b" "tb_rate b \<noteq> 0" "tokens \<le> tb_burst b" "\<forall>e \<in> set es. 0 < e"
    and "unat tokens * NANOS_PER_SEC - scaled_tokens (refill now b) < k * (NANOS_PER_SEC * unat (tb_rate b))"
    and "k \<le> length es" "last_refill b \<le> now"
  shows "\<exists>b' t. wait_loop es now tokens b = (b', t, WaitOk)"
  using assms
proof (induction k arbitrary: es now b)
  case (Suc k)
  let ?b1 = "refill now b" and ?need = "unat tokens * NANOS_PER_SEC"
  let ?w = "(?need - scaled_tokens ?b1) div unat (tb_rate b)"
  have r: "0 < unat (tb_rate b)" using Suc.prems(2) by (simp add: unat_gt_0)
  obtain e es' where es: "es = e # es'" using Suc.prems(6) by (cases es) auto
  show ?case
  proof (cases "scaled_tokens ?b1 \<ge> ?need")
    case True
    then show ?thesis by (subst wait_loop.simps) (simp add: Let_def)
  next
    case False
    let ?t = "now + min ?w NANOS_PER_SEC + e"
    have step: "wait_loop es now tokens b = wait_loop es' ?t tokens ?b1"
      using False Suc.prems(2) by (subst wait_loop.simps) (simp add: Let_def es)
    have wf: "bucket_wf ?b1" using Suc.prems(1) by simp
    have need: "?need \<le> unat (tb_burst b) * NANOS_PER_SEC"
      using Suc.prems(3) by (simp add: word_le_nat_alt)
    have after: "scaled_tokens (refill ?t ?b1) = min (scaled_tokens ?b1 + (min ?w NANOS_PER_SEC + e) * unat (tb_rate b))
        (unat (tb_burst b) * NANOS_PER_SEC)"
      using refill_exact [OF wf, of ?t] Suc.prems(7) by simp
    have e: "1 \<le> e" using Suc.prems(4) es by simp
    show ?thesis
    proof (cases "?w < NANOS_PER_SEC")
      case True
      have "?need - scaled_tokens ?b1 < (?w + 1) * unat (tb_rate b)"
        using r by (metis Suc_eq_plus1 dividend_less_times_div mult.commute mult_Suc_right)
      also have "\<dots> \<le> (min ?w NANOS_PER_SEC + e) * unat (tb_rate b)"
        using True e by (intro mult_right_mono) auto
      finally have "?need \<le> scaled_tokens (refill ?t ?b1)"
        unfolding after using need by linarith
      then show ?thesis unfolding step by (subst wait_loop.simps) (simp add: Let_def)
    next
      case w: False
      then have "NANOS_PER_SEC * unat (tb_rate b) \<le> ?need - scaled_tokens ?b1"
        by (rule not_div_less)
      moreover have "NANOS_PER_SEC * unat (tb_rate b) \<le> (min ?w NANOS_PER_SEC + e) * unat (tb_rate b)"
        using w by (intro mult_right_mono) auto
      ultimately have "?need - scaled_tokens (refill ?t ?b1) < k * (NANOS_PER_SEC * unat (tb_rate b))"
        unfolding after using Suc.prems(5) need by (intro deficit_step) simp_all
      then show ?thesis
        unfolding step using Suc.IH [OF wf, of es' ?t] Suc.prems es by simp
    qed
  qed
qed simp

text \<open>
  Waiting ends. For a bucket with a positive rate and a request within the burst, if every
  sleep lasts at least as long as asked and the clock has moved when it returns, \<open>wait_for\<close>
  returns success after at most one sleep more than the whole seconds of refill the request
  is short of. A request above the burst is refused at once, without consuming anything.
\<close>

lemma wait_for_returns:
  assumes "bucket_wf b" "tb_rate b \<noteq> 0" "\<forall>e \<in> set es. 0 < e" "last_refill b \<le> now"
    "unat tokens * NANOS_PER_SEC div (NANOS_PER_SEC * unat (tb_rate b)) < length es"
  shows "if tokens \<le> tb_burst b then \<exists>b' t. wait_for es now tokens b = (b', t, WaitOk)
    else wait_for es now tokens b = (b, now, WaitErr (ExceedsBurst tokens (tb_burst b)))"
proof (cases "tokens \<le> tb_burst b")
  case True
  let ?k = "unat tokens * NANOS_PER_SEC div (NANOS_PER_SEC * unat (tb_rate b)) + 1"
  have "0 < NANOS_PER_SEC * unat (tb_rate b)" using assms(2) by (simp add: unat_gt_0)
  then have "unat tokens * NANOS_PER_SEC < ?k * (NANOS_PER_SEC * unat (tb_rate b))"
    by (metis Suc_eq_plus1 dividend_less_times_div mult.commute mult_Suc_right)
  then have "unat tokens * NANOS_PER_SEC - scaled_tokens (refill now b) < ?k * (NANOS_PER_SEC * unat (tb_rate b))"
    by linarith
  from wait_loop_terminates [OF assms(1,2) True assms(3) this _ assms(4)] assms(5) True
  show ?thesis by (auto simp: wait_for_def)
next
  case False
  then have "tokens \<noteq> 0" by (metis word_zero_le)
  with False show ?thesis by (simp add: wait_for_def not_le)
qed

end
