(* ===== verification/Uart.thy ===== *)
theory Uart
  imports Io_Bus
begin

text \<open>
  The 16550 emulator and the serial device around it,
  \<^verbatim>\<open>src/crates/visor-vmm/src/devices/{uart,serial}.rs\<close>. The output sink and the interrupt
  event are host objects whose errors the code ignores: \<open>u_output\<close> is the sequence of bytes
  handed to the sink and \<open>u_irqs\<close> counts the triggers.
\<close>

section \<open>State\<close>

abbreviation (input) FIFO_SIZE :: nat where "FIFO_SIZE \<equiv> 64"
abbreviation (input) IER_RDA_BIT :: u8 where "IER_RDA_BIT \<equiv> 0x01"
abbreviation (input) IER_THR_EMPTY_BIT :: u8 where "IER_THR_EMPTY_BIT \<equiv> 0x02"
abbreviation (input) IER_VALID_BITS :: u8 where "IER_VALID_BITS \<equiv> 0x0F"
abbreviation (input) IIR_FIFO_BITS :: u8 where "IIR_FIFO_BITS \<equiv> 0xC0"
abbreviation (input) IIR_NONE_BIT :: u8 where "IIR_NONE_BIT \<equiv> 0x01"
abbreviation (input) IIR_THR_EMPTY_BIT :: u8 where "IIR_THR_EMPTY_BIT \<equiv> 0x02"
abbreviation (input) IIR_RDA_BIT :: u8 where "IIR_RDA_BIT \<equiv> 0x04"
abbreviation (input) LSR_DATA_READY_BIT :: u8 where "LSR_DATA_READY_BIT \<equiv> 0x01"
abbreviation (input) DEFAULT_LINE_STATUS :: u8 where "DEFAULT_LINE_STATUS \<equiv> 0x60"
abbreviation (input) MCR_LOOP_BIT :: u8 where "MCR_LOOP_BIT \<equiv> 0x10"

record uart =
  interrupt_enable :: u8
  interrupt_identification :: u8
  line_control :: u8
  modem_control :: u8
  line_status :: u8
  modem_status :: u8
  scratch :: u8
  baud_divisor_low :: u8
  baud_divisor_high :: u8
  in_buffer :: "u8 list"
  u_output :: "u8 list"
  u_irqs :: nat

definition uart_new :: uart where
  "uart_new = \<lparr>interrupt_enable = 0, interrupt_identification = IIR_NONE_BIT, line_control = 0x03,
     modem_control = 0x08, line_status = DEFAULT_LINE_STATUS, modem_status = 0xB0, scratch = 0,
     baud_divisor_low = 0x0C, baud_divisor_high = 0, in_buffer = [], u_output = [], u_irqs = 0\<rparr>"

section \<open>Operations\<close>

definition is_dlab_set :: "uart \<Rightarrow> bool" where
  "is_dlab_set u \<longleftrightarrow> line_control u AND 0x80 \<noteq> 0"

definition is_rda_interrupt_enabled :: "uart \<Rightarrow> bool" where
  "is_rda_interrupt_enabled u \<longleftrightarrow> interrupt_enable u AND IER_RDA_BIT \<noteq> 0"

definition is_thr_interrupt_enabled :: "uart \<Rightarrow> bool" where
  "is_thr_interrupt_enabled u \<longleftrightarrow> interrupt_enable u AND IER_THR_EMPTY_BIT \<noteq> 0"

definition is_in_loop_mode :: "uart \<Rightarrow> bool" where
  "is_in_loop_mode u \<longleftrightarrow> modem_control u AND MCR_LOOP_BIT \<noteq> 0"

definition set_lsr_rda_bit :: "uart \<Rightarrow> uart" where
  "set_lsr_rda_bit u = u\<lparr>line_status := line_status u OR LSR_DATA_READY_BIT\<rparr>"

definition clear_lsr_rda_bit :: "uart \<Rightarrow> uart" where
  "clear_lsr_rda_bit u = u\<lparr>line_status := line_status u AND NOT LSR_DATA_READY_BIT\<rparr>"

definition add_interrupt :: "u8 \<Rightarrow> uart \<Rightarrow> uart" where
  "add_interrupt bits u =
     u\<lparr>interrupt_identification := (interrupt_identification u AND NOT IIR_NONE_BIT) OR bits\<rparr>"

definition del_interrupt :: "u8 \<Rightarrow> uart \<Rightarrow> uart" where
  "del_interrupt bits u =
     (let i = interrupt_identification u AND NOT bits
      in u\<lparr>interrupt_identification := (if i = 0 then IIR_NONE_BIT else i)\<rparr>)"

definition trigger_irq :: "uart \<Rightarrow> uart" where
  "trigger_irq u = u\<lparr>u_irqs := u_irqs u + 1\<rparr>"

definition thr_empty_interrupt :: "uart \<Rightarrow> uart" where
  "thr_empty_interrupt u =
     (if is_thr_interrupt_enabled u \<and> interrupt_identification u AND IIR_THR_EMPTY_BIT = 0
      then trigger_irq (add_interrupt IIR_THR_EMPTY_BIT u) else u)"

definition received_data_interrupt :: "uart \<Rightarrow> uart" where
  "received_data_interrupt u =
     (if is_rda_interrupt_enabled u \<and> interrupt_identification u AND IIR_RDA_BIT = 0
      then trigger_irq (add_interrupt IIR_RDA_BIT u) else u)"

definition reset_iir :: "uart \<Rightarrow> uart" where
  "reset_iir u = u\<lparr>interrupt_identification := IIR_NONE_BIT\<rparr>"

definition read_rbr :: "uart \<Rightarrow> uart \<times> u8" where
  "read_rbr u =
     (let u1 = del_interrupt IIR_RDA_BIT u;
          byte = (case in_buffer u1 of [] \<Rightarrow> 0 | b # _ \<Rightarrow> b);
          u2 = u1\<lparr>in_buffer := tl (in_buffer u1)\<rparr>
      in (if in_buffer u2 = [] then clear_lsr_rda_bit u2 else u2, byte))"

definition uart_read :: "u8 \<Rightarrow> uart \<Rightarrow> uart \<times> u8" where
  "uart_read offset u =
     (if offset = 0 then if is_dlab_set u then (u, baud_divisor_low u) else read_rbr u
      else if offset = 1 then (u, if is_dlab_set u then baud_divisor_high u else interrupt_enable u)
      else if offset = 2 then (reset_iir u, interrupt_identification u OR IIR_FIFO_BITS)
      else if offset = 3 then (u, line_control u)
      else if offset = 4 then (u, modem_control u)
      else if offset = 5 then (u, line_status u)
      else if offset = 6 then (u, modem_status u)
      else if offset = 7 then (u, scratch u)
      else (u, 0))"

definition write_thr :: "u8 \<Rightarrow> uart \<Rightarrow> uart" where
  "write_thr val u =
     (if is_in_loop_mode u
      then if length (in_buffer u) < FIFO_SIZE
           then received_data_interrupt (set_lsr_rda_bit (u\<lparr>in_buffer := in_buffer u @ [val]\<rparr>))
           else u
      else thr_empty_interrupt (u\<lparr>u_output := u_output u @ [val]\<rparr>))"

definition uart_write :: "u8 \<Rightarrow> u8 \<Rightarrow> uart \<Rightarrow> uart" where
  "uart_write offset val u =
     (if offset = 0 then if is_dlab_set u then u\<lparr>baud_divisor_low := val\<rparr> else write_thr val u
      else if offset = 1
      then if is_dlab_set u then u\<lparr>baud_divisor_high := val\<rparr>
           else u\<lparr>interrupt_enable := val AND IER_VALID_BITS\<rparr>
      else if offset = 3 then u\<lparr>line_control := val\<rparr>
      else if offset = 4 then u\<lparr>modem_control := val\<rparr>
      else if offset = 7 then u\<lparr>scratch := val\<rparr>
      else u)"

definition enqueue_raw_bytes :: "u8 list \<Rightarrow> uart \<Rightarrow> uart \<times> nat option" where
  "enqueue_raw_bytes input u =
     (if is_in_loop_mode u then (u, Some 0)
      else if input = [] then (u, Some 0)
      else let capacity = FIFO_SIZE - length (in_buffer u)
           in if capacity = 0 then (u, None)
              else let count = min capacity (length input)
                   in (received_data_interrupt (set_lsr_rda_bit
                         (u\<lparr>in_buffer := in_buffer u @ take count input\<rparr>)), Some count))"

definition enqueue_rx :: "u8 \<Rightarrow> uart \<Rightarrow> uart" where
  "enqueue_rx byte u = fst (enqueue_raw_bytes [byte] u)"

definition fifo_capacity :: "uart \<Rightarrow> nat" where
  "fifo_capacity u = FIFO_SIZE - length (in_buffer u)"

text \<open>The serial device forwards single-byte accesses at offsets that fit a \<open>u8\<close>.\<close>

definition serial_read :: "u64 \<Rightarrow> u8 list \<Rightarrow> uart \<Rightarrow> uart \<times> u8 list" where
  "serial_read offset data u =
     (if length data \<noteq> 1 then (u, data)
      else if offset \<le> 0xFF then (case uart_read (ucast offset) u of (u', b) \<Rightarrow> (u', [b]))
      else (u, data))"

definition serial_write :: "u64 \<Rightarrow> u8 list \<Rightarrow> uart \<Rightarrow> uart" where
  "serial_write offset data u =
     (if length data \<noteq> 1 then u
      else if offset \<le> 0xFF then uart_write (ucast offset) (hd data) u
      else u)"

definition serial_bus_ops :: "uart bus_ops" where
  "serial_bus_ops = \<lparr>bus_dev_read = serial_read, bus_dev_write = serial_write\<rparr>"

section \<open>Invariant\<close>

text \<open>
  The receive FIFO stays within its size, the data-ready bit of the line status says exactly
  whether it holds data while the transmitter always reports empty, the interrupt
  identification is one of the four encodings, and only valid interrupts are enabled.
\<close>

definition uart_wf :: "uart \<Rightarrow> bool" where
  "uart_wf u \<longleftrightarrow>
     length (in_buffer u) \<le> FIFO_SIZE \<and>
     line_status u = (if in_buffer u = [] then 0x60 else 0x61) \<and>
     interrupt_identification u \<in> {1, 2, 4, 6} \<and>
     interrupt_enable u AND NOT IER_VALID_BITS = 0"

lemmas uart_helper_defs =
  set_lsr_rda_bit_def clear_lsr_rda_bit_def add_interrupt_def del_interrupt_def trigger_irq_def
  reset_iir_def Let_def

lemma uart_wf_new: "uart_wf uart_new"
  by (simp add: uart_wf_def uart_new_def)

lemma thr_empty_wf: "uart_wf u \<Longrightarrow> uart_wf (thr_empty_interrupt u)"
  by (auto simp: thr_empty_interrupt_def uart_wf_def uart_helper_defs)

lemma received_data_frame [simp]:
  "in_buffer (received_data_interrupt u) = in_buffer u"
  "u_output (received_data_interrupt u) = u_output u"
  "in_buffer (thr_empty_interrupt u) = in_buffer u"
  "u_output (thr_empty_interrupt u) = u_output u"
  by (simp_all add: received_data_interrupt_def thr_empty_interrupt_def uart_helper_defs)

lemma received_data_wf: "uart_wf u \<Longrightarrow> uart_wf (received_data_interrupt u)"
  by (auto simp: received_data_interrupt_def uart_wf_def uart_helper_defs)

lemma push_wf:
  assumes "uart_wf u" "bs \<noteq> []" "length (in_buffer u) + length bs \<le> FIFO_SIZE"
  shows "uart_wf (set_lsr_rda_bit (u\<lparr>in_buffer := in_buffer u @ bs\<rparr>))"
  using assms by (auto simp: uart_wf_def uart_helper_defs)

lemma read_rbr_wf: "uart_wf u \<Longrightarrow> uart_wf (fst (read_rbr u))"
  by (auto simp: read_rbr_def uart_wf_def uart_helper_defs split: list.splits)

lemma uart_read_wf: "uart_wf u \<Longrightarrow> uart_wf (fst (uart_read off u))"
  using read_rbr_wf [of u] by (auto simp: uart_read_def uart_wf_def reset_iir_def)

lemma write_thr_wf: "uart_wf u \<Longrightarrow> uart_wf (write_thr v u)"
  using push_wf [of u "[v]"] thr_empty_wf [of "u\<lparr>u_output := u_output u @ [v]\<rparr>"]
  by (auto simp: write_thr_def uart_wf_def [of "u\<lparr>u_output := _\<rparr>"] uart_wf_def [of u]
      intro: received_data_wf)

lemma uart_write_wf: "uart_wf u \<Longrightarrow> uart_wf (uart_write off v u)"
  using write_thr_wf [of u v] by (auto simp: uart_write_def uart_wf_def and.assoc)

lemma enqueue_wf:
  assumes "uart_wf u"
  shows "uart_wf (fst (enqueue_raw_bytes bs u))"
proof -
  let ?bs = "take (min (64 - length (in_buffer u)) (length bs)) bs"
  have "uart_wf (set_lsr_rda_bit (u\<lparr>in_buffer := in_buffer u @ ?bs\<rparr>))"
    if "bs \<noteq> []" "64 - length (in_buffer u) \<noteq> 0"
    using push_wf [OF assms, of ?bs] that by simp
  then show ?thesis using assms
    by (simp add: enqueue_raw_bytes_def Let_def received_data_wf)
qed

section \<open>Runs\<close>

text \<open>
  The operations the guest and the host perform, with what each accepts into the receive
  FIFO, hands to the guest, and transmits.
\<close>

datatype uart_op = Guest_Read u8 | Guest_Write u8 u8 | Host_Input "u8 list"

primrec uart_step :: "uart_op \<Rightarrow> uart \<Rightarrow> uart" where
  "uart_step (Guest_Read off) u = fst (uart_read off u)"
| "uart_step (Guest_Write off v) u = uart_write off v u"
| "uart_step (Host_Input bs) u = fst (enqueue_raw_bytes bs u)"

primrec accepted :: "uart_op \<Rightarrow> uart \<Rightarrow> u8 list" where
  "accepted (Guest_Read off) u = []"
| "accepted (Guest_Write off v) u =
     (if off = 0 \<and> \<not> is_dlab_set u \<and> is_in_loop_mode u \<and> length (in_buffer u) < FIFO_SIZE then [v] else [])"
| "accepted (Host_Input bs) u =
     (case snd (enqueue_raw_bytes bs u) of None \<Rightarrow> [] | Some n \<Rightarrow> take n bs)"

primrec delivered :: "uart_op \<Rightarrow> uart \<Rightarrow> u8 list" where
  "delivered (Guest_Read off) u =
     (if off = 0 \<and> \<not> is_dlab_set u \<and> in_buffer u \<noteq> [] then [snd (uart_read off u)] else [])"
| "delivered (Guest_Write off v) u = []"
| "delivered (Host_Input bs) u = []"

primrec transmitted :: "uart_op \<Rightarrow> uart \<Rightarrow> u8 list" where
  "transmitted (Guest_Read off) u = []"
| "transmitted (Guest_Write off v) u =
     (if off = 0 \<and> \<not> is_dlab_set u \<and> \<not> is_in_loop_mode u then [v] else [])"
| "transmitted (Host_Input bs) u = []"

fun uart_run :: "uart_op list \<Rightarrow> uart \<Rightarrow> uart \<times> u8 list \<times> u8 list \<times> u8 list" where
  "uart_run [] u = (u, [], [], [])"
| "uart_run (x # xs) u =
     (case uart_run xs (uart_step x u) of (u', acc, del, tx) \<Rightarrow>
        (u', accepted x u @ acc, delivered x u @ del, transmitted x u @ tx))"

lemma uart_step_fifo: "in_buffer u @ accepted x u = delivered x u @ in_buffer (uart_step x u)"
proof (cases x)
  case (Guest_Read off)
  then show ?thesis
    by (auto simp: uart_read_def read_rbr_def uart_helper_defs neq_Nil_conv split: list.splits)
next
  case (Guest_Write off v)
  then show ?thesis by (simp add: uart_write_def write_thr_def set_lsr_rda_bit_def)
next
  case (Host_Input bs)
  then show ?thesis by (simp add: enqueue_raw_bytes_def Let_def set_lsr_rda_bit_def)
qed

lemma uart_step_output: "u_output (uart_step x u) = u_output u @ transmitted x u"
proof (cases x)
  case (Guest_Read off)
  then show ?thesis by (simp add: uart_read_def read_rbr_def uart_helper_defs)
next
  case (Guest_Write off v)
  then show ?thesis by (simp add: uart_write_def write_thr_def set_lsr_rda_bit_def)
next
  case (Host_Input bs)
  then show ?thesis by (simp add: enqueue_raw_bytes_def Let_def set_lsr_rda_bit_def)
qed

lemma uart_step_wf: "uart_wf u \<Longrightarrow> uart_wf (uart_step x u)"
  by (cases x) (simp_all add: uart_read_wf uart_write_wf enqueue_wf)

section \<open>Properties\<close>

text \<open>
  Whatever the guest reads and writes and whatever the host types, the receive FIFO never
  holds more than 64 bytes, the line status reports data ready exactly when it holds some and
  always reports the transmitter empty, the interrupt identification is a legal encoding, and
  only the four valid interrupt enables are set.
\<close>

lemma uart_invariant: "uart_wf (fst (uart_run xs uart_new))"
proof -
  have "uart_wf u \<Longrightarrow> uart_wf (fst (uart_run xs u))" for u
  proof (induction xs arbitrary: u)
    case (Cons x xs)
    then show ?case using Cons.IH [OF uart_step_wf [OF Cons.prems], of x]
      by (auto split: prod.splits)
  qed simp
  then show ?thesis using uart_wf_new by blast
qed

text \<open>
  C22. The serial line neither loses, duplicates nor reorders bytes. Over any run, the bytes
  accepted from the host (and from loopback writes) are, in order, the bytes the guest has
  read from the receive register followed by the bytes still in the FIFO; and the bytes handed
  to the output sink are, in order, the bytes the guest wrote to the transmit register.
\<close>

theorem uart_streams:
  "case uart_run xs uart_new of (u, acc, del, tx) \<Rightarrow> acc = del @ in_buffer u \<and> u_output u = tx"
proof -
  have "case uart_run xs u of (u', acc, del, tx) \<Rightarrow>
      in_buffer u @ acc = del @ in_buffer u' \<and> u_output u' = u_output u @ tx" for u
  proof (induction xs arbitrary: u)
    case (Cons x xs)
    show ?case
      using Cons.IH [of "uart_step x u"] uart_step_fifo [of u x] uart_step_output [of x u]
      by (auto split: prod.splits) (metis append.assoc)
  qed simp
  from this [of uart_new] show ?thesis by (simp add: uart_new_def)
qed

text \<open>
  Host input is accepted up to the free space of the FIFO, in order, and the caller is
  told how many bytes were taken, \<open>None\<close> exactly when the FIFO is full. The interrupt line is
  triggered at most once, exactly when something was accepted, receive interrupts are enabled
  and none is pending; afterwards an enabled receive interrupt is pending.
\<close>

lemma uart_enqueue_exact:
  assumes "\<not> is_in_loop_mode u" "bs \<noteq> []" "length (in_buffer u) \<le> FIFO_SIZE"
  shows "case enqueue_raw_bytes bs u of (u', r) \<Rightarrow>
    (r = None \<longleftrightarrow> fifo_capacity u = 0) \<and>
    in_buffer u' = in_buffer u @ take (fifo_capacity u) bs \<and>
    (\<forall>n. r = Some n \<longrightarrow> n = min (fifo_capacity u) (length bs) \<and>
       u_irqs u' = u_irqs u +
         (if is_rda_interrupt_enabled u \<and> interrupt_identification u AND IIR_RDA_BIT = 0 then 1 else 0) \<and>
       (is_rda_interrupt_enabled u \<longrightarrow> interrupt_identification u' AND IIR_RDA_BIT \<noteq> 0))"
  using assms
  by (auto simp: enqueue_raw_bytes_def fifo_capacity_def received_data_interrupt_def
      is_rda_interrupt_enabled_def uart_helper_defs bit.conj_disj_distrib2 min_def)

end
