(* ===== verification/Vsock_Packet.thy ===== *)
theory Vsock_Packet
  imports Visor_Prelude
begin

text \<open>
  The 44-byte vsock packet header and its operation codes, from
  \<^verbatim>\<open>src/crates/visor-vmm/src/devices/vsock.rs\<close>. The locale \<open>wire_codec\<close> is what a user of a
  fixed-size wire format relies on.
\<close>

section \<open>Fixed-size wire formats\<close>

locale wire_codec =
  fixes enc :: "'a \<Rightarrow> u8 list" and dec :: "u8 list \<Rightarrow> 'a option" and n :: nat
  assumes enc_length: "length (enc x) = n"
    and dec_enc: "dec (enc x) = Some x"
    and dec_short: "length bs < n \<Longrightarrow> dec bs = None"
    and dec_prefix: "n \<le> length bs \<Longrightarrow> dec bs = dec (take n bs)"
    and enc_dec: "length bs = n \<Longrightarrow> dec bs = Some x \<Longrightarrow> enc x = bs"
    and dec_total: "length bs = n \<Longrightarrow> dec bs \<noteq> None"
begin

lemma enc_inject: "enc x = enc y \<longleftrightarrow> x = y"
  by (metis dec_enc option.inject)

lemma dec_enc_append: "dec (enc x @ rest) = Some x"
  using dec_prefix [of "enc x @ rest"] by (simp add: enc_length dec_enc)

lemma dec_Some_iff: "dec bs = Some x \<longleftrightarrow> n \<le> length bs \<and> take n bs = enc x"
proof
  assume d: "dec bs = Some x"
  then have l: "n \<le> length bs" using dec_short [of bs] by (cases "length bs < n") auto
  then show "n \<le> length bs \<and> take n bs = enc x"
    using d enc_dec [of "take n bs" x] dec_prefix [OF l] by simp
next
  assume "n \<le> length bs \<and> take n bs = enc x"
  then show "dec bs = Some x" using dec_prefix [of bs] dec_enc [of x] by simp
qed

end

section \<open>Operations\<close>

datatype vsock_op = OpRequest | OpResponse | OpRst | OpShutdown | OpRw | OpCreditUpdate | OpCreditRequest

primrec op_code :: "vsock_op \<Rightarrow> u16" where
  "op_code OpRequest = 1"
| "op_code OpResponse = 2"
| "op_code OpRst = 3"
| "op_code OpShutdown = 4"
| "op_code OpRw = 5"
| "op_code OpCreditUpdate = 6"
| "op_code OpCreditRequest = 7"

definition op_from_u16 :: "u16 \<Rightarrow> vsock_op option" where
  "op_from_u16 v =
     (if v = 1 then Some OpRequest
      else if v = 2 then Some OpResponse
      else if v = 3 then Some OpRst
      else if v = 4 then Some OpShutdown
      else if v = 5 then Some OpRw
      else if v = 6 then Some OpCreditUpdate
      else if v = 7 then Some OpCreditRequest
      else None)"

lemma op_from_code [simp]: "op_from_u16 (op_code x) = Some x"
  by (cases x) (simp_all add: op_from_u16_def)

lemma op_code_from: "op_from_u16 v = Some x \<Longrightarrow> v = op_code x"
  by (auto simp: op_from_u16_def split: if_splits)

section \<open>Packet headers\<close>

abbreviation (input) VSOCK_PKT_HDR_SIZE :: nat where "VSOCK_PKT_HDR_SIZE \<equiv> 44"

record vsock_packet =
  p_src_cid :: u64
  p_dst_cid :: u64
  p_src_port :: u32
  p_dst_port :: u32
  p_len :: u32
  p_type :: u16
  p_op :: u16
  p_flags :: u32
  p_buf_alloc :: u32
  p_fwd_cnt :: u32

definition pkt_from_bytes :: "u8 list \<Rightarrow> vsock_packet option" where
  "pkt_from_bytes buf =
     (if length buf < VSOCK_PKT_HDR_SIZE then None
      else Some \<lparr>p_src_cid = le_word (slice 0 8 buf), p_dst_cid = le_word (slice 8 8 buf),
        p_src_port = le_word (slice 16 4 buf), p_dst_port = le_word (slice 20 4 buf),
        p_len = le_word (slice 24 4 buf), p_type = le_word (slice 28 2 buf),
        p_op = le_word (slice 30 2 buf), p_flags = le_word (slice 32 4 buf),
        p_buf_alloc = le_word (slice 36 4 buf), p_fwd_cnt = le_word (slice 40 4 buf)\<rparr>)"

definition pkt_to_bytes :: "vsock_packet \<Rightarrow> u8 list" where
  "pkt_to_bytes p =
     le_bytes 8 (p_src_cid p) @ le_bytes 8 (p_dst_cid p) @ le_bytes 4 (p_src_port p) @
     le_bytes 4 (p_dst_port p) @ le_bytes 4 (p_len p) @ le_bytes 2 (p_type p) @
     le_bytes 2 (p_op p) @ le_bytes 4 (p_flags p) @ le_bytes 4 (p_buf_alloc p) @
     le_bytes 4 (p_fwd_cnt p)"

lemma length_pkt_to_bytes [simp]: "length (pkt_to_bytes p) = VSOCK_PKT_HDR_SIZE"
  by (simp add: pkt_to_bytes_def)

lemma pkt_decode_encode: "pkt_from_bytes (pkt_to_bytes p) = Some p"
  by (simp add: pkt_from_bytes_def pkt_to_bytes_def slice_def)

lemma slice_drop: "k = i + n \<Longrightarrow> slice i n xs @ drop k xs = drop i xs"
  by (metis append_take_drop_id drop_drop add.commute slice_def)

lemma pkt_encode_decode:
  assumes "length bs = VSOCK_PKT_HDR_SIZE" "pkt_from_bytes bs = Some p"
  shows "pkt_to_bytes p = bs"
proof -
  have "pkt_to_bytes p = slice 0 8 bs @ slice 8 8 bs @ slice 16 4 bs @ slice 20 4 bs @ slice 24 4 bs @
      slice 28 2 bs @ slice 30 2 bs @ slice 32 4 bs @ slice 36 4 bs @ slice 40 4 bs"
    using assms by (auto simp: pkt_from_bytes_def pkt_to_bytes_def le_bytes_le_word split: if_splits)
  also have "slice 40 4 bs = drop 40 bs" using assms(1) by (simp add: slice_def)
  finally show ?thesis by (simp add: slice_drop)
qed

interpretation vsock_hdr: wire_codec pkt_to_bytes pkt_from_bytes VSOCK_PKT_HDR_SIZE
proof (unfold_locales, goal_cases)
  case (4 bs)
  have "slice i n (take 44 bs) = slice i n bs" if "i + n \<le> 44" for i n
    using that by (simp add: slice_def drop_take min_def)
  with 4 show ?case by (simp add: pkt_from_bytes_def)
qed (simp_all add: pkt_decode_encode pkt_encode_decode, simp_all add: pkt_from_bytes_def)

text \<open>
  C35. The header codec is exact in both directions: encoding a header gives 44 bytes from
  which, whatever follows them, the same header is read back; and decoding succeeds exactly on
  buffers of at least 44 bytes, with a header whose encoding is the first 44 bytes read.
\<close>

theorem vsock_header_roundtrip:
  "length (pkt_to_bytes p) = VSOCK_PKT_HDR_SIZE \<and>
   pkt_from_bytes (pkt_to_bytes p @ rest) = Some p \<and>
   (pkt_from_bytes bs = Some p \<longleftrightarrow> VSOCK_PKT_HDR_SIZE \<le> length bs \<and> take VSOCK_PKT_HDR_SIZE bs = pkt_to_bytes p) \<and>
   (pkt_from_bytes bs = None \<longleftrightarrow> length bs < VSOCK_PKT_HDR_SIZE)"
  using vsock_hdr.dec_enc_append [of p rest] vsock_hdr.dec_Some_iff [of bs p]
  by (auto simp: pkt_from_bytes_def [of bs])

end
