(* ===== verification/Vsock_Tx_Buf.thy ===== *)
theory Vsock_Tx_Buf
  imports Virt_Queue
begin

text \<open>
  The ring buffer \<open>TxBuf\<close> of \<^verbatim>\<open>src/crates/visor-vmm/src/devices/vsock.rs\<close>, which holds guest
  data on its way to the host. Positions are wrapping 32-bit counters over a storage of
  64 KiB that is allocated on the first push. The locale \<open>byte_fifo\<close> states what a bounded
  byte queue promises; the ring buffer implements it through the abstraction \<open>tx_contents\<close>.
\<close>

section \<open>Bounded byte queues\<close>

locale byte_fifo =
  fixes contents :: "'b \<Rightarrow> u8 list" and inv :: "'b \<Rightarrow> bool"
    and push :: "'b \<Rightarrow> u8 list \<Rightarrow> ('b, 'e) result" and pop :: "nat \<Rightarrow> 'b \<Rightarrow> 'b"
    and cap :: nat
  assumes push_inv: "inv b \<Longrightarrow> push b src = Ok b' \<Longrightarrow> inv b'"
    and push_contents: "inv b \<Longrightarrow> push b src = Ok b' \<Longrightarrow> contents b' = contents b @ src"
    and push_ok_iff: "inv b \<Longrightarrow> is_ok (push b src) \<longleftrightarrow> length (contents b) + length src \<le> cap"
    and pop_inv: "inv b \<Longrightarrow> k \<le> length (contents b) \<Longrightarrow> inv (pop k b)"
    and pop_contents: "inv b \<Longrightarrow> k \<le> length (contents b) \<Longrightarrow> contents (pop k b) = drop k (contents b)"
begin

lemma push_bounded: "inv b \<Longrightarrow> push b src = Ok b' \<Longrightarrow> length (contents b') \<le> cap"
  using push_ok_iff [of b src] push_contents [of b src b'] by simp

lemma push_pop_all:
  "inv b \<Longrightarrow> contents b = [] \<Longrightarrow> push b src = Ok b' \<Longrightarrow> contents (pop (length src) b') = []"
  by (simp add: pop_contents push_inv push_contents)

end

section \<open>The ring buffer\<close>

abbreviation CONN_TX_BUF_SIZE :: nat where "CONN_TX_BUF_SIZE \<equiv> 65536"

datatype vsock_error =
    TxBufFull
  | TxBufFlush
  | NoData
  | VsockMemory memory_error
  | VsockInvalidDescriptor desc_problem

record tx_buf =
  tx_data :: "u8 list option"
  tx_head :: u32
  tx_tail :: u32

definition tx_buf_new :: tx_buf where
  "tx_buf_new = \<lparr>tx_data = None, tx_head = 0, tx_tail = 0\<rparr>"

definition tx_len :: "tx_buf \<Rightarrow> nat" where
  "tx_len b = unat (tx_head b - tx_tail b)"

definition tx_is_empty :: "tx_buf \<Rightarrow> bool" where
  "tx_is_empty b \<longleftrightarrow> tx_len b = 0"

definition tx_push :: "tx_buf \<Rightarrow> u8 list \<Rightarrow> (tx_buf, vsock_error) result" where
  "tx_push b src =
     (if tx_len b + length src > CONN_TX_BUF_SIZE then Err TxBufFull
      else let data = (case tx_data b of None \<Rightarrow> replicate CONN_TX_BUF_SIZE 0 | Some d \<Rightarrow> d);
               head_ofs = unat (tx_head b) mod CONN_TX_BUF_SIZE;
               first_len = min (CONN_TX_BUF_SIZE - head_ofs) (length src);
               data1 = splice_at head_ofs (take first_len src) data;
               data2 = (if first_len < length src then splice_at 0 (drop first_len src) data1 else data1)
           in Ok (b\<lparr>tx_data := Some data2, tx_head := tx_head b + u32_sat (length src)\<rparr>))"

text \<open>
  A writer, as \<open>std::io::Write\<close> lets it behave: each call either fails or takes some prefix of
  the slice. The script gives the answers (\<open>None\<close> an error, \<open>Some q\<close> at most \<open>q\<close> bytes); an
  exhausted script takes everything, like the \<open>Vec\<close> the muxer flushes into.
\<close>

record sink =
  sk_data :: "u8 list"
  sk_script :: "nat option list"

definition sink_write :: "u8 list \<Rightarrow> sink \<Rightarrow> sink \<times> nat option" where
  "sink_write bs w =
     (case sk_script w of
        [] \<Rightarrow> (w\<lparr>sk_data := sk_data w @ bs\<rparr>, Some (length bs))
      | None # r \<Rightarrow> (w\<lparr>sk_script := r\<rparr>, None)
      | Some q # r \<Rightarrow> (w\<lparr>sk_data := sk_data w @ take q bs, sk_script := r\<rparr>, Some (min q (length bs))))"

text \<open>One write of \<open>flush_to\<close>: the contiguous part from the tail.\<close>

definition tx_first_len :: "tx_buf \<Rightarrow> nat" where
  "tx_first_len b = min (CONN_TX_BUF_SIZE - unat (tx_tail b) mod CONN_TX_BUF_SIZE) (tx_len b)"

definition tx_advance :: "nat \<Rightarrow> tx_buf \<Rightarrow> tx_buf" where
  "tx_advance written b = b\<lparr>tx_tail := tx_tail b + u32_sat written\<rparr>"

lemma tx_advance_data [simp]: "tx_data (tx_advance k b) = tx_data b"
  by (simp add: tx_advance_def)

lemma tx_first_len_pos: "tx_len b \<noteq> 0 \<Longrightarrow> 0 < tx_first_len b"
  by (simp add: tx_first_len_def)

lemma tx_len_advance:
  assumes "k \<le> tx_len b"
  shows "tx_len (tx_advance k b) = tx_len b - k"
proof -
  have "tx_len b < 2 ^ 32" unfolding tx_len_def using unsigned_less [of "tx_head b - tx_tail b"] by simp
  then have k: "u32_sat k = of_nat k" "unat (of_nat k :: u32) = k"
    using assms by (simp_all add: u32_sat_def unat_of_nat)
  have "(of_nat k :: u32) \<le> tx_head b - tx_tail b"
    using assms k by (simp add: word_le_nat_alt tx_len_def)
  then show ?thesis
    using k by (simp add: tx_len_def tx_advance_def diff_diff_eq [symmetric] unat_sub)
qed

lemma tx_first_len_le: "tx_first_len b \<le> tx_len b"
  by (simp add: tx_first_len_def)

lemma sink_write_le:
  assumes "sink_write bs w = (w', Some k)"
  shows "k \<le> length bs" "sk_data w' = sk_data w @ take k bs"
  using assms by (auto simp: sink_write_def min_def split: list.splits option.splits)

lemma length_slice_le: "length (slice i n xs) \<le> n"
  by (simp add: slice_def)

lemma flush_decreases:
  assumes "tx_len b \<noteq> 0" "sink_write (slice i (tx_first_len b) d) w = (w1, Some k)" "\<not> k < tx_first_len b"
  shows "tx_len (tx_advance k b) < tx_len b"
proof -
  have "k = tx_first_len b"
    using sink_write_le(1) [OF assms(2)] length_slice_le [of i "tx_first_len b" d] assms(3) by simp
  then show ?thesis
    using tx_len_advance [OF tx_first_len_le] tx_first_len_pos [OF assms(1)] tx_first_len_le [of b] by simp
qed

function tx_flush_to :: "tx_buf \<Rightarrow> sink \<Rightarrow> tx_buf \<times> sink \<times> (nat, vsock_error) result" where
  "tx_flush_to b w =
     (if tx_is_empty b then (b, w, Ok 0)
      else case tx_data b of None \<Rightarrow> (b, w, Ok 0)
      | Some data \<Rightarrow>
          (let tail_ofs = unat (tx_tail b) mod CONN_TX_BUF_SIZE;
               first_len = tx_first_len b
           in case sink_write (slice tail_ofs first_len data) w of
                (w1, None) \<Rightarrow> (b, w1, Err TxBufFlush)
              | (w1, Some written) \<Rightarrow>
                  (let b1 = tx_advance written b
                   in if written < first_len then (b1, w1, Ok written)
                      else case tx_flush_to b1 w1 of
                             (b2, w2, r) \<Rightarrow> (b2, w2, Ok (written + unwrap_or r 0)))))"
  by auto
termination
  by (relation "measure (\<lambda>(b, w). tx_len b)")
    (simp_all add: tx_is_empty_def flush_decreases [OF _ sym])

declare tx_flush_to.simps [simp del]

section \<open>The ring buffer is a bounded byte queue\<close>

text \<open>Byte \<open>i\<close> of the contents lies \<open>i\<close> positions after the tail, modulo the size.\<close>

definition tx_contents :: "tx_buf \<Rightarrow> u8 list" where
  "tx_contents b = (case tx_data b of None \<Rightarrow> []
     | Some d \<Rightarrow> map (\<lambda>i. d ! ((unat (tx_tail b) + i) mod CONN_TX_BUF_SIZE)) [0..<tx_len b])"

definition tx_wf :: "tx_buf \<Rightarrow> bool" where
  "tx_wf b \<longleftrightarrow> tx_len b \<le> CONN_TX_BUF_SIZE \<and>
     (case tx_data b of None \<Rightarrow> tx_len b = 0 | Some d \<Rightarrow> length d = CONN_TX_BUF_SIZE)"

lemma tx_wf_new [simp]: "tx_wf tx_buf_new" "tx_contents tx_buf_new = []"
  by (simp_all add: tx_wf_def tx_buf_new_def tx_len_def tx_contents_def)

lemma length_tx_contents: "tx_wf b \<Longrightarrow> length (tx_contents b) = tx_len b"
  by (auto simp: tx_contents_def tx_wf_def split: option.splits)

text \<open>The size divides \<open>2 ^ 32\<close>, so the wrap of the counters does not disturb positions.\<close>

lemma unat_add_mod_size:
  "unat ((x :: u32) + y) mod CONN_TX_BUF_SIZE = (unat x + unat y) mod CONN_TX_BUF_SIZE"
proof -
  have "unat (x + y) = (unat x + unat y) mod 2 ^ 32" by (simp add: unat_word_ariths)
  moreover have "(2 :: nat) ^ 32 = CONN_TX_BUF_SIZE * 65536" by simp
  ultimately show ?thesis by (simp add: mod_mult2_eq mod_mod_cancel)
qed

text \<open>The storage after the (possibly split) copy of a push.\<close>

lemma ring_copy_nth:
  fixes n :: nat
  assumes "length d = n" "h < n" "length src \<le> n" "j < n"
    and "f = min (n - h) (length src)"
    and "d1 = splice_at h (take f src) d"
    and "d2 = (if f < length src then splice_at 0 (drop f src) d1 else d1)"
  shows "length d2 = n \<and>
    d2 ! j = (if (j + n - h) mod n < length src then src ! ((j + n - h) mod n) else d ! j)"
proof -
  have l1: "length d1 = n" using assms by (simp add: min_def)
  have n1: "d1 ! k = (if h \<le> k \<and> k < h + f then src ! (k - h) else d ! k)" if "k < n" for k
    using assms that by (simp add: nth_splice_at min_def)
  have l2: "length d2 = n" using assms l1 by (simp add: min_def)
  have n2: "d2 ! j = (if f < length src \<and> j < length src - f then src ! (f + j) else d1 ! j)"
    using assms l1 by (auto simp: nth_splice_at)
  have m: "(j + n - h) mod n = (if h \<le> j then j - h else j + n - h)"
    using assms(2,4) by (auto simp: mod_if)
  have f: "f \<le> length src" "f \<le> n - h" "f = n - h \<or> f = length src" using assms(5) by linarith+
  show ?thesis
  proof (cases "h \<le> j")
    case True
    then have "\<not> (f < length src \<and> j < length src - f)" using f assms(2,3) by linarith
    moreover have "j < h + f \<longleftrightarrow> j - h < length src" using True f assms(2,4) by linarith
    ultimately show ?thesis using l2 n2 n1 [OF assms(4)] m True by auto
  next
    case False
    then have "j + n - h < length src \<longleftrightarrow> f < length src \<and> j < length src - f"
      using f assms(2) by linarith
    moreover have "f < length src \<Longrightarrow> f + j = j + n - h" using f assms(2) by linarith
    ultimately show ?thesis using l2 n2 n1 [OF assms(4)] m False by auto
  qed
qed

lemma ring_distance:
  fixes t i l n :: nat
  assumes "0 < n" "l \<le> n" "i < n"
  shows "((t + i) mod n + n - (t + l) mod n) mod n = (if i < l then i + n - l else i - l)"
proof -
  let ?r = "(t + l) mod n" and ?q = "(t + l) div n"
  have r: "?r < n" using assms(1) by simp
  have tl: "t + l = ?q * n + ?r" by simp
  have "((t + i) mod n + n - ?r) mod n = ((t + i) mod n + (n - ?r)) mod n" using r by simp
  also have "\<dots> = (t + i + (n - ?r)) mod n" by (rule mod_add_left_eq)
  also have "t + i + (n - ?r) = ?q * n + (i + n - l)"
    using tl r assms(2) by linarith
  also have "(?q * n + (i + n - l)) mod n = (i + n - l) mod n" by simp
  also have "\<dots> = (if i < l then i + n - l else i - l)"
    using assms by (auto simp: mod_if)
  finally show ?thesis .
qed

lemma tx_push_Ok:
  assumes wf: "tx_wf b" and ok: "tx_push b src = Ok b'"
  shows "tx_wf b' \<and> tx_contents b' = tx_contents b @ src"
proof -
  let ?N = "CONN_TX_BUF_SIZE"
  have fit: "tx_len b + length src \<le> ?N" using ok by (auto simp: tx_push_def split: if_splits)
  define d where "d = (case tx_data b of None \<Rightarrow> replicate ?N 0 | Some d \<Rightarrow> d)"
  define h where "h = unat (tx_head b) mod ?N"
  define f where "f = min (?N - h) (length src)"
  define d1 where "d1 = splice_at h (take f src) d"
  define d2 where "d2 = (if f < length src then splice_at 0 (drop f src) d1 else d1)"
  have b': "b' = b\<lparr>tx_data := Some d2, tx_head := tx_head b + of_nat (length src)\<rparr>"
    using ok fit by (auto simp: tx_push_def Let_def d_def h_def f_def d1_def d2_def u32_sat_def split: if_splits)
  have d: "length d = ?N" using wf by (auto simp: d_def tx_wf_def split: option.splits)
  have "h < ?N" by (simp add: h_def)
  note copy = ring_copy_nth [OF d this _ _ f_def d1_def d2_def]
  have len: "tx_len b' = tx_len b + length src"
  proof -
    have eq: "tx_head b' - tx_tail b' = (tx_head b - tx_tail b) + of_nat (length src)" by (simp add: b')
    show ?thesis unfolding tx_len_def eq
      using fit by (simp add: tx_len_def unat_word_ariths unat_of_nat)
  qed
  have hd: "h = (unat (tx_tail b) + tx_len b) mod ?N"
    using unat_add_mod_size [of "tx_tail b" "tx_head b - tx_tail b"] by (simp add: h_def tx_len_def)
  have get: "d2 ! ((unat (tx_tail b) + i) mod ?N) =
      (if i < tx_len b then d ! ((unat (tx_tail b) + i) mod ?N) else src ! (i - tx_len b))"
    if i: "i < tx_len b + length src" for i
  proof -
    have "i < ?N" "tx_len b \<le> ?N" "0 < ?N" using i fit by simp_all
    from ring_distance [OF this(3,2,1), of "unat (tx_tail b)"]
    have dist: "((unat (tx_tail b) + i) mod ?N + ?N - h) mod ?N =
        (if i < tx_len b then i + ?N - tx_len b else i - tx_len b)"
      unfolding hd .
    have "length src \<le> ?N" "(unat (tx_tail b) + i) mod ?N < ?N" using fit by simp_all
    from copy [OF this] dist i fit show ?thesis by (cases "i < tx_len b") auto
  qed
  have d2: "length d2 = ?N" using copy [of 0] fit by simp
  have wf': "tx_wf b'" using len fit d2 by (simp add: tx_wf_def b')
  have old: "tx_contents b = map (\<lambda>i. d ! ((unat (tx_tail b) + i) mod ?N)) [0..<tx_len b]"
    using wf by (auto simp: tx_contents_def d_def tx_wf_def split: option.splits)
  have new: "tx_contents b' = map (\<lambda>i. d2 ! ((unat (tx_tail b) + i) mod ?N)) [0..<tx_len b + length src]"
    using len by (simp add: tx_contents_def b')
  have "tx_contents b' = tx_contents b @ src"
  proof (rule nth_equalityI)
    show "length (tx_contents b') = length (tx_contents b @ src)" by (simp add: new old)
  next
    fix i assume "i < length (tx_contents b')"
    then have i: "i < tx_len b + length src" by (simp add: new)
    then show "tx_contents b' ! i = (tx_contents b @ src) ! i"
      using get [OF i] by (simp add: new old nth_append)
  qed
  with wf' show ?thesis by simp
qed

lemma tx_advance_contents:
  assumes "tx_wf b" "k \<le> length (tx_contents b)"
  shows "tx_wf (tx_advance k b) \<and> tx_contents (tx_advance k b) = drop k (tx_contents b)"
proof -
  let ?N = "CONN_TX_BUF_SIZE"
  have k: "k \<le> tx_len b" using assms length_tx_contents by simp
  have "tx_len b \<le> ?N" using assms(1) by (simp add: tx_wf_def)
  then have tail: "unat (tx_tail (tx_advance k b)) mod ?N = (unat (tx_tail b) + k) mod ?N"
    using unat_add_mod_size [of "tx_tail b" "of_nat k"] k
    by (simp add: tx_advance_def u32_sat_def unat_of_nat)
  have wf: "tx_wf (tx_advance k b)"
    using assms(1) k tx_len_advance [OF k]
    by (auto simp: tx_wf_def tx_advance_def split: option.splits)
  have pos: "(unat (tx_tail (tx_advance k b)) + i) mod ?N = (unat (tx_tail b) + (k + i)) mod ?N" for i
    using mod_add_left_eq [of "unat (tx_tail (tx_advance k b))" ?N i] mod_add_left_eq [of "unat (tx_tail b) + k" ?N i]
    unfolding tail by (simp only: add.assoc)
  have "tx_contents (tx_advance k b) = drop k (tx_contents b)"
  proof (rule nth_equalityI)
    show "length (tx_contents (tx_advance k b)) = length (drop k (tx_contents b))"
      using wf assms(1) k by (simp add: length_tx_contents tx_len_advance)
  next
    fix i assume "i < length (tx_contents (tx_advance k b))"
    then have "i < tx_len b - k" using wf k by (simp add: length_tx_contents tx_len_advance)
    moreover from this have "[0..<tx_len b] ! (k + i) = k + i" by (subst nth_upt) simp_all
    ultimately show "tx_contents (tx_advance k b) ! i = drop k (tx_contents b) ! i"
      using pos [of i] k tx_len_advance [OF k] assms(1)
      by (cases "tx_data b")
        (simp_all only: tx_contents_def tx_advance_data option.case, simp_all add: tx_wf_def)
  qed
  with wf show ?thesis by simp
qed

interpretation txq: byte_fifo tx_contents tx_wf tx_push tx_advance CONN_TX_BUF_SIZE
proof (unfold_locales, goal_cases)
  case (3 b src)
  then show ?case using length_tx_contents [of b] by (simp add: tx_push_def Let_def)
qed (simp_all add: tx_push_Ok tx_advance_contents)

section \<open>Flushing\<close>

lemma tx_first_slice:
  assumes "tx_wf b" "tx_data b = Some d"
  shows "slice (unat (tx_tail b) mod CONN_TX_BUF_SIZE) (tx_first_len b) d = take (tx_first_len b) (tx_contents b)"
    "length (slice (unat (tx_tail b) mod CONN_TX_BUF_SIZE) (tx_first_len b) d) = tx_first_len b"
proof -
  let ?N = "CONN_TX_BUF_SIZE"
  define t where "t = unat (tx_tail b) mod ?N"
  have t: "t < ?N" by (simp add: t_def)
  have d: "length d = ?N" using assms by (simp add: tx_wf_def)
  have f: "tx_first_len b \<le> ?N - t" "tx_first_len b \<le> tx_len b"
    by (simp_all add: tx_first_len_def t_def)
  then have l: "t + tx_first_len b \<le> length d" using t d by linarith
  then show len: "length (slice (unat (tx_tail b) mod ?N) (tx_first_len b) d) = tx_first_len b"
    unfolding t_def [symmetric] by simp
  show "slice (unat (tx_tail b) mod ?N) (tx_first_len b) d = take (tx_first_len b) (tx_contents b)"
  proof (rule nth_equalityI)
    show "length (slice (unat (tx_tail b) mod ?N) (tx_first_len b) d) =
        length (take (tx_first_len b) (tx_contents b))"
      using len f(2) assms(1) by (simp add: length_tx_contents)
  next
    fix i assume "i < length (slice (unat (tx_tail b) mod ?N) (tx_first_len b) d)"
    then have i: "i < tx_first_len b" using len by simp
    have "(unat (tx_tail b) + i) mod ?N = (t + i) mod ?N"
      unfolding t_def by (rule mod_add_left_eq [symmetric])
    also have "\<dots> = t + i" using i f(1) t by (intro mod_less) linarith
    finally have pos: "(unat (tx_tail b) + i) mod ?N = t + i" .
    have "[0..<tx_len b] ! i = i" using i f(2) by (subst nth_upt) simp_all
    then show "slice (unat (tx_tail b) mod ?N) (tx_first_len b) d ! i = take (tx_first_len b) (tx_contents b) ! i"
      using i f(2) l pos assms(2)
      unfolding t_def [symmetric] by (simp add: nth_slice tx_contents_def)
  qed
qed

text \<open>
  What a flush does to the queue and the writer: a prefix of the contents moves, and a
  success reports its length; an error moves nothing.
\<close>

definition flush_spec :: "tx_buf \<Rightarrow> sink \<Rightarrow> tx_buf \<Rightarrow> sink \<Rightarrow> (nat, vsock_error) result \<Rightarrow> bool" where
  "flush_spec b w b' w' r \<longleftrightarrow>
     (\<exists>k \<le> length (tx_contents b).
        tx_wf b' \<and> tx_contents b' = drop k (tx_contents b) \<and>
        sk_data w' = sk_data w @ take k (tx_contents b) \<and>
        r = (if is_ok r then Ok k else Err TxBufFlush) \<and> (\<not> is_ok r \<longrightarrow> k = 0))"

lemma sink_write_error: "sink_write bs w = (w', None) \<Longrightarrow> sk_data w' = sk_data w"
  by (auto simp: sink_write_def split: list.splits option.splits)

lemma tx_empty_contents: "tx_wf b \<Longrightarrow> tx_is_empty b \<longleftrightarrow> tx_contents b = []"
  using length_tx_contents [of b] by (auto simp: tx_is_empty_def)

lemma tx_flush_spec: "tx_wf b \<Longrightarrow> tx_flush_to b w = (b', w', r) \<Longrightarrow> flush_spec b w b' w' r"
proof (induction b w arbitrary: b' w' r rule: tx_flush_to.induct)
  case (1 b w)
  note wf = "1.prems"(1)
  show ?case
  proof (cases "tx_is_empty b \<or> tx_data b = None")
    case True
    then have "(b', w', r) = (b, w, Ok 0)"
      using "1.prems"(2) by (subst (asm) tx_flush_to.simps) (auto split: if_splits)
    then show ?thesis using wf by (auto simp: flush_spec_def)
  next
    case False
    then obtain d where d: "tx_data b = Some d" by auto
    let ?bs = "slice (unat (tx_tail b) mod CONN_TX_BUF_SIZE) (tx_first_len b) d"
    note sl = tx_first_slice [OF wf d]
    obtain w1 res where sw: "sink_write ?bs w = (w1, res)" by (cases "sink_write ?bs w")
    show ?thesis
    proof (cases res)
      case None
      then have "(b', w', r) = (b, w1, Err TxBufFlush)"
        using "1.prems"(2) False d sw by (subst (asm) tx_flush_to.simps) (simp add: Let_def)
      then show ?thesis using wf sw None by (auto simp: flush_spec_def dest!: sink_write_error)
    next
      case (Some k)
      have k: "k \<le> tx_first_len b" using sink_write_le(1) sw Some sl(2) by fastforce
      have data: "sk_data w1 = sk_data w @ take k (tx_contents b)"
        using sink_write_le(2) [of ?bs w w1 k] sw Some sl(1) k by (simp add: min_absorb1)
      have le: "k \<le> length (tx_contents b)"
        using k tx_first_len_le [of b] length_tx_contents [OF wf] by simp
      note adv = tx_advance_contents [OF wf le]
      show ?thesis
      proof (cases "k < tx_first_len b")
        case True
        then have "(b', w', r) = (tx_advance k b, w1, Ok k)"
          using "1.prems"(2) False d sw Some by (subst (asm) tx_flush_to.simps) (simp add: Let_def)
        then show ?thesis using adv data le by (auto simp: flush_spec_def)
      next
        case full: False
        obtain b2 w2 r2 where rec: "tx_flush_to (tx_advance k b) w1 = (b2, w2, r2)"
          by (cases "tx_flush_to (tx_advance k b) w1")
        then have eq: "(b', w', r) = (b2, w2, Ok (k + unwrap_or r2 0))"
          using "1.prems"(2) False d sw Some full by (subst (asm) tx_flush_to.simps) (simp add: Let_def)
        have "flush_spec (tx_advance k b) w1 b2 w2 r2"
          using "1.IH" [OF _ d refl refl sw [symmetric] Some refl] False full adv rec by blast
        then obtain k2 where k2: "k2 \<le> length (tx_contents (tx_advance k b))" "tx_wf b2"
          "tx_contents b2 = drop k2 (tx_contents (tx_advance k b))"
          "sk_data w2 = sk_data w1 @ take k2 (tx_contents (tx_advance k b))" "unwrap_or r2 0 = k2"
          unfolding flush_spec_def by (metis unwrap_or.simps)
        have "k + k2 \<le> length (tx_contents b)" using k2(1) adv le by simp
        moreover have "sk_data w2 = sk_data w @ take (k + k2) (tx_contents b)"
          using k2(4) data adv by (simp add: take_add)
        moreover have "tx_contents b2 = drop (k + k2) (tx_contents b)"
          using k2(3) adv by (simp add: add.commute)
        ultimately show ?thesis using eq k2(2,5) by (auto simp: flush_spec_def)
      qed
    qed
  qed
qed

lemma tx_flush_empties:
  "sk_script w = [] \<Longrightarrow> tx_wf b \<Longrightarrow> tx_flush_to b w = (b', w', r) \<Longrightarrow> tx_is_empty b'"
proof (induction b w arbitrary: b' w' r rule: tx_flush_to.induct)
  case (1 b w)
  show ?case
  proof (cases "tx_is_empty b")
    case True
    then show ?thesis using "1.prems" by (simp add: tx_flush_to.simps)
  next
    case False
    then obtain d where d: "tx_data b = Some d"
      using "1.prems"(2) by (auto simp: tx_wf_def tx_is_empty_def split: option.splits)
    let ?bs = "slice (unat (tx_tail b) mod CONN_TX_BUF_SIZE) (tx_first_len b) d"
    let ?w1 = "w\<lparr>sk_data := sk_data w @ ?bs\<rparr>" and ?b1 = "tx_advance (tx_first_len b) b"
    have sw: "sink_write ?bs w = (?w1, Some (tx_first_len b))"
      using "1.prems"(1) tx_first_slice(2) [OF "1.prems"(2) d] by (simp add: sink_write_def)
    have wf1: "tx_wf ?b1"
      using tx_advance_contents [OF "1.prems"(2)] tx_first_len_le [of b] length_tx_contents [OF "1.prems"(2)]
      by simp
    obtain b2 w2 r2 where rec: "tx_flush_to ?b1 ?w1 = (b2, w2, r2)" by (cases "tx_flush_to ?b1 ?w1")
    then have "b' = b2"
      using "1.prems"(3) False d sw by (subst (asm) tx_flush_to.simps) (simp add: Let_def)
    moreover have "tx_is_empty b2"
      using "1.IH" [OF False d refl refl sw [symmetric] refl refl _ _ wf1 rec] "1.prems"(1) by simp
    ultimately show ?thesis by simp
  qed
qed

lemma tx_flush_error: "sk_script w = [] \<Longrightarrow> tx_flush_to b w = (b', w', r) \<Longrightarrow> is_ok r"
  by (subst (asm) tx_flush_to.simps)
    (auto simp: Let_def sink_write_def split: if_splits option.splits prod.splits)

lemma tx_flush_all:
  assumes "tx_wf b" "sk_script w = []"
  shows "\<exists>b' w'. tx_flush_to b w = (b', w', Ok (length (tx_contents b))) \<and> tx_wf b' \<and> tx_contents b' = [] \<and>
    sk_data w' = sk_data w @ tx_contents b"
proof -
  obtain b' w' r where f: "tx_flush_to b w = (b', w', r)" by (cases "tx_flush_to b w")
  from tx_flush_spec [OF assms(1) f] obtain k where k: "k \<le> length (tx_contents b)" "tx_wf b'"
    "tx_contents b' = drop k (tx_contents b)" "sk_data w' = sk_data w @ take k (tx_contents b)" "r = Ok k"
    using tx_flush_error [OF assms(2) f] by (auto simp: flush_spec_def)
  have "tx_contents b' = []"
    using tx_flush_empties [OF assms(2,1) f] tx_empty_contents [OF k(2)] by simp
  then have "k = length (tx_contents b)" using k(1,3) by simp
  then show ?thesis using f k by simp
qed

text \<open>
  C8. The ring buffer is a byte queue of 64 KiB, across the wrap of its storage and of its
  32-bit counters. A push is all or nothing: it succeeds exactly when the bytes fit, and then
  appends them. A flush moves a prefix of the queue to the writer in order, reports its length
  on success and moves nothing on an error; a writer that takes everything empties the queue.
\<close>

theorem tx_buf_refines_queue:
  assumes "tx_wf b"
  shows "(is_ok (tx_push b src) \<longleftrightarrow> length (tx_contents b) + length src \<le> CONN_TX_BUF_SIZE) \<and>
    (\<forall>b'. tx_push b src = Ok b' \<longrightarrow> tx_wf b' \<and> tx_contents b' = tx_contents b @ src) \<and>
    (\<forall>b' w' r. tx_flush_to b w = (b', w', r) \<longrightarrow> flush_spec b w b' w' r) \<and>
    (sk_script w = [] \<longrightarrow> tx_contents (fst (tx_flush_to b w)) = [])"
  using txq.push_ok_iff [OF assms, of src] txq.push_inv [OF assms] txq.push_contents [OF assms]
    tx_flush_spec [OF assms] tx_flush_all [OF assms, of w] by auto

theorem tx_buf_refines_queue_witness:
  "\<exists>b'. tx_push tx_buf_new [7, 8, 9] = Ok b' \<and> tx_contents b' = [7, 8, 9]"
  using tx_buf_refines_queue [OF tx_wf_new(1), of "[7, 8, 9]" "\<lparr>sk_data = [], sk_script = []\<rparr>"] by (auto simp: is_ok_iff)

end
