(* ===== verification/Vsock_Connection.thy ===== *)
theory Vsock_Connection
  imports Vsock_Packet Vsock_Tx_Buf
begin

text \<open>
  The vsock connection state machine of \<^verbatim>\<open>src/crates/visor-vmm/src/devices/vsock.rs\<close>:
  handshake, data in both directions under credit flow control, half-close and teardown.
  \<open>Instant::now()\<close> is the argument \<open>now\<close>, in milliseconds. Credit counters are wrapping
  \<open>u32\<close> words as in the code.
\<close>

section \<open>State\<close>

abbreviation (input) HOST_CID :: u64 where "HOST_CID \<equiv> 2"
abbreviation (input) VSOCK_TYPE_STREAM :: u16 where "VSOCK_TYPE_STREAM \<equiv> 1"
abbreviation (input) VSOCK_FLAGS_SHUTDOWN_RCV :: u32 where "VSOCK_FLAGS_SHUTDOWN_RCV \<equiv> 1"
abbreviation (input) VSOCK_FLAGS_SHUTDOWN_SEND :: u32 where "VSOCK_FLAGS_SHUTDOWN_SEND \<equiv> 2"
abbreviation (input) CONN_CREDIT_UPDATE_THRESHOLD :: u32 where "CONN_CREDIT_UPDATE_THRESHOLD \<equiv> 4096"
abbreviation (input) CONN_REQUEST_TIMEOUT_MS :: nat where "CONN_REQUEST_TIMEOUT_MS \<equiv> 2000"
abbreviation (input) CONN_SHUTDOWN_TIMEOUT_MS :: nat where "CONN_SHUTDOWN_TIMEOUT_MS \<equiv> 2000"

datatype conn_state = LocalInit | PeerInit | Established | LocalClosed | PeerClosed bool bool | Killed

datatype pending_kind = PRequest | PResponse | PRst | PRw | PCreditUpdate

primrec pending_bit :: "pending_kind \<Rightarrow> nat" where
  "pending_bit PRequest = 0"
| "pending_bit PResponse = 1"
| "pending_bit PRst = 2"
| "pending_bit PRw = 3"
| "pending_bit PCreditUpdate = 4"

type_synonym pending_set = u16

definition into_mask :: "pending_kind \<Rightarrow> u16" where
  "into_mask it = push_bit (pending_bit it) 1"

definition pending_insert :: "pending_kind \<Rightarrow> pending_set \<Rightarrow> pending_set" where
  "pending_insert it s = s OR into_mask it"

definition pending_contains :: "pending_kind \<Rightarrow> pending_set \<Rightarrow> bool" where
  "pending_contains it s \<longleftrightarrow> s AND into_mask it \<noteq> 0"

definition pending_remove :: "pending_kind \<Rightarrow> pending_set \<Rightarrow> pending_set \<times> bool" where
  "pending_remove it s = (s AND NOT (into_mask it), pending_contains it s)"

definition pending_is_empty :: "pending_set \<Rightarrow> bool" where
  "pending_is_empty s \<longleftrightarrow> s = 0"

record vsock_connection =
  c_state :: conn_state
  c_local_cid :: u64
  c_peer_cid :: u64
  c_local_port :: u32
  c_peer_port :: u32
  c_tx_buf :: tx_buf
  c_fwd_cnt :: u32
  c_peer_buf_alloc :: u32
  c_peer_fwd_cnt :: u32
  c_rx_cnt :: u32
  c_last_fwd_cnt_to_peer :: u32
  c_pending_rx :: pending_set
  c_expiry :: "nat option"
  c_rx_buf :: "u8 list"
  c_host_closed :: bool

definition new_peer_init :: "u64 \<Rightarrow> u64 \<Rightarrow> u32 \<Rightarrow> u32 \<Rightarrow> u32 \<Rightarrow> vsock_connection" where
  "new_peer_init local_cid peer_cid local_port peer_port peer_buf_alloc =
     \<lparr>c_state = PeerInit, c_local_cid = local_cid, c_peer_cid = peer_cid,
      c_local_port = local_port, c_peer_port = peer_port, c_tx_buf = tx_buf_new, c_fwd_cnt = 0,
      c_peer_buf_alloc = peer_buf_alloc, c_peer_fwd_cnt = 0, c_rx_cnt = 0,
      c_last_fwd_cnt_to_peer = 0, c_pending_rx = into_mask PResponse, c_expiry = None,
      c_rx_buf = [], c_host_closed = False\<rparr>"

definition new_local_init :: "u64 \<Rightarrow> u64 \<Rightarrow> u32 \<Rightarrow> u32 \<Rightarrow> vsock_connection" where
  "new_local_init local_cid peer_cid local_port peer_port =
     \<lparr>c_state = LocalInit, c_local_cid = local_cid, c_peer_cid = peer_cid,
      c_local_port = local_port, c_peer_port = peer_port, c_tx_buf = tx_buf_new, c_fwd_cnt = 0,
      c_peer_buf_alloc = 0, c_peer_fwd_cnt = 0, c_rx_cnt = 0,
      c_last_fwd_cnt_to_peer = 0, c_pending_rx = into_mask PRequest, c_expiry = None,
      c_rx_buf = [], c_host_closed = False\<rparr>"

section \<open>Operations\<close>

definition has_pending_rx :: "vsock_connection \<Rightarrow> bool" where
  "has_pending_rx c \<longleftrightarrow> \<not> pending_is_empty (c_pending_rx c)"

definition has_expired :: "nat \<Rightarrow> vsock_connection \<Rightarrow> bool" where
  "has_expired now c = (case c_expiry c of None \<Rightarrow> False | Some t \<Rightarrow> t \<le> now)"

definition will_expire :: "nat \<Rightarrow> vsock_connection \<Rightarrow> bool" where
  "will_expire now c = (case c_expiry c of None \<Rightarrow> False | Some t \<Rightarrow> t > now)"

definition add_pending :: "pending_kind \<Rightarrow> vsock_connection \<Rightarrow> vsock_connection" where
  "add_pending it c = c\<lparr>c_pending_rx := pending_insert it (c_pending_rx c)\<rparr>"

definition kill :: "vsock_connection \<Rightarrow> vsock_connection" where
  "kill c = add_pending PRst (c\<lparr>c_state := Killed\<rparr>)"

definition push_host_data :: "u8 list \<Rightarrow> vsock_connection \<Rightarrow> vsock_connection" where
  "push_host_data data c = add_pending PRw (c\<lparr>c_rx_buf := c_rx_buf c @ data\<rparr>)"

definition notify_host_closed :: "vsock_connection \<Rightarrow> vsock_connection" where
  "notify_host_closed c = add_pending PRw (c\<lparr>c_host_closed := True\<rparr>)"

definition peer_avail_credit :: "vsock_connection \<Rightarrow> u32" where
  "peer_avail_credit c = c_peer_buf_alloc c - (c_rx_cnt c - c_peer_fwd_cnt c)"

definition need_credit_update_from_peer :: "vsock_connection \<Rightarrow> bool" where
  "need_credit_update_from_peer c \<longleftrightarrow> peer_avail_credit c = 0"

definition peer_needs_credit_update :: "vsock_connection \<Rightarrow> bool" where
  "peer_needs_credit_update c \<longleftrightarrow>
     0x10000 - (c_fwd_cnt c - c_last_fwd_cnt_to_peer c) < CONN_CREDIT_UPDATE_THRESHOLD"

definition init_pkt :: "vsock_connection \<Rightarrow> vsock_packet" where
  "init_pkt c = \<lparr>p_src_cid = c_local_cid c, p_dst_cid = c_peer_cid c, p_src_port = c_local_port c,
     p_dst_port = c_peer_port c, p_len = 0, p_type = VSOCK_TYPE_STREAM, p_op = 0, p_flags = 0,
     p_buf_alloc = 0x10000, p_fwd_cnt = c_fwd_cnt c\<rparr>"

definition flush_tx_buf ::
  "sink \<Rightarrow> vsock_connection \<Rightarrow> vsock_connection \<times> sink \<times> (nat, vsock_error) result" where
  "flush_tx_buf w c =
     (case tx_flush_to (c_tx_buf c) w of
        (b, w1, Err e) \<Rightarrow> (c\<lparr>c_tx_buf := b\<rparr>, w1, Err e)
      | (b, w1, Ok flushed) \<Rightarrow>
          (let c1 = c\<lparr>c_tx_buf := b, c_fwd_cnt := c_fwd_cnt c + u32_sat flushed\<rparr>;
               c2 = (if c_state c1 = PeerClosed True True \<and> tx_is_empty (c_tx_buf c1)
                     then add_pending PRst c1
                     else if peer_needs_credit_update c1 then add_pending PCreditUpdate c1
                     else c1)
           in (c2, w1, Ok flushed)))"

text \<open>Guest packets: first the credit fields of the header, then the transition.\<close>

definition update_peer_credit :: "vsock_packet \<Rightarrow> vsock_connection \<Rightarrow> vsock_connection" where
  "update_peer_credit pkt c =
     (let c1 = c\<lparr>c_peer_buf_alloc := p_buf_alloc pkt, c_peer_fwd_cnt := p_fwd_cnt pkt\<rparr>
      in if peer_avail_credit c1 > 0 \<and> c_rx_buf c1 \<noteq> [] then add_pending PRw c1 else c1)"

definition send_data :: "u8 list \<Rightarrow> vsock_connection \<Rightarrow> vsock_connection \<times> (unit, vsock_error) result" where
  "send_data payload c =
     (if payload = [] then (c, Ok ())
      else case tx_push (c_tx_buf c) payload of
             Err e \<Rightarrow> (c, Err e)
           | Ok b \<Rightarrow>
               (let c1 = c\<lparr>c_tx_buf := b\<rparr>
                in (if peer_needs_credit_update c1 then add_pending PCreditUpdate c1 else c1, Ok ())))"

definition shutdown_established :: "nat \<Rightarrow> vsock_packet \<Rightarrow> vsock_connection \<Rightarrow> vsock_connection" where
  "shutdown_established now pkt c =
     (let no_recv = (p_flags pkt AND VSOCK_FLAGS_SHUTDOWN_RCV \<noteq> 0);
          no_send = (p_flags pkt AND VSOCK_FLAGS_SHUTDOWN_SEND \<noteq> 0);
          c1 = c\<lparr>c_state := PeerClosed no_recv no_send\<rparr>
      in if no_recv \<and> no_send
         then if tx_is_empty (c_tx_buf c1) then add_pending PRst c1
              else c1\<lparr>c_expiry := Some (now + CONN_SHUTDOWN_TIMEOUT_MS)\<rparr>
         else c1)"

definition shutdown_again :: "bool \<Rightarrow> bool \<Rightarrow> vsock_packet \<Rightarrow> vsock_connection \<Rightarrow> vsock_connection" where
  "shutdown_again nr ns pkt c =
     (let no_recv = (nr \<or> p_flags pkt AND VSOCK_FLAGS_SHUTDOWN_RCV \<noteq> 0);
          no_send = (ns \<or> p_flags pkt AND VSOCK_FLAGS_SHUTDOWN_SEND \<noteq> 0);
          c1 = c\<lparr>c_state := PeerClosed no_recv no_send\<rparr>
      in if no_recv \<and> no_send \<and> tx_is_empty (c_tx_buf c1) then add_pending PRst c1 else c1)"

definition send_pkt ::
  "nat \<Rightarrow> vsock_packet \<Rightarrow> u8 list \<Rightarrow> vsock_connection \<Rightarrow> vsock_connection \<times> (unit, vsock_error) result" where
  "send_pkt now pkt payload c =
     (let c1 = update_peer_credit pkt c; op = p_op pkt
      in case c_state c1 of
           Established \<Rightarrow>
             if op = op_code OpRw then send_data payload c1
             else if op = op_code OpShutdown then (shutdown_established now pkt c1, Ok ())
             else if op = op_code OpCreditUpdate then (c1, Ok ())
             else if op = op_code OpCreditRequest then (add_pending PCreditUpdate c1, Ok ())
             else (c1, Ok ())
         | PeerClosed nr ns \<Rightarrow>
             if \<not> ns \<and> op = op_code OpRw then send_data payload c1
             else if op = op_code OpShutdown then (shutdown_again nr ns pkt c1, Ok ())
             else if \<not> nr \<and> op = op_code OpCreditUpdate then (c1, Ok ())
             else if \<not> ns \<and> op = op_code OpCreditRequest then (add_pending PCreditUpdate c1, Ok ())
             else (c1, Ok ())
         | LocalInit \<Rightarrow>
             if op = op_code OpResponse then (c1\<lparr>c_expiry := None, c_state := Established\<rparr>, Ok ())
             else (c1, Ok ())
         | PeerInit \<Rightarrow>
             if op = op_code OpCreditUpdate then (c1, Ok ())
             else if op = op_code OpCreditRequest then (add_pending PCreditUpdate c1, Ok ())
             else (c1, Ok ())
         | LocalClosed \<Rightarrow> (c1, Ok ())
         | Killed \<Rightarrow> (c1, Ok ()))"

definition recv_data_pkt ::
  "nat \<Rightarrow> vsock_packet \<Rightarrow> nat \<Rightarrow> vsock_connection \<Rightarrow>
     vsock_connection \<times> (vsock_packet \<times> u8 list, vsock_error) result" where
  "recv_data_pkt now pkt max_data_len c =
     (if c_state c = LocalInit \<or> c_state c = PeerInit then (add_pending PRw c, Err NoData)
      else if \<not> (c_state c = Established \<or> (\<exists>ns \<in> {True, False}. c_state c = PeerClosed False ns))
      then (c, Ok (pkt\<lparr>p_op := op_code OpRst\<rparr>, []))
      else if need_credit_update_from_peer c
      then (add_pending PRw (c\<lparr>c_last_fwd_cnt_to_peer := c_fwd_cnt c\<rparr>),
            Ok (pkt\<lparr>p_op := op_code OpCreditRequest\<rparr>, []))
      else if c_rx_buf c = []
      then if c_host_closed c
           then (c\<lparr>c_state := LocalClosed, c_expiry := Some (now + CONN_SHUTDOWN_TIMEOUT_MS)\<rparr>,
                 Ok (pkt\<lparr>p_op := op_code OpShutdown,
                         p_flags := VSOCK_FLAGS_SHUTDOWN_RCV OR VSOCK_FLAGS_SHUTDOWN_SEND\<rparr>, []))
           else (c, Err NoData)
      else if max_data_len = 0 then (add_pending PRw c, Err NoData)
      else let max_len = min max_data_len (unat (peer_avail_credit c));
               drain_len = min max_len (length (c_rx_buf c));
               payload = take drain_len (c_rx_buf c);
               pkt1 = pkt\<lparr>p_op := op_code OpRw, p_len := u32_sat (length payload)\<rparr>
           in (c\<lparr>c_rx_buf := drop drain_len (c_rx_buf c), c_rx_cnt := c_rx_cnt c + p_len pkt1,
                 c_last_fwd_cnt_to_peer := c_fwd_cnt c\<rparr>, Ok (pkt1, payload)))"

definition recv_pkt ::
  "nat \<Rightarrow> nat \<Rightarrow> vsock_connection \<Rightarrow>
     vsock_connection \<times> (vsock_packet \<times> u8 list, vsock_error) result" where
  "recv_pkt now max_data_len c =
     (let pkt = init_pkt c;
          take_pending = (\<lambda>it c. c\<lparr>c_pending_rx := fst (pending_remove it (c_pending_rx c))\<rparr>)
      in if pending_contains PRst (c_pending_rx c)
         then (take_pending PRst c, Ok (pkt\<lparr>p_op := op_code OpRst\<rparr>, []))
         else if pending_contains PResponse (c_pending_rx c)
         then ((take_pending PResponse c)\<lparr>c_state := Established\<rparr>, Ok (pkt\<lparr>p_op := op_code OpResponse\<rparr>, []))
         else if pending_contains PRequest (c_pending_rx c)
         then ((take_pending PRequest c)\<lparr>c_expiry := Some (now + CONN_REQUEST_TIMEOUT_MS)\<rparr>,
               Ok (pkt\<lparr>p_op := op_code OpRequest\<rparr>, []))
         else if pending_contains PRw (c_pending_rx c)
         then recv_data_pkt now pkt max_data_len (take_pending PRw c)
         else if pending_contains PCreditUpdate (c_pending_rx c)
         then let c1 = take_pending PCreditUpdate c
              in if \<not> has_pending_rx c1
                 then (c1\<lparr>c_last_fwd_cnt_to_peer := c_fwd_cnt c1\<rparr>, Ok (pkt\<lparr>p_op := op_code OpCreditUpdate\<rparr>, []))
                 else (c1, Err NoData)
         else (c, Err NoData))"

section \<open>Pending indications\<close>

lemma into_mask_simps [simp]:
  "into_mask PRequest = 1" "into_mask PResponse = 2" "into_mask PRst = 4" "into_mask PRw = 8"
  "into_mask PCreditUpdate = 16"
  by (simp_all add: into_mask_def)

lemma pending_contains_insert [simp]:
  "pending_contains a (pending_insert b s) \<longleftrightarrow> a = b \<or> pending_contains a s"
  by (cases a; cases b) (simp_all add: pending_contains_def pending_insert_def bit.conj_disj_distrib2)

lemma pending_contains_remove [simp]:
  "pending_contains a (fst (pending_remove b s)) \<longleftrightarrow> a \<noteq> b \<and> pending_contains a s"
  by (cases a; cases b) (simp_all add: pending_contains_def pending_remove_def and.assoc)

lemma add_pending_frame [simp]:
  "c_state (add_pending it c) = c_state c" "c_rx_buf (add_pending it c) = c_rx_buf c"
  "c_tx_buf (add_pending it c) = c_tx_buf c" "c_rx_cnt (add_pending it c) = c_rx_cnt c"
  "c_peer_buf_alloc (add_pending it c) = c_peer_buf_alloc c"
  "c_peer_fwd_cnt (add_pending it c) = c_peer_fwd_cnt c"
  "c_fwd_cnt (add_pending it c) = c_fwd_cnt c"
  "c_host_closed (add_pending it c) = c_host_closed c"
  "c_pending_rx (add_pending it c) = pending_insert it (c_pending_rx c)"
  by (simp_all add: add_pending_def)

section \<open>Effects of each operation\<close>

lemma update_peer_credit_frame [simp]:
  "c_state (update_peer_credit pkt c) = c_state c" "c_rx_buf (update_peer_credit pkt c) = c_rx_buf c"
  "c_tx_buf (update_peer_credit pkt c) = c_tx_buf c" "c_rx_cnt (update_peer_credit pkt c) = c_rx_cnt c"
  "c_peer_buf_alloc (update_peer_credit pkt c) = p_buf_alloc pkt"
  "c_peer_fwd_cnt (update_peer_credit pkt c) = p_fwd_cnt pkt"
  "pending_contains PResponse (c_pending_rx (update_peer_credit pkt c)) \<longleftrightarrow>
     pending_contains PResponse (c_pending_rx c)"
  "pending_contains PRst (c_pending_rx (update_peer_credit pkt c)) \<longleftrightarrow>
     pending_contains PRst (c_pending_rx c)"
  by (simp_all add: update_peer_credit_def Let_def)

text \<open>Which guest packets carry data the connection takes.\<close>

definition takes_data :: "conn_state \<Rightarrow> bool" where
  "takes_data st = (case st of Established \<Rightarrow> True | PeerClosed _ ns \<Rightarrow> \<not> ns | _ \<Rightarrow> False)"

lemma send_data_effect:
  "send_data pl c = (c', r) \<Longrightarrow>
    c_state c' = c_state c \<and> c_rx_buf c' = c_rx_buf c \<and>
    (tx_wf (c_tx_buf c) \<longrightarrow> tx_wf (c_tx_buf c') \<and>
       tx_contents (c_tx_buf c') = tx_contents (c_tx_buf c) @ (if is_ok r then pl else []))"
  by (auto simp: send_data_def Let_def tx_push_Ok split: if_splits result.splits)

lemma send_pkt_effect:
  assumes "send_pkt now pkt pl c = (c', r)"
  shows "c_rx_buf c' = c_rx_buf c \<and>
    (tx_wf (c_tx_buf c) \<longrightarrow> tx_wf (c_tx_buf c') \<and>
       tx_contents (c_tx_buf c') = tx_contents (c_tx_buf c) @
         (if is_ok r \<and> p_op pkt = op_code OpRw \<and> takes_data (c_state c) then pl else []))"
proof (cases "p_op pkt = op_code OpRw \<and> takes_data (c_state c)")
  case True
  then have "send_data pl (update_peer_credit pkt c) = (c', r)"
    using assms by (auto simp: send_pkt_def Let_def takes_data_def split: conn_state.splits)
  from send_data_effect [OF this] True show ?thesis by simp
next
  case False
  then have "c_rx_buf c' = c_rx_buf c \<and> c_tx_buf c' = c_tx_buf c"
    using assms
    by (auto simp: send_pkt_def Let_def takes_data_def shutdown_established_def shutdown_again_def
        split: conn_state.splits if_splits)
  then show ?thesis using False by auto
qed

lemma recv_data_effect:
  assumes "recv_data_pkt now pkt k c = (c', r)"
  shows "c_tx_buf c' = c_tx_buf c \<and>
    c_rx_buf c = (case r of Ok (_, pl) \<Rightarrow> pl | Err _ \<Rightarrow> []) @ c_rx_buf c'"
  using assms by (auto simp: recv_data_pkt_def Let_def split: if_splits)

lemma recv_pkt_effect:
  assumes "recv_pkt now k c = (c', r)"
  shows "c_tx_buf c' = c_tx_buf c \<and>
    c_rx_buf c = (case r of Ok (_, pl) \<Rightarrow> pl | Err _ \<Rightarrow> []) @ c_rx_buf c'"
  using assms recv_data_effect [of now "init_pkt c" k
      "c\<lparr>c_pending_rx := fst (pending_remove PRw (c_pending_rx c))\<rparr>" c' r]
  by (auto simp: recv_pkt_def Let_def split: if_splits)

section \<open>Runs of a connection\<close>

text \<open>
  Everything that happens to a connection: data and end-of-stream from the host, packets from
  the guest, packets asked for by the receive queue, flushes to the host stream, and a kill.
\<close>

datatype conn_op =
    HostData "u8 list"
  | HostClosed
  | GuestPkt nat vsock_packet "u8 list"
  | ToGuest nat nat
  | Flush sink
  | Kill

primrec conn_step :: "conn_op \<Rightarrow> vsock_connection \<Rightarrow> vsock_connection" where
  "conn_step (HostData bs) c = push_host_data bs c"
| "conn_step HostClosed c = notify_host_closed c"
| "conn_step (GuestPkt now pkt pl) c = fst (send_pkt now pkt pl c)"
| "conn_step (ToGuest now k) c = fst (recv_pkt now k c)"
| "conn_step (Flush w) c = fst (flush_tx_buf w c)"
| "conn_step Kill c = kill c"

text \<open>The bytes an operation takes from or hands to each side.\<close>

definition host_in :: "conn_op \<Rightarrow> u8 list" where
  "host_in x = (case x of HostData bs \<Rightarrow> bs | _ \<Rightarrow> [])"

definition guest_out :: "conn_op \<Rightarrow> vsock_connection \<Rightarrow> u8 list" where
  "guest_out x c = (case x of ToGuest now k \<Rightarrow>
     (case snd (recv_pkt now k c) of Ok (_, pl) \<Rightarrow> pl | Err _ \<Rightarrow> []) | _ \<Rightarrow> [])"

definition guest_in :: "conn_op \<Rightarrow> vsock_connection \<Rightarrow> u8 list" where
  "guest_in x c = (case x of GuestPkt now pkt pl \<Rightarrow>
     if is_ok (snd (send_pkt now pkt pl c)) \<and> p_op pkt = op_code OpRw \<and> takes_data (c_state c)
     then pl else [] | _ \<Rightarrow> [])"

definition host_out :: "conn_op \<Rightarrow> vsock_connection \<Rightarrow> u8 list" where
  "host_out x c = (case x of Flush w \<Rightarrow>
     drop (length (sk_data w)) (sk_data (fst (snd (flush_tx_buf w c)))) | _ \<Rightarrow> [])"

lemma flush_effect:
  assumes "flush_tx_buf w c = (c', w', r)" "tx_wf (c_tx_buf c)"
  shows "c_rx_buf c' = c_rx_buf c \<and> c_state c' = c_state c \<and> tx_wf (c_tx_buf c') \<and>
    tx_contents (c_tx_buf c) = drop (length (sk_data w)) (sk_data w') @ tx_contents (c_tx_buf c')"
proof -
  obtain b w1 r1 where f: "tx_flush_to (c_tx_buf c) w = (b, w1, r1)" by (cases "tx_flush_to (c_tx_buf c) w")
  have "flush_spec (c_tx_buf c) w b w1 r1" by (rule tx_flush_spec [OF assms(2) f])
  moreover have "c_tx_buf c' = b" "w' = w1" "c_rx_buf c' = c_rx_buf c" "c_state c' = c_state c"
    using assms(1) f by (auto simp: flush_tx_buf_def Let_def split: result.splits)
  ultimately show ?thesis by (auto simp: flush_spec_def)
qed

lemma conn_step_streams:
  assumes "tx_wf (c_tx_buf c)"
  shows "tx_wf (c_tx_buf (conn_step x c)) \<and>
    c_rx_buf c @ host_in x = guest_out x c @ c_rx_buf (conn_step x c) \<and>
    tx_contents (c_tx_buf c) @ guest_in x c = host_out x c @ tx_contents (c_tx_buf (conn_step x c))"
proof (cases x)
  case (GuestPkt now pkt pl)
  then show ?thesis using send_pkt_effect [of now pkt pl c] assms
    by (cases "send_pkt now pkt pl c") (simp add: host_in_def guest_out_def guest_in_def host_out_def)
next
  case (ToGuest now k)
  then show ?thesis using recv_pkt_effect [of now k c] assms
    by (cases "recv_pkt now k c") (simp add: host_in_def guest_out_def guest_in_def host_out_def)
next
  case (Flush w)
  obtain c' w' r where "flush_tx_buf w c = (c', w', r)" by (cases "flush_tx_buf w c")
  then show ?thesis using Flush flush_effect [of w c c' w' r] assms
    by (simp add: host_in_def guest_out_def guest_in_def host_out_def)
qed (use assms in \<open>simp_all add: host_in_def guest_out_def guest_in_def host_out_def
      push_host_data_def notify_host_closed_def kill_def\<close>)

record conn_trace =
  tr_host_in :: "u8 list"
  tr_guest_out :: "u8 list"
  tr_guest_in :: "u8 list"
  tr_host_out :: "u8 list"

fun conn_run :: "conn_op list \<Rightarrow> vsock_connection \<Rightarrow> vsock_connection \<times> conn_trace" where
  "conn_run [] c = (c, \<lparr>tr_host_in = [], tr_guest_out = [], tr_guest_in = [], tr_host_out = []\<rparr>)"
| "conn_run (x # xs) c =
     (case conn_run xs (conn_step x c) of (c', t) \<Rightarrow>
        (c', \<lparr>tr_host_in = host_in x @ tr_host_in t, tr_guest_out = guest_out x c @ tr_guest_out t,
              tr_guest_in = guest_in x c @ tr_guest_in t, tr_host_out = host_out x c @ tr_host_out t\<rparr>))"

text \<open>
  C1. A connection carries two reliable byte streams. Over any sequence of operations, the
  bytes the host pushed are, in order and without loss or duplication, the payloads delivered
  to the guest followed by what is still buffered; and the payloads accepted from the guest
  are the bytes flushed to the host followed by what is in the ring buffer.
\<close>

theorem vsock_streams:
  assumes "tx_wf (c_tx_buf c)" "conn_run xs c = (c', t)"
  shows "tx_wf (c_tx_buf c') \<and>
    c_rx_buf c @ tr_host_in t = tr_guest_out t @ c_rx_buf c' \<and>
    tx_contents (c_tx_buf c) @ tr_guest_in t = tr_host_out t @ tx_contents (c_tx_buf c')"
  using assms
proof (induction xs arbitrary: c t)
  case (Cons x xs)
  obtain c2 t2 where run: "conn_run xs (conn_step x c) = (c2, t2)" by (cases "conn_run xs (conn_step x c)")
  note st = conn_step_streams [OF Cons.prems(1), of x]
  have "tx_wf (c_tx_buf c2) \<and>
      c_rx_buf (conn_step x c) @ tr_host_in t2 = tr_guest_out t2 @ c_rx_buf c2 \<and>
      tx_contents (c_tx_buf (conn_step x c)) @ tr_guest_in t2 = tr_host_out t2 @ tx_contents (c_tx_buf c2)"
    using Cons.IH [of "conn_step x c" t2] st run Cons.prems(2) by auto
  then show ?case using st Cons.prems(2) run
    by (auto simp: append_assoc [symmetric] simp del: append_assoc) (simp_all)
qed auto

theorem vsock_streams_witness:
  "\<exists>c' t. conn_run [HostData [1, 2, 3], ToGuest 0 64, ToGuest 0 2]
       ((new_peer_init 2 3 80 9 4096)\<lparr>c_state := Established\<rparr>) = (c', t) \<and>
     tr_guest_out t @ c_rx_buf c' = [1, 2, 3]"
proof -
  let ?c = "(new_peer_init 2 3 80 9 4096)\<lparr>c_state := Established\<rparr>"
  obtain c' t where r: "conn_run [HostData [1, 2, 3], ToGuest 0 64, ToGuest 0 2] ?c = (c', t)"
    by (metis surj_pair)
  have wf: "tx_wf (c_tx_buf ?c)" by (simp add: new_peer_init_def)
  have "tr_host_in t = [1, 2, 3]" using r by (auto simp: host_in_def split: prod.splits)
  then show ?thesis using vsock_streams [OF wf r] r by (auto simp: new_peer_init_def)
qed

section \<open>Credit\<close>

text \<open>The guest's buffer holds what was sent and not yet consumed; credit is what fits on top.\<close>

definition credit_ok :: "vsock_connection \<Rightarrow> bool" where
  "credit_ok c \<longleftrightarrow> unat (c_rx_cnt c - c_peer_fwd_cnt c) \<le> unat (c_peer_buf_alloc c)"

lemma unat_peer_avail_credit:
  "credit_ok c \<Longrightarrow> unat (peer_avail_credit c) = unat (c_peer_buf_alloc c) - unat (c_rx_cnt c - c_peer_fwd_cnt c)"
  by (simp add: credit_ok_def peer_avail_credit_def unat_sub word_le_nat_alt)

lemma credit_ok_sent:
  assumes "credit_ok c" "n \<le> unat (peer_avail_credit c)" "c_rx_cnt c' = c_rx_cnt c + of_nat n"
    "c_peer_fwd_cnt c' = c_peer_fwd_cnt c" "c_peer_buf_alloc c' = c_peer_buf_alloc c"
  shows "credit_ok c'"
proof -
  let ?o = "c_rx_cnt c - c_peer_fwd_cnt c"
  have fit: "unat ?o + n \<le> unat (c_peer_buf_alloc c)"
    using assms(1,2) unat_peer_avail_credit [OF assms(1)] by (simp add: credit_ok_def)
  have "unat (c_peer_buf_alloc c) < 2 ^ LENGTH(32)" by (rule unsigned_less)
  then have "unat (?o + of_nat n) = unat ?o + n"
    using fit by (simp add: unat_word_ariths unat_of_nat)
  moreover have "c_rx_cnt c' - c_peer_fwd_cnt c' = ?o + of_nat n" using assms(3,4) by simp
  ultimately show ?thesis using fit assms(5) unfolding credit_ok_def by simp
qed

lemma recv_data_credit:
  assumes "recv_data_pkt now pkt k c = (c', Ok (pkt', pl))" "p_len pkt = 0"
  shows "length pl \<le> k \<and> length pl \<le> unat (peer_avail_credit c) \<and> p_len pkt' = of_nat (length pl) \<and>
    c_rx_cnt c' = c_rx_cnt c + of_nat (length pl) \<and> c_peer_fwd_cnt c' = c_peer_fwd_cnt c \<and>
    c_peer_buf_alloc c' = c_peer_buf_alloc c"
proof -
  have "unat (peer_avail_credit c) < 2 ^ LENGTH(32)" by (rule unsigned_less)
  then have "min (min k (unat (peer_avail_credit c))) (length (c_rx_buf c)) < 2 ^ 32" by simp
  then show ?thesis using assms
    by (auto simp: recv_data_pkt_def Let_def u32_sat_def min_def split: if_splits)
qed

text \<open>
  C16. Flow control is respected. A packet produced for the guest never carries more than the
  guest's descriptor can hold nor more than the credit it granted; the length field and the
  sent counter account for the payload exactly; and the bytes in flight, computed over
  wrapping 32-bit counters, stay within the buffer the guest advertised.
\<close>

theorem vsock_credit_respected:
  assumes "credit_ok c" "recv_pkt now k c = (c', Ok (pkt, pl))"
  shows "length pl \<le> k \<and> length pl \<le> unat (peer_avail_credit c) \<and> p_len pkt = of_nat (length pl) \<and>
    c_rx_cnt c' = c_rx_cnt c + of_nat (length pl) \<and> credit_ok c'"
proof -
  let ?c1 = "c\<lparr>c_pending_rx := fst (pending_remove PRw (c_pending_rx c))\<rparr>"
  have "length pl \<le> k \<and> length pl \<le> unat (peer_avail_credit c) \<and> p_len pkt = of_nat (length pl) \<and>
      c_rx_cnt c' = c_rx_cnt c + of_nat (length pl) \<and> c_peer_fwd_cnt c' = c_peer_fwd_cnt c \<and>
      c_peer_buf_alloc c' = c_peer_buf_alloc c"
    using assms(2) recv_data_credit [of now "init_pkt c" k ?c1 c' pkt pl]
    by (auto simp: recv_pkt_def Let_def init_pkt_def peer_avail_credit_def split: if_splits)
  then show ?thesis using credit_ok_sent [OF assms(1), of "length pl" c'] by simp
qed

definition demo_conn :: vsock_connection where
  "demo_conn = (new_peer_init 2 3 80 9 2)\<lparr>c_state := Established, c_pending_rx := 8, c_rx_buf := [5, 6, 7]\<rparr>"

lemma demo_conn_recv:
  "recv_pkt 0 64 demo_conn =
     (demo_conn\<lparr>c_pending_rx := 0, c_rx_buf := [7], c_rx_cnt := 2\<rparr>,
      Ok ((init_pkt demo_conn)\<lparr>p_op := 5, p_len := 2\<rparr>, [5, 6]))"
  by (simp add: recv_pkt_def recv_data_pkt_def demo_conn_def new_peer_init_def pending_contains_def
      pending_remove_def need_credit_update_from_peer_def peer_avail_credit_def u32_sat_def
      into_mask_def Let_def init_pkt_def)

theorem vsock_credit_respected_witness:
  "length [5, 6 :: u8] \<le> unat (peer_avail_credit demo_conn) \<and>
   credit_ok (demo_conn\<lparr>c_pending_rx := 0, c_rx_buf := [7], c_rx_cnt := 2\<rparr>)"
  using vsock_credit_respected [OF _ demo_conn_recv]
  by (simp add: credit_ok_def demo_conn_def new_peer_init_def)

section \<open>Connection states\<close>










definition hands_out_rst :: "conn_op \<Rightarrow> vsock_connection \<Rightarrow> bool" where
  "hands_out_rst x c = (case x of ToGuest now k \<Rightarrow>
     (case snd (recv_pkt now k c) of Ok (pkt, _) \<Rightarrow> p_op pkt = op_code OpRst | Err _ \<Rightarrow> False) | _ \<Rightarrow> False)"

text \<open>The states a connection of the device goes through: it is dropped once a reset is handed out.\<close>

inductive conn_live :: "vsock_connection \<Rightarrow> bool" where
  from_guest: "conn_live (new_peer_init lc pc lp pp ba)"
| from_host: "conn_live (new_local_init lc pc lp pp)"
| step: "conn_live c \<Longrightarrow> \<not> hands_out_rst x c \<Longrightarrow> conn_live (conn_step x c)"

















text \<open>The three kinds of edges that the diagram does not show are all taken.\<close>

lemma undocumented_edges_taken:
  "\<exists>c. conn_live c \<and> c_state c = LocalInit \<and> c_state (conn_step Kill c) = Killed"
  "\<exists>c x. conn_live c \<and> c_state c = PeerClosed False True \<and> c_state (conn_step x c) = PeerClosed True True"
  "\<exists>c x. conn_live c \<and> c_state c = PeerClosed False True \<and> c_state (conn_step x c) = LocalClosed"
proof -
  have "c_state (new_local_init 2 3 80 9) = LocalInit" "c_state (conn_step Kill (new_local_init 2 3 80 9)) = Killed"
    by (simp_all add: new_local_init_def kill_def)
  then show "\<exists>c. conn_live c \<and> c_state c = LocalInit \<and> c_state (conn_step Kill c) = Killed"
    using conn_live.from_host by blast
  let ?shut = "\<lambda>f. (init_pkt (new_peer_init 3 2 9 80 0))\<lparr>p_op := op_code OpShutdown, p_flags := f\<rparr>"
  define c1 where "c1 = conn_step (ToGuest 0 64) (new_peer_init 2 3 80 9 4096)"
  define c2 where "c2 = conn_step (GuestPkt 0 (?shut VSOCK_FLAGS_SHUTDOWN_SEND) []) c1"
  define c3 where "c3 = conn_step HostClosed c2"
  have l2: "conn_live c2" unfolding c2_def c1_def
    by (intro conn_live.step conn_live.intros) (simp_all add: hands_out_rst_def recv_pkt_def new_peer_init_def pending_contains_def)
  have l3: "conn_live c3" unfolding c3_def by (rule conn_live.step [OF l2]) (simp add: hands_out_rst_def)
  have c1: "c1 = (new_peer_init 2 3 80 9 4096)\<lparr>c_pending_rx := 0, c_state := Established\<rparr>"
    by (simp add: c1_def recv_pkt_def new_peer_init_def pending_contains_def pending_remove_def)
  have c2: "c2 = (new_peer_init 2 3 80 9 65536)\<lparr>c_pending_rx := 0, c_state := PeerClosed False True\<rparr>"
    by (simp add: c2_def c1 send_pkt_def update_peer_credit_def shutdown_established_def new_peer_init_def init_pkt_def Let_def)
  have "c_state (conn_step (GuestPkt 0 (?shut VSOCK_FLAGS_SHUTDOWN_RCV) []) c2) = PeerClosed True True"
    by (simp add: c2 send_pkt_def update_peer_credit_def shutdown_again_def new_peer_init_def init_pkt_def Let_def)
  moreover have "c_state c2 = PeerClosed False True" unfolding c2 by simp
  ultimately show "\<exists>c x. conn_live c \<and> c_state c = PeerClosed False True \<and> c_state (conn_step x c) = PeerClosed True True"
    using l2 by blast
  have "c_state (conn_step (ToGuest 0 64) c3) = LocalClosed" "c_state c3 = PeerClosed False True"
    by (simp_all add: c3_def c2 notify_host_closed_def recv_pkt_def recv_data_pkt_def new_peer_init_def pending_contains_def
        pending_insert_def pending_remove_def need_credit_update_from_peer_def peer_avail_credit_def add_pending_def)
  then show "\<exists>c x. conn_live c \<and> c_state c = PeerClosed False True \<and> c_state (conn_step x c) = LocalClosed"
    using l3 by blast
qed

section \<open>Delivery of host data\<close>

lemma recv_pkt_rw:
  assumes "c_state c = Established" "c_pending_rx c = into_mask PRw" "peer_avail_credit c \<noteq> 0"
    "c_rx_buf c \<noteq> []" "0 < k" "n = min (min k (unat (peer_avail_credit c))) (length (c_rx_buf c))"
  shows "recv_pkt now k c =
    (c\<lparr>c_pending_rx := 0, c_rx_buf := drop n (c_rx_buf c), c_rx_cnt := c_rx_cnt c + u32_sat n,
        c_last_fwd_cnt_to_peer := c_fwd_cnt c\<rparr>,
     Ok ((init_pkt c)\<lparr>p_op := op_code OpRw, p_len := u32_sat n\<rparr>, take n (c_rx_buf c)))"
  using assms
  by (simp add: recv_pkt_def recv_data_pkt_def Let_def pending_contains_def pending_remove_def
      need_credit_update_from_peer_def peer_avail_credit_def min_def)

lemma recv_pkt_idle: "c_pending_rx c = 0 \<Longrightarrow> recv_pkt now k c = (c, Err NoData)"
  by (simp add: recv_pkt_def pending_contains_def)

text \<open>
  A delivery that does not empty the host buffer forgets the rest. With only the data
  indication pending, a packet that takes part of the buffered host data (the guest's
  descriptor or its credit is smaller) leaves the remainder buffered with nothing pending: the
  device no longer sees the connection as having anything to deliver, and asking again yields
  no packet, however much space the guest offers.
\<close>

lemma vsock_partial_delivery_stalls:
  assumes "c_state c = Established" "c_pending_rx c = into_mask PRw" "peer_avail_credit c \<noteq> 0"
    "0 < k" "min k (unat (peer_avail_credit c)) < length (c_rx_buf c)"
  shows "\<exists>c' pkt pl. recv_pkt now k c = (c', Ok (pkt, pl)) \<and> c_rx_buf c = pl @ c_rx_buf c' \<and>
    c_rx_buf c' \<noteq> [] \<and> \<not> has_pending_rx c' \<and> (\<forall>now' k'. recv_pkt now' k' c' = (c', Err NoData))"
proof -
  let ?n = "min (min k (unat (peer_avail_credit c))) (length (c_rx_buf c))"
  have ne: "c_rx_buf c \<noteq> []" using assms(5) by auto
  note r = recv_pkt_rw [OF assms(1-3) ne assms(4) refl, of now]
  show ?thesis
    unfolding r by (intro exI conjI, rule refl) (use assms(5) in
      \<open>auto simp: has_pending_rx_def pending_is_empty_def recv_pkt_idle\<close>)
qed

lemma demo_conn_arms:
  "c_state demo_conn = Established" "c_pending_rx demo_conn = into_mask PRw"
  "peer_avail_credit demo_conn = 2" "c_rx_buf demo_conn = [5, 6, 7]"
  by (simp_all add: demo_conn_def new_peer_init_def peer_avail_credit_def)

text \<open>
  The end of the host stream is lost behind buffered data. When the host closes an
  established connection that still has buffered data fitting in one packet, the packet with
  the data consumes the only indication: the connection stays established with nothing
  buffered, and no later delivery produces the shutdown that the close was to announce, even
  after the guest answers with credit updates.
\<close>

lemma vsock_close_after_data_lost:
  assumes "c_state c = Established" "c_pending_rx c = into_mask PRw" "peer_avail_credit c \<noteq> 0"
    "c_rx_buf c \<noteq> []" "length (c_rx_buf c) \<le> k" "length (c_rx_buf c) \<le> unat (peer_avail_credit c)"
    "p_op cu = op_code OpCreditUpdate"
  shows "\<exists>c' pkt. recv_pkt now k (notify_host_closed c) = (c', Ok (pkt, c_rx_buf c)) \<and>
    p_op pkt = op_code OpRw \<and> c_state c' = Established \<and> c_host_closed c' \<and> \<not> has_pending_rx c' \<and>
    (\<forall>now' k'. snd (recv_pkt now' k' (fst (send_pkt now' cu [] c'))) = Err NoData)"
proof -
  let ?c = "notify_host_closed c"
  have c: "c_state ?c = Established" "c_pending_rx ?c = into_mask PRw" "peer_avail_credit ?c = peer_avail_credit c"
    "c_rx_buf ?c = c_rx_buf c" "c_host_closed ?c"
    using assms(1,2)
    by (simp_all add: notify_host_closed_def pending_insert_def peer_avail_credit_def)
  have k: "0 < k" using assms(4,5) by (cases "c_rx_buf c") auto
  have n: "length (c_rx_buf ?c) = min (min k (unat (peer_avail_credit ?c))) (length (c_rx_buf ?c))"
    using assms(5,6) c by simp
  note r = recv_pkt_rw [OF c(1,2) _ _ k n, of now, unfolded c(3,4), OF assms(3,4), unfolded take_all [OF order_refl]]
  show ?thesis
    unfolding r by (intro exI conjI, rule refl)
      (use assms(7) c in \<open>simp_all add: has_pending_rx_def pending_is_empty_def send_pkt_def
         update_peer_credit_def Let_def recv_pkt_idle\<close>)
qed

end
