(* ===== verification/Vsock_Device.thy ===== *)
theory Vsock_Device
  imports Queue_Pass Vsock_Connection Mmio_Transport "HOL-Library.AList"
begin

text \<open>
  The vsock device of \<^verbatim>\<open>src/crates/visor-vmm/src/devices/vsock.rs\<close>: the connection map, the
  transmit queue that feeds guest packets to the connections, and the receive queue that fills
  guest buffers from them. The \<open>HashMap\<close> of connections is an association list with
  distinct keys; its iteration order, which the standard library leaves open, is the argument
  \<open>ord\<close>, and \<open>now\<close> is the clock during a call.
\<close>

section \<open>The device\<close>

record conn_map_key =
  k_local_port :: u32
  k_peer_port :: u32

type_synonym conn_map = "(conn_map_key \<times> vsock_connection) list"
type_synonym map_order = "conn_map \<Rightarrow> conn_map"

record vsock_device =
  guest_cid :: u64
  vs_avail_features :: u64
  vs_acked_features :: u64
  vs_queues :: "virt_queue list"
  vs_activated :: bool
  connections :: conn_map
  tx_notified :: bool

abbreviation (input) HOST_CID :: u64 where "HOST_CID \<equiv> 2"

definition vsock_new :: "u64 \<Rightarrow> vsock_device" where
  "vsock_new cid = \<lparr>guest_cid = cid, vs_avail_features = VIRTIO_F_VERSION_1, vs_acked_features = 0,
     vs_queues = [virt_queue_new 256, virt_queue_new 256, virt_queue_new 256], vs_activated = False,
     connections = [], tx_notified = False\<rparr>"

definition add_connection :: "conn_map_key \<Rightarrow> vsock_connection \<Rightarrow> vsock_device \<Rightarrow> vsock_device" where
  "add_connection key conn dev = dev\<lparr>connections := AList.update key conn (connections dev)\<rparr>"

definition remove_connection :: "conn_map_key \<Rightarrow> vsock_device \<Rightarrow> vsock_device \<times> vsock_connection option" where
  "remove_connection key dev =
     (dev\<lparr>connections := AList.delete key (connections dev)\<rparr>, map_of (connections dev) key)"

definition expire_connections :: "nat \<Rightarrow> map_order \<Rightarrow> vsock_device \<Rightarrow> vsock_device" where
  "expire_connections now ord dev =
     (let expired = map fst (filter (\<lambda>(_, conn). has_expired now conn) (ord (connections dev)))
      in dev\<lparr>connections := fold AList.delete expired (connections dev)\<rparr>)"

section \<open>Transmit: guest to host\<close>

abbreviation vsock_read_desc :: "guest_memory \<Rightarrow> virt_queue \<Rightarrow> u16 \<Rightarrow> (virtq_desc, vsock_error) result" where
  "vsock_read_desc \<equiv> read_desc VsockMemory VsockInvalidDescriptor"

definition read_tx_payload ::
  "guest_memory \<Rightarrow> virt_queue \<Rightarrow> virtq_desc \<Rightarrow> vsock_packet \<Rightarrow> (u8 list, vsock_error) result" where
  "read_tx_payload mem q header_desc pkt =
     (if has_next header_desc
      then case vsock_read_desc mem q (d_next header_desc) of
             Err e \<Rightarrow> Err e
           | Ok data_desc \<Rightarrow>
               (let len = min (unat (d_len data_desc)) (unat (p_len pkt))
                in if len > 0
                   then case read_bytes mem (d_addr data_desc) len of
                          Err e \<Rightarrow> Err (VsockMemory e) | Ok bs \<Rightarrow> Ok bs
                   else Ok [])
      else Ok [])"

definition pkt_key :: "vsock_packet \<Rightarrow> conn_map_key" where
  "pkt_key pkt = \<lparr>k_local_port = p_dst_port pkt, k_peer_port = p_src_port pkt\<rparr>"

definition dispatch_tx :: "nat \<Rightarrow> vsock_packet \<Rightarrow> u8 list \<Rightarrow> vsock_device \<Rightarrow> vsock_device" where
  "dispatch_tx now pkt payload dev =
     (let key = pkt_key pkt
      in case op_from_u16 (p_op pkt) of
           Some OpRequest \<Rightarrow>
             if map_of (connections dev) key = None
             then dev\<lparr>connections := AList.update key
                    (new_peer_init HOST_CID (guest_cid dev) (p_dst_port pkt) (p_src_port pkt) (p_buf_alloc pkt))
                    (connections dev)\<rparr>
             else dev
         | Some OpRst \<Rightarrow> dev\<lparr>connections := AList.delete key (connections dev)\<rparr>
         | _ \<Rightarrow>
             (case map_of (connections dev) key of
                Some conn \<Rightarrow>
                  dev\<lparr>connections := AList.update key (fst (send_pkt now pkt payload conn)) (connections dev)\<rparr>
              | None \<Rightarrow> dev))"

definition handle_tx_chain ::
  "nat \<Rightarrow> guest_memory \<Rightarrow> vsock_device \<Rightarrow> virt_queue \<Rightarrow> u16 \<Rightarrow> vsock_device \<times> (unit, vsock_error) result" where
  "handle_tx_chain now mem dev q head_idx =
     (case vsock_read_desc mem q head_idx of
        Err e \<Rightarrow> (dev, Err e)
      | Ok header_desc \<Rightarrow>
          if unat (d_len header_desc) < VSOCK_PKT_HDR_SIZE then (dev, Ok ())
          else case read_bytes mem (d_addr header_desc) VSOCK_PKT_HDR_SIZE of
                 Err e \<Rightarrow> (dev, Err (VsockMemory e))
               | Ok hdr_bytes \<Rightarrow>
                   (case pkt_from_bytes hdr_bytes of
                      None \<Rightarrow> (dev, Ok ())
                    | Some pkt \<Rightarrow>
                        (case read_tx_payload mem q header_desc pkt of
                           Err e \<Rightarrow> (dev, Err e)
                         | Ok payload \<Rightarrow> (dispatch_tx now pkt payload dev, Ok ()))))"

definition vsock_tx_step :: "nat \<Rightarrow> (vsock_device, vsock_error) queue_step" where
  "vsock_tx_step now mem dev q =
     (case read_avail_entry VsockMemory mem q of
        Err e \<Rightarrow> (mem, dev, Fail e)
      | Ok head_idx \<Rightarrow>
          (let dev' = fst (handle_tx_chain now mem dev q head_idx)
           in case write_used_entry VsockMemory mem q head_idx 0 of
                (mem', Err e) \<Rightarrow> (mem', dev', Fail e)
              | (mem', Ok _) \<Rightarrow> (mem', dev', Next)))"

definition process_tx_queue_inner ::
  "nat \<Rightarrow> guest_memory \<Rightarrow> vsock_device \<Rightarrow> virt_queue \<Rightarrow>
     guest_memory \<times> vsock_device \<times> virt_queue \<times> (bool, vsock_error) result" where
  "process_tx_queue_inner now = queue_pass VsockMemory (vsock_tx_step now)"

section \<open>Receive: host to guest\<close>

definition rx_buffer ::
  "guest_memory \<Rightarrow> virt_queue \<Rightarrow> virtq_desc \<Rightarrow> (u64 option \<times> nat, vsock_error) result" where
  "rx_buffer mem q header_desc =
     (if has_next header_desc
      then case vsock_read_desc mem q (d_next header_desc) of
             Err e \<Rightarrow> Err e
           | Ok data_desc \<Rightarrow> Ok (Some (d_addr data_desc), unat (d_len data_desc))
      else let inline_capacity = unat (d_len header_desc) - VSOCK_PKT_HDR_SIZE
           in Ok (if inline_capacity > 0 then Some (d_addr header_desc + 44) else None, inline_capacity))"

text \<open>The first pending connection that produces a packet; the ones tried before it keep their changes.\<close>

fun rx_first ::
  "nat \<Rightarrow> nat \<Rightarrow> conn_map_key list \<Rightarrow> conn_map \<Rightarrow> conn_map \<times> (conn_map_key \<times> vsock_packet \<times> u8 list) option" where
  "rx_first now max_data_len [] conns = (conns, None)"
| "rx_first now max_data_len (key # keys) conns =
     (case map_of conns key of
        None \<Rightarrow> rx_first now max_data_len keys conns
      | Some conn \<Rightarrow>
          (case recv_pkt now max_data_len conn of
             (conn', Ok (pkt, payload)) \<Rightarrow> (AList.update key conn' conns, Some (key, pkt, payload))
           | (conn', Err _) \<Rightarrow> rx_first now max_data_len keys (AList.update key conn' conns)))"

definition rx_payload_write ::
  "guest_memory \<Rightarrow> u64 option \<Rightarrow> nat \<Rightarrow> u8 list \<Rightarrow> (guest_memory \<times> u32, vsock_error) result" where
  "rx_payload_write mem payload_addr max_data_len payload =
     (if payload = [] then Ok (mem, 44)
      else let write_len = min (length payload) max_data_len;
               total = u32_saturating_add 44 (u32_sat write_len)
           in case payload_addr of
                None \<Rightarrow> Ok (mem, total)
              | Some addr \<Rightarrow>
                  (case write_bytes mem addr (take write_len payload) of
                     Err e \<Rightarrow> Err (VsockMemory e)
                   | Ok mem' \<Rightarrow> Ok (mem', total)))"

definition rx_deliver ::
  "guest_memory \<Rightarrow> virt_queue \<Rightarrow> u16 \<Rightarrow> virtq_desc \<Rightarrow> u64 option \<Rightarrow> nat \<Rightarrow> vsock_packet \<Rightarrow> u8 list \<Rightarrow>
     guest_memory \<times> (unit, vsock_error) result" where
  "rx_deliver mem q head_idx header_desc payload_addr max_data_len pkt payload =
     (case (if unat (d_len header_desc) \<ge> VSOCK_PKT_HDR_SIZE
            then write_bytes mem (d_addr header_desc) (pkt_to_bytes pkt) else Ok mem) of
        Err e \<Rightarrow> (mem, Err (VsockMemory e))
      | Ok mem1 \<Rightarrow>
          (case rx_payload_write mem1 payload_addr max_data_len payload of
             Err e \<Rightarrow> (mem1, Err e)
           | Ok (mem2, total_written) \<Rightarrow> write_used_entry VsockMemory mem2 q head_idx total_written))"

definition vsock_rx_step :: "nat \<Rightarrow> map_order \<Rightarrow> (vsock_device, vsock_error) queue_step" where
  "vsock_rx_step now ord mem dev q =
     (let pending_keys = map fst (filter (\<lambda>(_, conn). has_pending_rx conn) (ord (connections dev)))
      in if pending_keys = [] then (mem, dev, Stop)
         else case read_avail_entry VsockMemory mem q of
                Err e \<Rightarrow> (mem, dev, Fail e)
              | Ok head_idx \<Rightarrow>
                  (case vsock_read_desc mem q head_idx of
                     Err e \<Rightarrow> (mem, dev, Fail e)
                   | Ok header_desc \<Rightarrow>
                       (case rx_buffer mem q header_desc of
                          Err e \<Rightarrow> (mem, dev, Fail e)
                        | Ok (payload_addr, max_data_len) \<Rightarrow>
                            (case rx_first now max_data_len pending_keys (connections dev) of
                               (conns, None) \<Rightarrow> (mem, dev\<lparr>connections := conns\<rparr>, Stop)
                             | (conns, Some (key, pkt, payload)) \<Rightarrow>
                                 (case rx_deliver mem q head_idx header_desc payload_addr max_data_len pkt payload of
                                    (mem', Err e) \<Rightarrow> (mem', dev\<lparr>connections := conns\<rparr>, Fail e)
                                  | (mem', Ok _) \<Rightarrow>
                                      (mem', dev\<lparr>connections :=
                                         if p_op pkt = op_code OpRst then AList.delete key conns else conns\<rparr>, Next))))))"

definition process_rx_queue_inner ::
  "nat \<Rightarrow> map_order \<Rightarrow> guest_memory \<Rightarrow> vsock_device \<Rightarrow> virt_queue \<Rightarrow>
     guest_memory \<times> vsock_device \<times> virt_queue \<times> (bool, vsock_error) result" where
  "process_rx_queue_inner now ord = queue_pass VsockMemory (vsock_rx_step now ord)"

section \<open>The trait methods\<close>

definition run_rx ::
  "nat \<Rightarrow> map_order \<Rightarrow> guest_memory \<Rightarrow> vsock_device \<Rightarrow> vsock_device \<times> guest_memory \<times> bool" where
  "run_rx now ord mem dev =
     (case process_rx_queue_inner now ord mem dev (vs_queues dev ! 0) of
        (mem', dev', q', r) \<Rightarrow>
          (dev'\<lparr>vs_queues := store_indices 0 q' (vs_queues dev')\<rparr>, mem', unwrap_or r False))"

definition vsock_process_queue ::
  "nat \<Rightarrow> map_order \<Rightarrow> nat \<Rightarrow> guest_memory \<Rightarrow> vsock_device \<Rightarrow>
     vsock_device \<times> guest_memory \<times> (bool, virtio_error) result" where
  "vsock_process_queue now ord queue_idx mem dev =
     (if queue_idx = 1
      then case process_tx_queue_inner now mem dev (vs_queues dev ! 1) of
             (mem1, dev1, q1, r) \<Rightarrow>
               (let tx_ok = unwrap_or r False
                in case run_rx now ord mem1 (dev1\<lparr>vs_queues := store_indices 1 q1 (vs_queues dev1)\<rparr>) of
                     (dev2, mem2, rx_ok) \<Rightarrow>
                       (if tx_ok then dev2\<lparr>tx_notified := True\<rparr> else dev2, mem2, Ok (tx_ok \<or> rx_ok)))
      else if queue_idx = 0
      then case run_rx now ord mem dev of (dev1, mem1, rx_ok) \<Rightarrow> (dev1, mem1, Ok rx_ok)
      else (dev, mem, Ok False))"

definition vsock_reset :: "vsock_device \<Rightarrow> vsock_device" where
  "vsock_reset dev =
     (let dev1 = dev\<lparr>vs_activated := False\<rparr>;
          dev2 = (if vs_activated dev then dev1\<lparr>connections := []\<rparr> else dev1)
      in dev2\<lparr>vs_queues := map virt_queue_reset (vs_queues dev2)\<rparr>)"

definition vsock_ops :: "nat \<Rightarrow> map_order \<Rightarrow> vsock_device virtio_ops" where
  "vsock_ops now ord = \<lparr>vd_device_type = (\<lambda>_. Vsock),
     vd_avail_features = vs_avail_features,
     vd_acked_features = vs_acked_features,
     vd_set_acked_features = (\<lambda>f. vs_acked_features_update (\<lambda>_. f)),
     vd_queues = vs_queues,
     vd_update_queues = vs_queues_update,
     vd_read_config = (\<lambda>dev. read_config_u64 (guest_cid dev)),
     vd_write_config = (\<lambda>off bs dev. dev),
     vd_activate = (\<lambda>dev. (dev\<lparr>vs_activated := True\<rparr>, Ok ())),
     vd_is_activated = vs_activated,
     vd_reset = vsock_reset,
     vd_process_queue = vsock_process_queue now ord\<rparr>"

section \<open>Connections keep their identity\<close>

definition conn_ident :: "vsock_connection \<Rightarrow> u64 \<times> u64 \<times> u32 \<times> u32" where
  "conn_ident c = (c_local_cid c, c_peer_cid c, c_local_port c, c_peer_port c)"

lemma conn_ident_add_pending [simp]: "conn_ident (add_pending it c) = conn_ident c"
  by (simp add: conn_ident_def add_pending_def)

lemma conn_ident_updates [simp]:
  "conn_ident (c\<lparr>c_state := a\<rparr>) = conn_ident c" "conn_ident (c\<lparr>c_tx_buf := b\<rparr>) = conn_ident c"
  "conn_ident (c\<lparr>c_expiry := e\<rparr>) = conn_ident c" "conn_ident (c\<lparr>c_pending_rx := p\<rparr>) = conn_ident c"
  "conn_ident (c\<lparr>c_rx_buf := r\<rparr>) = conn_ident c" "conn_ident (c\<lparr>c_host_closed := h\<rparr>) = conn_ident c"
  "conn_ident (c\<lparr>c_last_fwd_cnt_to_peer := l\<rparr>) = conn_ident c" "conn_ident (c\<lparr>c_rx_cnt := n\<rparr>) = conn_ident c"
  "conn_ident (c\<lparr>c_fwd_cnt := f\<rparr>) = conn_ident c" "conn_ident (c\<lparr>c_peer_buf_alloc := q\<rparr>) = conn_ident c"
  "conn_ident (c\<lparr>c_peer_fwd_cnt := g\<rparr>) = conn_ident c"
  by (simp_all add: conn_ident_def)

lemma send_pkt_ident [simp]: "conn_ident (fst (send_pkt now pkt pl c)) = conn_ident c"
  by (simp add: send_pkt_def update_peer_credit_def send_data_def shutdown_established_def shutdown_again_def
      Let_def split: conn_state.split result.split)

lemma recv_data_pkt_ident [simp]: "conn_ident (fst (recv_data_pkt now pkt k c)) = conn_ident c"
  by (simp add: recv_data_pkt_def Let_def)

lemma recv_pkt_ident [simp]: "conn_ident (fst (recv_pkt now k c)) = conn_ident c"
  by (simp add: recv_pkt_def Let_def)

lemma conn_step_ident [simp]: "conn_ident (conn_step x c) = conn_ident c"
  by (cases x) (simp_all add: push_host_data_def notify_host_closed_def kill_def flush_tx_buf_def Let_def
      split: prod.split result.split)

text \<open>
  What the connection map holds: the host and guest identifiers, the ports of its key, and a
  well-formed transmit buffer.
\<close>

definition conn_ok :: "u64 \<Rightarrow> conn_map_key \<Rightarrow> vsock_connection \<Rightarrow> bool" where
  "conn_ok cid k c \<longleftrightarrow> conn_ident c = (HOST_CID, cid, k_local_port k, k_peer_port k) \<and> tx_wf (c_tx_buf c)"

definition conns_ok :: "u64 \<Rightarrow> conn_map \<Rightarrow> bool" where
  "conns_ok cid m \<longleftrightarrow> distinct (map fst m) \<and> (\<forall>k c. map_of m k = Some c \<longrightarrow> conn_ok cid k c)"

lemma conn_ok_step: "conn_ok cid k c \<Longrightarrow> conn_ok cid k (conn_step x c)"
  using conn_step_streams [of c x] by (simp add: conn_ok_def)

lemma conn_ok_send: "conn_ok cid k c \<Longrightarrow> conn_ok cid k (fst (send_pkt now pkt pl c))"
  using conn_ok_step [of cid k c "GuestPkt now pkt pl"] by simp

lemma conn_ok_recv: "conn_ok cid k c \<Longrightarrow> conn_ok cid k (fst (recv_pkt now n c))"
  using conn_ok_step [of cid k c "ToGuest now n"] by simp

lemma conns_ok_update: "conns_ok cid m \<Longrightarrow> conn_ok cid k c \<Longrightarrow> conns_ok cid (AList.update k c m)"
  by (auto simp: conns_ok_def distinct_update update_conv')

lemma conns_ok_delete: "conns_ok cid m \<Longrightarrow> conns_ok cid (AList.delete k m)"
  by (auto simp: conns_ok_def distinct_delete delete_conv' split: if_splits)

lemma conns_ok_get: "conns_ok cid m \<Longrightarrow> map_of m k = Some c \<Longrightarrow> conn_ok cid k c"
  by (simp add: conns_ok_def)

lemma rx_first_ok: "conns_ok cid m \<Longrightarrow> conns_ok cid (fst (rx_first now n ks m))"
proof (induction ks arbitrary: m)
  case (Cons k ks)
  show ?case
  proof (cases "map_of m k")
    case (Some c)
    have "conns_ok cid (AList.update k (fst (recv_pkt now n c)) m)"
      using Cons.prems conns_ok_get [OF Cons.prems Some] by (intro conns_ok_update conn_ok_recv)
    then show ?thesis using Some Cons.IH
      by (cases "recv_pkt now n c") (auto split: result.split)
  qed (use Cons in simp)
qed simp

lemma dispatch_tx_ok:
  "conns_ok (guest_cid dev) (connections dev) \<Longrightarrow>
     conns_ok (guest_cid dev) (connections (dispatch_tx now pkt pl dev))"
  by (auto simp: dispatch_tx_def Let_def pkt_key_def conn_ok_def new_peer_init_def conn_ident_def
      intro!: conns_ok_update conns_ok_delete conn_ok_send dest: conns_ok_get
      split: option.split vsock_op.split)

section \<open>The device provides the virtio contract\<close>

definition vsock_frame :: "vsock_device \<Rightarrow> u64 \<times> u64 \<times> u64 \<times> virt_queue list \<times> bool" where
  "vsock_frame d = (guest_cid d, vs_avail_features d, vs_acked_features d, vs_queues d, vs_activated d)"

lemma vsock_frame_connections [simp]: "vsock_frame (d\<lparr>connections := m\<rparr>) = vsock_frame d"
  by (simp add: vsock_frame_def)

lemma dispatch_tx_frame [simp]: "vsock_frame (dispatch_tx now pkt pl dev) = vsock_frame dev"
  by (simp add: dispatch_tx_def Let_def split: option.split vsock_op.split)

lemma handle_tx_chain_frame [simp]: "vsock_frame (fst (handle_tx_chain now mem dev q h)) = vsock_frame dev"
  by (simp add: handle_tx_chain_def split: result.split option.split)

lemma rx_deliver_wf:
  assumes "mem_wf mem" "rx_deliver mem q h d a n pkt pl = (mem', r)"
  shows "mem_wf mem'"
proof -
  have "mem_wf m2" if "rx_payload_write m1 a n pl = Ok (m2, t)" "mem_wf m1" for m1 m2 t
    using that by (auto simp: rx_payload_write_def Let_def dest: mem_wf_write split: if_splits option.splits result.splits)
  with assms show ?thesis
    by (auto simp: rx_deliver_def dest: mem_wf_write write_used_entry_wf split: if_splits result.splits)
qed

interpretation vsock_tx_pass: queue_client VsockMemory "vsock_tx_step now" vsock_frame
  by unfold_locales
     (auto simp: vsock_tx_step_def Let_def split: result.splits prod.splits dest: write_used_entry_wf)

interpretation vsock_rx_pass: queue_client VsockMemory "vsock_rx_step now ord" vsock_frame
  by unfold_locales
     (auto simp: vsock_rx_step_def Let_def split: if_splits result.splits prod.splits option.splits
       dest: rx_deliver_wf)

lemma run_rx_effect:
  assumes "run_rx now ord mem dev = (dev', mem', b)"
  shows "vsock_frame (dev'\<lparr>vs_queues := vs_queues dev\<rparr>) = vsock_frame dev \<and>
    map queue_geometry (vs_queues dev') = map queue_geometry (vs_queues dev) \<and> (mem_wf mem \<longrightarrow> mem_wf mem')"
proof -
  obtain m1 d1 q1 r1 where rx: "process_rx_queue_inner now ord mem dev (vs_queues dev ! 0) = (m1, d1, q1, r1)"
    by (cases "process_rx_queue_inner now ord mem dev (vs_queues dev ! 0)")
  have "vsock_frame d1 = vsock_frame dev" "mem_wf mem \<longrightarrow> mem_wf m1"
    using rx vsock_rx_pass.pass_frame vsock_rx_pass.pass_wf unfolding process_rx_queue_inner_def by blast+
  then show ?thesis using assms rx by (auto simp: run_rx_def vsock_frame_def)
qed

lemma vsock_process_queue_effect:
  assumes "vsock_process_queue now ord i mem dev = (dev', mem', r)"
  shows "vsock_frame (dev'\<lparr>vs_queues := vs_queues dev\<rparr>) = vsock_frame dev \<and>
    map queue_geometry (vs_queues dev') = map queue_geometry (vs_queues dev) \<and> (mem_wf mem \<longrightarrow> mem_wf mem')"
proof -
  consider "i = 1" | "i = 0" | "i \<noteq> 1" "i \<noteq> 0" by blast
  then show ?thesis
  proof cases
    case 1
    obtain m1 d1 q1 r1 where tx: "process_tx_queue_inner now mem dev (vs_queues dev ! 1) = (m1, d1, q1, r1)"
      by (cases "process_tx_queue_inner now mem dev (vs_queues dev ! 1)")
    let ?d1 = "d1\<lparr>vs_queues := store_indices 1 q1 (vs_queues d1)\<rparr>"
    obtain d2 m2 b where rx: "run_rx now ord m1 ?d1 = (d2, m2, b)" by (cases "run_rx now ord m1 ?d1")
    have "vsock_frame d1 = vsock_frame dev" "mem_wf mem \<longrightarrow> mem_wf m1"
      using tx vsock_tx_pass.pass_frame vsock_tx_pass.pass_wf unfolding process_tx_queue_inner_def by blast+
    then show ?thesis
      using run_rx_effect [OF rx] assms 1 tx rx
      by (auto simp: vsock_process_queue_def Let_def vsock_frame_def split: if_splits)
  next
    case 2
    then show ?thesis using assms
      by (auto simp: vsock_process_queue_def split: prod.splits dest: run_rx_effect)
  next
    case 3
    then show ?thesis using assms by (simp add: vsock_process_queue_def)
  qed
qed

interpretation vsock: virtio_device "vsock_ops now ord"
  by unfold_locales
     (auto simp: vsock_ops_def vsock_reset_def Let_def virt_queue_reset_def vsock_frame_def
       dest!: vsock_process_queue_effect)

interpretation vsock_mmio: mmio_backend "vsock_ops now ord"
  by unfold_locales

section \<open>Connections behind the transport\<close>

definition vsock_inv :: "u64 \<Rightarrow> vsock_device \<Rightarrow> bool" where
  "vsock_inv cid dev \<longleftrightarrow> guest_cid dev = cid \<and> conns_ok cid (connections dev)"

lemma vsock_inv_step:
  "step_keeps (vsock_tx_step now) (\<lambda>m d. vsock_inv cid d)"
  "step_keeps (vsock_rx_step now ord) (\<lambda>m d. vsock_inv cid d)"
proof -
  have tx: "vsock_inv cid (fst (handle_tx_chain now mem dev q h))" if "vsock_inv cid dev" for mem dev q h
    using that dispatch_tx_ok [of dev] arg_cong [OF dispatch_tx_frame, of fst]
    by (auto simp: handle_tx_chain_def vsock_inv_def vsock_frame_def split: result.split option.split)
  show "step_keeps (vsock_tx_step now) (\<lambda>m d. vsock_inv cid d)"
    by (rule step_keepsI) (auto simp: vsock_tx_step_def Let_def tx split: result.splits prod.splits)
  have rx: "conns_ok x c" if "rx_first now n ks m = (c, res)" "conns_ok x m" for x n ks m c res
    using rx_first_ok [OF that(2), of now n ks] that(1) by simp
  show "step_keeps (vsock_rx_step now ord) (\<lambda>m d. vsock_inv cid d)"
    by (rule step_keepsI)
       (auto simp: vsock_rx_step_def Let_def vsock_inv_def split: if_splits result.splits prod.splits option.splits
         intro!: conns_ok_delete dest: rx)
qed

lemma vsock_inv_run_rx:
  assumes "run_rx now ord mem dev = (dev', mem', b)" "vsock_inv cid dev"
  shows "vsock_inv cid dev'"
proof -
  obtain m1 d1 q1 r1 where rx: "process_rx_queue_inner now ord mem dev (vs_queues dev ! 0) = (m1, d1, q1, r1)"
    by (cases "process_rx_queue_inner now ord mem dev (vs_queues dev ! 0)")
  have "vsock_inv cid d1"
    using queue_pass_rule [OF rx [unfolded process_rx_queue_inner_def], of "\<lambda>m d. vsock_inv cid d"]
      vsock_inv_step assms(2) by blast
  then show ?thesis using assms(1) rx by (auto simp: run_rx_def vsock_inv_def)
qed

lemma vsock_inv_process:
  assumes "vsock_process_queue now ord i mem dev = (dev', mem', r)" "vsock_inv cid dev"
  shows "vsock_inv cid dev'"
proof (cases "i = 1")
  case True
  obtain m1 d1 q1 r1 where tx: "process_tx_queue_inner now mem dev (vs_queues dev ! 1) = (m1, d1, q1, r1)"
    by (cases "process_tx_queue_inner now mem dev (vs_queues dev ! 1)")
  let ?d1 = "d1\<lparr>vs_queues := store_indices 1 q1 (vs_queues d1)\<rparr>"
  obtain d2 m2 b where rx: "run_rx now ord m1 ?d1 = (d2, m2, b)" by (cases "run_rx now ord m1 ?d1")
  have "vsock_inv cid d1"
    using queue_pass_rule [OF tx [unfolded process_tx_queue_inner_def], of "\<lambda>m d. vsock_inv cid d"]
      vsock_inv_step assms(2) by blast
  then have "vsock_inv cid d2" using vsock_inv_run_rx [OF rx] by (simp add: vsock_inv_def)
  then show ?thesis using assms(1) True tx rx
    by (auto simp: vsock_process_queue_def vsock_inv_def Let_def split: if_splits)
next
  case False
  then show ?thesis using assms
    by (auto simp: vsock_process_queue_def split: if_splits prod.splits dest: vsock_inv_run_rx)
qed

interpretation vsock_conns: device_invariant "vsock_ops now ord" "vsock_inv cid"
proof (unfold_locales, goal_cases)
  case (4 d) then show ?case by (simp add: vsock_ops_def vsock_inv_def vsock_reset_def Let_def conns_ok_def)
next
  case (6 i m d d1 m1 pr) then show ?case using vsock_inv_process by (simp add: vsock_ops_def)
qed (auto simp: vsock_ops_def vsock_inv_def)

text \<open>
  The device between guest and host. The guest reaches it through the transport; the muxer
  adds connections for host clients, removes and expires them, and works on the connections
  themselves (data, end of stream, flush, kill).
\<close>

inductive vsock_machine :: "u64 \<Rightarrow> vsock_device mmio_transport \<Rightarrow> bool" for cid where
  boot: "mem_wf mem \<Longrightarrow> vsock_machine cid (mmio_boot (vsock_new cid) mem)"
| guest: "vsock_machine cid t \<Longrightarrow> mmio_step (vsock_ops now ord) t t' \<Longrightarrow> vsock_machine cid t'"
| connect: "vsock_machine cid t \<Longrightarrow> mt_device t = Healthy d \<Longrightarrow>
    vsock_machine cid (t\<lparr>mt_device := Healthy (add_connection \<lparr>k_local_port = lp, k_peer_port = pp\<rparr>
      (new_local_init HOST_CID (guest_cid d) lp pp) d)\<rparr>)"
| drop: "vsock_machine cid t \<Longrightarrow> mt_device t = Healthy d \<Longrightarrow>
    vsock_machine cid (t\<lparr>mt_device := Healthy (fst (remove_connection k d))\<rparr>)"
| expire: "vsock_machine cid t \<Longrightarrow> mt_device t = Healthy d \<Longrightarrow>
    vsock_machine cid (t\<lparr>mt_device := Healthy (expire_connections now ord d)\<rparr>)"
| host: "vsock_machine cid t \<Longrightarrow> mt_device t = Healthy d \<Longrightarrow> map_of (connections d) k = Some c \<Longrightarrow>
    vsock_machine cid (t\<lparr>mt_device := Healthy (d\<lparr>connections := AList.update k (conn_step x c) (connections d)\<rparr>)\<rparr>)"

lemma expire_ok: "conns_ok cid m \<Longrightarrow> conns_ok cid (fold AList.delete ks m)"
  by (induction ks arbitrary: m) (auto simp: conns_ok_delete)

lemma vsock_machine_inv: "vsock_machine cid t \<Longrightarrow> \<exists>d. mt_device t = Healthy d \<and> vsock_inv cid d"
proof (induction rule: vsock_machine.induct)
  case (boot mem)
  show ?case by (simp add: mmio_boot_defs vsock_new_def vsock_inv_def conns_ok_def)
next
  case (guest t now ord t')
  then show ?case using vsock_conns.holds_step [of now ord t t' cid] by (auto simp: vsock_conns.holds_def)
next
  case (connect t d lp pp)
  then show ?case
    by (auto simp: add_connection_def vsock_inv_def conn_ok_def conn_ident_def new_local_init_def
        intro!: conns_ok_update)
next
  case (drop t d k)
  then show ?case by (auto simp: remove_connection_def vsock_inv_def intro: conns_ok_delete)
next
  case (expire t d now ord)
  then show ?case by (auto simp: expire_connections_def vsock_inv_def Let_def intro: expire_ok)
next
  case (host t d k c x)
  then show ?case by (auto simp: vsock_inv_def intro!: conns_ok_update conn_ok_step dest: conns_ok_get)
qed

text \<open>
  C19. The connection map stays sound under everything guest and host can do. In every reachable
  state the device keeps its identifier, each pair of ports has at most one connection, that
  connection addresses exactly this guest on exactly these ports, and its transmit buffer is
  a well-formed ring of at most 64 KiB.
\<close>

theorem vsock_connections_sound:
  assumes "vsock_machine cid t"
  shows "\<exists>d. mt_device t = Healthy d \<and> guest_cid d = cid \<and> distinct (map fst (connections d)) \<and>
    (\<forall>k c. map_of (connections d) k = Some c \<longrightarrow>
       c_local_cid c = HOST_CID \<and> c_peer_cid c = cid \<and> c_local_port c = k_local_port k \<and>
       c_peer_port c = k_peer_port k \<and> tx_wf (c_tx_buf c) \<and> tx_len (c_tx_buf c) \<le> CONN_TX_BUF_SIZE)"
  using vsock_machine_inv [OF assms]
  by (auto simp: vsock_inv_def conns_ok_def conn_ok_def conn_ident_def tx_wf_def)

theorem vsock_connections_sound_witness:
  "\<exists>d. mt_device (mmio_boot (vsock_new 3) \<lparr>gm_bytes = [], gm_size = 0, guest_base = 0, huge_pages = False\<rparr>) = Healthy d \<and>
     guest_cid d = 3"
proof -
  have "vsock_machine 3 (mmio_boot (vsock_new 3) \<lparr>gm_bytes = [], gm_size = 0, guest_base = 0, huge_pages = False\<rparr>)"
    by (rule vsock_machine.boot) (simp add: mem_wf_def)
  from vsock_connections_sound [OF this] show ?thesis by blast
qed

section \<open>Packets from the guest\<close>

lemma dispatch_tx_other:
  "k \<noteq> pkt_key pkt \<Longrightarrow> map_of (connections (dispatch_tx now pkt pl dev)) k = map_of (connections dev) k"
  by (simp add: dispatch_tx_def Let_def update_conv' delete_conv' split: option.split vsock_op.split)

lemma dispatch_tx_own:
  "map_of (connections (dispatch_tx now pkt pl dev)) (pkt_key pkt) =
     (if p_op pkt = op_code OpRequest
      then case map_of (connections dev) (pkt_key pkt) of
             Some c \<Rightarrow> Some c
           | None \<Rightarrow> Some (new_peer_init HOST_CID (guest_cid dev) (p_dst_port pkt) (p_src_port pkt) (p_buf_alloc pkt))
      else if p_op pkt = op_code OpRst then None
      else map_option (\<lambda>c. fst (send_pkt now pkt pl c)) (map_of (connections dev) (pkt_key pkt)))"
proof -
  have op: "op_from_u16 (p_op pkt) = Some OpRequest \<longleftrightarrow> p_op pkt = op_code OpRequest"
    "op_from_u16 (p_op pkt) = Some OpRst \<longleftrightarrow> p_op pkt = op_code OpRst"
    by (simp_all add: op_from_u16_def)
  consider "op_from_u16 (p_op pkt) = Some OpRequest" | "op_from_u16 (p_op pkt) = Some OpRst"
    | "op_from_u16 (p_op pkt) \<noteq> Some OpRequest" "op_from_u16 (p_op pkt) \<noteq> Some OpRst" by blast
  then show ?thesis
  proof cases
    case 1
    moreover from 1 have "p_op pkt = op_code OpRequest" using op(1) by blast
    ultimately show ?thesis by (simp add: dispatch_tx_def update_conv' split: option.split)
  next
    case 2
    moreover from 2 have "p_op pkt = op_code OpRst" using op(2) by blast
    ultimately show ?thesis by (simp add: dispatch_tx_def delete_conv')
  next
    case 3
    then have "dispatch_tx now pkt pl dev = (case map_of (connections dev) (pkt_key pkt) of
        Some conn \<Rightarrow> dev\<lparr>connections := AList.update (pkt_key pkt) (fst (send_pkt now pkt pl conn)) (connections dev)\<rparr>
      | None \<Rightarrow> dev)"
      unfolding dispatch_tx_def Let_def by (auto split: option.splits vsock_op.splits)
    then show ?thesis using 3 op by (simp add: update_conv' split: option.split)
  qed
qed

text \<open>
  The connections of a device by their own ports, which the map's keys repeat as long as the
  map is sound.
\<close>

definition ports :: "vsock_connection \<Rightarrow> u32 \<times> u32" where
  "ports c = (c_local_port c, c_peer_port c)"

definition conns_at :: "(u32 \<times> u32) set \<Rightarrow> vsock_device \<Rightarrow> vsock_connection set" where
  "conns_at ps dev = {c \<in> snd ` set (connections dev). ports c \<in> ps}"

lemma conns_at_lookup:
  assumes "conns_ok cid (connections dev)"
  shows "conns_at ps dev =
    {c. \<exists>lp pp. (lp, pp) \<in> ps \<and> map_of (connections dev) \<lparr>k_local_port = lp, k_peer_port = pp\<rparr> = Some c}"
proof -
  have d: "distinct (map fst (connections dev))" using assms by (simp add: conns_ok_def)
  have key: "k = \<lparr>k_local_port = c_local_port c, k_peer_port = c_peer_port c\<rparr>"
    if "map_of (connections dev) k = Some c" for k c
    using conns_ok_get [OF assms that] by (simp add: conn_ok_def conn_ident_def)
  have "c \<in> snd ` set (connections dev) \<longleftrightarrow> (\<exists>k. map_of (connections dev) k = Some c)" for c
    using d by force
  then show ?thesis using key by (auto simp: conns_at_def ports_def) blast+
qed

text \<open>
  C32. A guest packet acts on its own connection only.  The packet is the 44 header bytes the
  guest put at the head of the chain: bytes 20 to 23 are the port it is for, bytes 16 to 19
  the port it is from, bytes 30 and 31 the operation.  In a sound device (every reachable one
  is), handling the chain leaves the connections whose local and peer ports are any other pair
  exactly as they were, and nothing of the device but its connections changes.  Of the
  connection with these ports: a request leaves it alone if there is one and opens one in the
  handshake state, with the guest's buffer size from bytes 36 to 39, if there is none; a reset
  removes it; any other operation is handed to it, and never opens one.
\<close>

theorem vsock_tx_isolated:
  fixes hb :: "u8 list" and now :: nat
  assumes sound: "conns_ok (guest_cid dev) (connections dev)"
    and chain: "vsock_read_desc mem q h = Ok hdesc" "VSOCK_PKT_HDR_SIZE \<le> unat (d_len hdesc)"
      "read_bytes mem (d_addr hdesc) VSOCK_PKT_HDR_SIZE = Ok hb" "pkt_from_bytes hb = Some pkt"
      "read_tx_payload mem q hdesc pkt = Ok pl"
  defines "dev' \<equiv> fst (handle_tx_chain now mem dev q h)"
    and "own \<equiv> {(le_word (slice 20 4 hb) :: u32, le_word (slice 16 4 hb) :: u32)}"
    and "op \<equiv> le_word (slice 30 2 hb) :: u16"
  shows "conns_at (- own) dev' = conns_at (- own) dev \<and> vsock_frame dev' = vsock_frame dev \<and>
    conns_at own dev' =
      (if op = op_code OpRequest
       then (if conns_at own dev = {}
             then {new_peer_init HOST_CID (guest_cid dev) (le_word (slice 20 4 hb)) (le_word (slice 16 4 hb))
                     (le_word (slice 36 4 hb))}
             else conns_at own dev)
       else if op = op_code OpRst then {}
       else (\<lambda>c. fst (send_pkt now pkt pl c)) ` conns_at own dev)"
proof -
  let ?k = "\<lparr>k_local_port = le_word (slice 20 4 hb), k_peer_port = le_word (slice 16 4 hb)\<rparr>"
  have pkt: "p_dst_port pkt = le_word (slice 20 4 hb)" "p_src_port pkt = le_word (slice 16 4 hb)"
      "p_op pkt = op" "p_buf_alloc pkt = le_word (slice 36 4 hb)"
    using chain(4) by (auto simp: pkt_from_bytes_def op_def split: if_splits)
  have dev': "dev' = dispatch_tx now pkt pl dev" using chain by (simp add: dev'_def handle_tx_chain_def)
  have key: "pkt_key pkt = ?k" by (simp add: pkt_key_def pkt)
  have cid: "guest_cid dev' = guest_cid dev"
    using dispatch_tx_frame [of now pkt pl dev] by (simp add: dev' vsock_frame_def)
  note at = conns_at_lookup [OF sound]
    conns_at_lookup [OF dispatch_tx_ok [OF sound, of now pkt pl, folded dev']]
  have own: "conns_at own d = set_option (map_of (connections d) ?k)" if "d = dev \<or> d = dev'" for d
    using that at by (auto simp: own_def)
  have "map_of (connections dev') \<lparr>k_local_port = lp, k_peer_port = pp\<rparr> =
      map_of (connections dev) \<lparr>k_local_port = lp, k_peer_port = pp\<rparr>" if "(lp, pp) \<in> - own" for lp pp
    unfolding dev' by (rule dispatch_tx_other) (use that key in \<open>auto simp: own_def\<close>)
  then have "conns_at (- own) dev' = conns_at (- own) dev" unfolding at by (metis (no_types, lifting))
  moreover have "vsock_frame dev' = vsock_frame dev" by (simp add: dev')
  moreover have "map_of (connections dev') ?k =
      (if op = op_code OpRequest
       then case map_of (connections dev) ?k of
              Some c \<Rightarrow> Some c
            | None \<Rightarrow> Some (new_peer_init HOST_CID (guest_cid dev) (le_word (slice 20 4 hb)) (le_word (slice 16 4 hb))
                (le_word (slice 36 4 hb)))
       else if op = op_code OpRst then None
       else map_option (\<lambda>c. fst (send_pkt now pkt pl c)) (map_of (connections dev) ?k))"
    using dispatch_tx_own [of now pkt pl dev, unfolded key pkt] unfolding dev' .
  ultimately show ?thesis by (simp add: own option.set_map split: option.split)
qed

text \<open>A reset for ports 80 and 9, while there is another connection from the same guest port.\<close>

definition demo_tx_mem :: guest_memory where
  "demo_tx_mem = \<lparr>gm_bytes = desc_bytes \<lparr>d_addr = 16, d_len = 44, d_flags = 0, d_next = 0\<rparr> @
     pkt_to_bytes ((init_pkt demo_conn)\<lparr>p_src_port := 9, p_dst_port := 80, p_op := op_code OpRst\<rparr>),
     gm_size = 60, guest_base = 0, huge_pages = False\<rparr>"

definition demo_two_conns :: vsock_device where
  "demo_two_conns = (vsock_new 3)\<lparr>connections :=
     [(\<lparr>k_local_port = 81, k_peer_port = 9\<rparr>, new_peer_init HOST_CID 3 81 9 0),
      (\<lparr>k_local_port = 80, k_peer_port = 9\<rparr>, new_peer_init HOST_CID 3 80 9 0)]\<rparr>"

theorem vsock_tx_isolated_witness:
  "conns_at {(80, 9)} (fst (handle_tx_chain 0 demo_tx_mem demo_two_conns ((virt_queue_new 256)\<lparr>q_size := 1\<rparr>) 0)) = {} \<and>
   conns_at (- {(80, 9)}) (fst (handle_tx_chain 0 demo_tx_mem demo_two_conns ((virt_queue_new 256)\<lparr>q_size := 1\<rparr>) 0)) =
     conns_at (- {(80, 9)}) demo_two_conns"
proof -
  let ?q = "(virt_queue_new 256)\<lparr>q_size := 1\<rparr>"
  let ?d = "\<lparr>d_addr = 16, d_len = 44, d_flags = 0, d_next = 0\<rparr> :: virtq_desc"
  let ?p = "(init_pkt demo_conn)\<lparr>p_src_port := 9, p_dst_port := 80, p_op := op_code OpRst\<rparr>"
  have sound: "conns_ok (guest_cid demo_two_conns) (connections demo_two_conns)"
    by (auto simp: conns_ok_def demo_two_conns_def conn_ok_def conn_ident_def new_peer_init_def vsock_new_def split: if_splits)
  have 1: "vsock_read_desc demo_tx_mem ?q 0 = Ok ?d"
    by (simp add: read_desc_def read_bytes_eq valid_range_def demo_tx_mem_def slice_def desc_bytes_def parse_desc_def
        virt_queue_new_def)
  have 2: "read_bytes demo_tx_mem (d_addr ?d) VSOCK_PKT_HDR_SIZE = Ok (pkt_to_bytes ?p)"
    by (simp add: read_bytes_eq valid_range_def demo_tx_mem_def slice_def desc_bytes_def vsock_hdr.enc_length)
  have 3: "read_tx_payload demo_tx_mem ?q ?d ?p = Ok []" by (simp add: read_tx_payload_def has_next_def)
  have 4: "VSOCK_PKT_HDR_SIZE \<le> unat (d_len ?d)" by simp
  note th = vsock_tx_isolated [OF sound 1 4 2 vsock_hdr.dec_enc 3, of 0]
  have "le_word (slice 20 4 (pkt_to_bytes ?p)) = (80 :: u32)" "le_word (slice 16 4 (pkt_to_bytes ?p)) = (9 :: u32)"
      "le_word (slice 30 2 (pkt_to_bytes ?p)) = op_code OpRst"
    by (simp_all add: pkt_to_bytes_def slice_def)
  with th show ?thesis by simp
qed

section \<open>Packets to the guest\<close>

lemma rx_first_Some:
  assumes "rx_first now n ks m = (m', Some (k, pkt, pl))" "distinct ks"
  shows "\<exists>c c'. k \<in> set ks \<and> map_of m k = Some c \<and> recv_pkt now n c = (c', Ok (pkt, pl)) \<and> map_of m' k = Some c'"
  using assms
proof (induction ks arbitrary: m)
  case (Cons x ks)
  show ?case
  proof (cases "map_of m x")
    case None
    then show ?thesis using Cons by auto
  next
    case (Some c)
    obtain c' r where r: "recv_pkt now n c = (c', r)" by (cases "recv_pkt now n c")
    show ?thesis
    proof (cases r)
      case (Ok p)
      then show ?thesis using Cons.prems(1) Some r by (cases p) (auto simp: update_conv')
    next
      case (Err e)
      then have run: "rx_first now n ks (AList.update x c' m) = (m', Some (k, pkt, pl))"
        using Cons.prems(1) Some r by simp
      from Cons.IH [OF this] Cons.prems(2) show ?thesis by (auto simp: update_conv' split: if_splits)
    qed
  qed
qed simp

lemma recv_pkt_fits: "recv_pkt now n c = (c', Ok (pkt, pl)) \<Longrightarrow> length pl \<le> n"
  using recv_data_credit [of now "init_pkt c" n "c\<lparr>c_pending_rx := fst (pending_remove PRw (c_pending_rx c))\<rparr>" c' pkt pl]
  by (auto simp: recv_pkt_def Let_def init_pkt_def split: if_splits)

text \<open>The three places a delivery writes do not overlap.\<close>

definition rx_layout_ok :: "virt_queue \<Rightarrow> virtq_desc \<Rightarrow> u64 option \<Rightarrow> nat \<Rightarrow> bool" where
  "rx_layout_ok q hdesc pa n \<longleftrightarrow>
     disjoint_ranges (used_entry_addr q) 4 (d_addr hdesc) VSOCK_PKT_HDR_SIZE \<and>
     disjoint_ranges (used_entry_addr q + 4) 4 (d_addr hdesc) VSOCK_PKT_HDR_SIZE \<and>
     (case pa of None \<Rightarrow> True
      | Some a \<Rightarrow> disjoint_ranges a n (d_addr hdesc) VSOCK_PKT_HDR_SIZE \<and>
          disjoint_ranges (used_entry_addr q) 4 a n \<and> disjoint_ranges (used_entry_addr q + 4) 4 a n)"

lemma disjoint_ranges_mono: "disjoint_ranges a n b k \<Longrightarrow> i \<le> n \<Longrightarrow> j \<le> k \<Longrightarrow> disjoint_ranges a i b j"
  by (auto simp: disjoint_ranges_def)

lemma write_used_entry_reads:
  assumes "write_used_entry f mem q h w = (mem', Ok ())" "mem_wf mem"
  shows "read_bytes mem' (used_entry_addr q) 4 = Ok (le_bytes 4 (ucast h :: u32))"
    and "read_bytes mem' (used_entry_addr q + 4) 4 = Ok (le_bytes 4 w)"
    and "disjoint_ranges (used_entry_addr q) 4 b k \<Longrightarrow> disjoint_ranges (used_entry_addr q + 4) 4 b k \<Longrightarrow>
      read_bytes mem' b k = read_bytes mem b k"
proof -
  from assms(1) obtain m1 where m1: "write_bytes mem (used_entry_addr q) (le_bytes 4 (ucast h :: u32)) = Ok m1"
      and m2: "write_bytes m1 (used_entry_addr q + 4) (le_bytes 4 w) = Ok mem'"
    by (auto simp: write_used_entry_def Let_def split: result.splits)
  have wf1: "mem_wf m1" using assms(2) m1 by (rule mem_wf_write)
  have v: "unat (used_entry_addr q) + 4 \<le> 2 ^ 64"
    using ram.wr_Ok_valid [OF m1] assms(2) by (simp add: valid_range_def mem_wf_def)
  have "unat (used_entry_addr q + 4) = (unat (used_entry_addr q) + 4) mod 2 ^ 64" by (simp add: unat_word_ariths)
  then have "disjoint_ranges (used_entry_addr q + 4) (length (le_bytes 4 w)) (used_entry_addr q) (length (le_bytes 4 (ucast h :: u32)))"
    using v by (cases "unat (used_entry_addr q) + 4 = 2 ^ 64") (simp_all add: disjoint_ranges_def)
  from ram.rd_wr_wr(1) [OF assms(2) m1 m2 this]
  show "read_bytes mem' (used_entry_addr q) 4 = Ok (le_bytes 4 (ucast h :: u32))" by simp
  show "read_bytes mem' (used_entry_addr q + 4) 4 = Ok (le_bytes 4 w)"
    using ram.rd_wr_same [OF wf1 m2] by simp
  show "disjoint_ranges (used_entry_addr q) 4 b k \<Longrightarrow> disjoint_ranges (used_entry_addr q + 4) 4 b k \<Longrightarrow>
      read_bytes mem' b k = read_bytes mem b k"
    using ram.rd_wr_other [OF assms(2) m1] ram.rd_wr_other [OF wf1 m2] by simp
qed

lemma u32_total: "u32_saturating_add 44 (u32_sat n) = u32_sat (44 + n)"
  by (simp add: u32_saturating_add_def unat_u32_sat) (simp add: u32_sat_def min_def)

lemma rx_buffer_None: "rx_buffer mem q hdesc = Ok (None, n) \<Longrightarrow> n = 0"
  by (auto simp: rx_buffer_def Let_def split: if_splits result.splits)

lemma rx_deliver_reads:
  assumes "rx_deliver mem q h hdesc pa n pkt pl = (mem', Ok ())" "mem_wf mem" "rx_layout_ok q hdesc pa n" "length pl \<le> n"
    "pa = None \<longrightarrow> n = 0"
  shows "read_bytes mem' (d_addr hdesc) VSOCK_PKT_HDR_SIZE =
      (if VSOCK_PKT_HDR_SIZE \<le> unat (d_len hdesc) then Ok (pkt_to_bytes pkt) else read_bytes mem (d_addr hdesc) VSOCK_PKT_HDR_SIZE) \<and>
    (pl \<noteq> [] \<longrightarrow> (\<exists>a. pa = Some a \<and> read_bytes mem' a (length pl) = Ok pl)) \<and>
    read_bytes mem' (used_entry_addr q) 4 = Ok (le_bytes 4 (ucast h :: u32)) \<and>
    read_bytes mem' (used_entry_addr q + 4) 4 = Ok (le_bytes 4 (u32_sat (44 + length pl)))"
proof -
  note lay = assms(3) [unfolded rx_layout_ok_def]
  let ?hdr = "if VSOCK_PKT_HDR_SIZE \<le> unat (d_len hdesc) then Ok (pkt_to_bytes pkt) else read_bytes mem (d_addr hdesc) 44"
  from assms(1) obtain m1 m2 t where m1: "(if VSOCK_PKT_HDR_SIZE \<le> unat (d_len hdesc)
        then write_bytes mem (d_addr hdesc) (pkt_to_bytes pkt) else Ok mem) = Ok m1"
      and m2: "rx_payload_write m1 pa n pl = Ok (m2, t)" and m3: "write_used_entry VsockMemory m2 q h t = (mem', Ok ())"
    by (auto simp: rx_deliver_def split: result.splits)
  have wf1: "mem_wf m1" using assms(2) m1 by (auto split: if_splits dest: mem_wf_write)
  have h1: "read_bytes m1 (d_addr hdesc) 44 = ?hdr"
    using ram.rd_wr_same [OF assms(2), of "d_addr hdesc" "pkt_to_bytes pkt" m1] m1 vsock_hdr.enc_length [of pkt]
    by (auto split: if_splits)
  show ?thesis
  proof (cases "pl = []")
    case True
    then have "m2 = m1" "t = u32_sat 44" using m2 by (auto simp: rx_payload_write_def u32_sat_def)
    then show ?thesis using True h1 lay write_used_entry_reads [OF m3] wf1 by simp
  next
    case False
    then obtain a where a: "pa = Some a" using assms(4,5) by (cases pa) auto
    have w2: "write_bytes m1 a pl = Ok m2" "t = u32_sat (44 + length pl)"
      using m2 False a assms(4) by (auto simp: rx_payload_write_def Let_def u32_total split: result.splits)
    have wf2: "mem_wf m2" using wf1 w2(1) by (rule mem_wf_write)
    have d: "disjoint_ranges a (length pl) (d_addr hdesc) 44" "disjoint_ranges (used_entry_addr q) 4 a (length pl)"
        "disjoint_ranges (used_entry_addr q + 4) 4 a (length pl)"
      using lay a assms(4) by (auto intro: disjoint_ranges_mono)
    have "read_bytes m2 (d_addr hdesc) 44 = ?hdr" using ram.rd_wr_other [OF wf1 w2(1) d(1)] h1 by simp
    moreover have "read_bytes m2 a (length pl) = Ok pl" by (rule ram.rd_wr_same [OF wf1 w2(1)])
    ultimately show ?thesis using a d lay w2(2) write_used_entry_reads [OF m3 wf2] by simp
  qed
qed

text \<open>
  C12. What the guest reads is what a connection sent. When a turn of the receive queue
  completes an entry whose header, payload and used entry do not overlap, then some connection
  of the map produced a packet, the payload stands complete at the guest's data address, and
  the used entry carries the head of the chain and the exact length of header and payload.
  When the header descriptor has room for a header, 44 bytes, the bytes there decode to that
  packet.  When it is shorter the device writes no header, so these bytes are what they were
  before, and the used entry still counts 44 bytes for it.  The connection is then advanced
  past the packet, or removed when the packet was a reset.
\<close>

theorem vsock_rx_wire_exact:
  assumes "mem_wf mem" "vsock_rx_step now ord mem dev q = (mem', dev', Next)"
    and "read_avail_entry VsockMemory mem q = Ok h" "vsock_read_desc mem q h = Ok hdesc"
    and "rx_buffer mem q hdesc = Ok (pa, n)" "rx_layout_ok q hdesc pa n"
    and "distinct (map fst (ord (connections dev)))"
  shows "\<exists>k c c' pkt pl. map_of (connections dev) k = Some c \<and> recv_pkt now n c = (c', Ok (pkt, pl)) \<and>
    (VSOCK_PKT_HDR_SIZE \<le> unat (d_len hdesc) \<longrightarrow>
       (\<exists>hb. read_bytes mem' (d_addr hdesc) VSOCK_PKT_HDR_SIZE = Ok hb \<and> pkt_from_bytes hb = Some pkt)) \<and>
    (unat (d_len hdesc) < VSOCK_PKT_HDR_SIZE \<longrightarrow>
       read_bytes mem' (d_addr hdesc) VSOCK_PKT_HDR_SIZE = read_bytes mem (d_addr hdesc) VSOCK_PKT_HDR_SIZE) \<and>
    (pl \<noteq> [] \<longrightarrow> (\<exists>a. pa = Some a \<and> read_bytes mem' a (length pl) = Ok pl)) \<and>
    read_bytes mem' (used_entry_addr q) 4 = Ok (le_bytes 4 (ucast h :: u32)) \<and>
    read_bytes mem' (used_entry_addr q + 4) 4 = Ok (le_bytes 4 (u32_sat (VSOCK_PKT_HDR_SIZE + length pl))) \<and>
    map_of (connections dev') k = (if p_op pkt = op_code OpRst then None else Some c')"
proof -
  let ?ks = "map fst (filter (\<lambda>(_, conn). has_pending_rx conn) (ord (connections dev)))"
  have ks: "distinct ?ks" using assms(7) by (rule distinct_map_filter)
  from assms(2-5) obtain conns k pkt pl where
      f: "rx_first now n ?ks (connections dev) = (conns, Some (k, pkt, pl))"
      and d: "rx_deliver mem q h hdesc pa n pkt pl = (mem', Ok ())"
      and dev': "dev' = dev\<lparr>connections := if p_op pkt = op_code OpRst then AList.delete k conns else conns\<rparr>"
    by (auto simp: vsock_rx_step_def Let_def split: if_splits result.splits prod.splits option.splits)
  obtain c c' where c: "map_of (connections dev) k = Some c" "recv_pkt now n c = (c', Ok (pkt, pl))" "map_of conns k = Some c'"
    using rx_first_Some [OF f ks] by blast
  have "pa = None \<longrightarrow> n = 0" using assms(5) rx_buffer_None by blast
  note rd = rx_deliver_reads [OF d assms(1,6) recv_pkt_fits [OF c(2)] this]
  have "map_of (connections dev') k = (if p_op pkt = op_code OpRst then None else Some c')"
    using c(3) by (simp add: dev' delete_conv')
  then show ?thesis using rd c(1,2) vsock_hdr.dec_enc [of pkt]
    by (intro exI [of _ k] exI [of _ c] exI [of _ c'] exI [of _ pkt] exI [of _ pl]) simp
qed

text \<open>A guest with one receive buffer: header and eight payload bytes in one descriptor.\<close>

definition demo_vsock_mem :: guest_memory where
  "demo_vsock_mem = \<lparr>gm_bytes = desc_bytes \<lparr>d_addr = 40, d_len = 52, d_flags = 2, d_next = 0\<rparr> @
     [0, 0, 1, 0, 0, 0] @ replicate 70 0, gm_size = 92, guest_base = 0, huge_pages = False\<rparr>"

definition demo_vsock_queue :: virt_queue where
  "demo_vsock_queue = (virt_queue_new 256)\<lparr>q_size := 1, q_ready := True, avail_ring_addr := 16, used_ring_addr := 24\<rparr>"

definition demo_vsock :: vsock_device where
  "demo_vsock = (vsock_new 3)\<lparr>connections := [(\<lparr>k_local_port = 80, k_peer_port = 9\<rparr>, demo_conn)]\<rparr>"

theorem vsock_rx_wire_exact_witness:
  "\<exists>mem' dev' hb pkt. vsock_rx_step 0 id demo_vsock_mem demo_vsock demo_vsock_queue = (mem', dev', Next) \<and>
     read_bytes mem' 40 44 = Ok hb \<and> pkt_from_bytes hb = Some pkt"
proof -
  let ?d = "\<lparr>d_addr = 40, d_len = 52, d_flags = 2, d_next = 0\<rparr> :: virtq_desc"
  have en: "read_avail_entry VsockMemory demo_vsock_mem demo_vsock_queue = Ok 0" by code_simp
  have de: "vsock_read_desc demo_vsock_mem demo_vsock_queue 0 = Ok ?d" by code_simp
  have bu: "rx_buffer demo_vsock_mem demo_vsock_queue ?d = Ok (Some 84, 8)"
    by (simp add: rx_buffer_def has_next_def)
  have rc: "recv_pkt 0 8 demo_conn = (demo_conn\<lparr>c_pending_rx := 0, c_rx_buf := [7], c_rx_cnt := 2\<rparr>,
      Ok ((init_pkt demo_conn)\<lparr>p_op := 5, p_len := 2\<rparr>, [5, 6]))"
    by (subst recv_pkt_rw [where n = 2]) (simp_all add: demo_conn_arms, simp_all add: demo_conn_def new_peer_init_def u32_sat_def)
  have wf: "mem_wf demo_vsock_mem" by (simp add: mem_wf_def demo_vsock_mem_def desc_bytes_def)
  have uea: "used_entry_addr demo_vsock_queue = 28"
    by (simp add: used_entry_addr_def demo_vsock_queue_def virt_queue_new_def)
  have lay: "rx_layout_ok demo_vsock_queue ?d (Some 84) 8"
    by (simp add: rx_layout_ok_def uea disjoint_ranges_def)
  have wr: "is_ok (write_bytes m a bs)" if "gm_size m = 92" "guest_base m = 0" "unat a + length bs \<le> 92" "unat a < 92"
    for m a and bs :: "u8 list"
    using that by (simp add: ram.wr_ok_iff valid_range_def)
  have sz: "gm_size demo_vsock_mem = 92" "guest_base demo_vsock_mem = 0" by (simp_all add: demo_vsock_mem_def)
  let ?pkt = "(init_pkt demo_conn)\<lparr>p_op := 5, p_len := 2\<rparr>"
  obtain m1 where m1: "write_bytes demo_vsock_mem 40 (pkt_to_bytes ?pkt) = Ok m1"
    using wr [OF sz, of 40 "pkt_to_bytes ?pkt"] by (auto simp: is_ok_iff vsock_hdr.enc_length)
  obtain m2 where m2: "write_bytes m1 84 [5, 6] = Ok m2"
    using wr [of m1 84 "[5, 6]"] write_bytes_frame [OF m1] sz by (auto simp: is_ok_iff)
  obtain m3 where m3: "write_bytes m2 28 (le_bytes 4 (0 :: u32)) = Ok m3"
    using wr [of m2 28 "le_bytes 4 (0 :: u32)"] write_bytes_frame [OF m1] write_bytes_frame [OF m2] sz
    by (auto simp: is_ok_iff)
  obtain m4 where m4: "write_bytes m3 32 (le_bytes 4 (46 :: u32)) = Ok m4"
    using wr [of m3 32 "le_bytes 4 (46 :: u32)"] write_bytes_frame [OF m1] write_bytes_frame [OF m2]
      write_bytes_frame [OF m3] sz by (auto simp: is_ok_iff)
  have dl: "rx_deliver demo_vsock_mem demo_vsock_queue 0 ?d (Some 84) 8 ?pkt [5, 6] = (m4, Ok ())"
    using m1 m2 m3 m4
    by (simp add: rx_deliver_def rx_payload_write_def u32_saturating_add_def u32_sat_def write_used_entry_def uea)
  have "has_pending_rx demo_conn" by (simp add: has_pending_rx_def pending_is_empty_def demo_conn_arms)
  then obtain dev' where st: "vsock_rx_step 0 id demo_vsock_mem demo_vsock demo_vsock_queue = (m4, dev', Next)"
    by (simp add: vsock_rx_step_def demo_vsock_def en de bu rc dl)
  from vsock_rx_wire_exact [OF wf st en de bu lay] st show ?thesis by (auto simp: demo_vsock_def)
qed

end
