(* ===== verification/Rng_Device.thy ===== *)
theory Rng_Device
  imports Queue_Pass Host_File
begin

text \<open>
  The virtio entropy source, \<^verbatim>\<open>src/crates/visor-vmm/src/devices/rng.rs\<close>. The host
  entropy file is the operating system's: it is a state of any type together with
  \<open>rd\<close>, its \<open>read_exact\<close>. What is proved of the length of the answer
  assumes what \<open>read_exact\<close> documents, that success fills the buffer.
\<close>

section \<open>The device\<close>

abbreviation (input) MAX_BYTES_PER_REQUEST :: nat where "MAX_BYTES_PER_REQUEST \<equiv> 65536"

datatype rng_error =
    RngOpenSource io_error
  | RngReadEntropy io_error
  | RngMemory memory_error
  | RngInvalidDescriptor desc_problem

record 's rng_device =
  entropy_source :: 's
  rng_avail_features :: u64
  rng_acked_features :: u64
  rng_queues :: "virt_queue list"
  rng_activated :: bool

type_synonym 's read_exact = "nat \<Rightarrow> 's \<Rightarrow> 's \<times> (u8 list, io_error) result"

definition rng_with_source :: "('s, io_error) result \<Rightarrow> ('s rng_device, rng_error) result" where
  "rng_with_source opened =
     (case opened of
        Err e \<Rightarrow> Err (RngOpenSource e)
      | Ok s \<Rightarrow> Ok \<lparr>entropy_source = s, rng_avail_features = VIRTIO_F_VERSION_1, rng_acked_features = 0,
                    rng_queues = [virt_queue_new 256], rng_activated = False\<rparr>)"

section \<open>Filling a descriptor chain\<close>

definition fill_desc ::
  "'s read_exact \<Rightarrow> guest_memory \<Rightarrow> 's \<Rightarrow> virtq_desc \<Rightarrow> u32 \<Rightarrow> guest_memory \<times> 's \<times> (u32, rng_error) result" where
  "fill_desc rd mem s desc total_written =
     (if is_write_only desc
      then let len = min (unat (d_len desc)) MAX_BYTES_PER_REQUEST
           in case rd len s of
                (s', Err e) \<Rightarrow> (mem, s', Err (RngReadEntropy e))
              | (s', Ok buf) \<Rightarrow>
                  (case write_bytes mem (d_addr desc) buf of
                     Err e \<Rightarrow> (mem, s', Err (RngMemory e))
                   | Ok mem' \<Rightarrow> (mem', s', Ok (total_written + of_nat len)))
      else (mem, s, Ok total_written))"

function fill_chain_from ::
  "'s read_exact \<Rightarrow> guest_memory \<Rightarrow> 's \<Rightarrow> virt_queue \<Rightarrow> u16 \<Rightarrow> nat \<Rightarrow> u32 \<Rightarrow>
     guest_memory \<times> 's \<times> (u32, rng_error) result" where
  "fill_chain_from rd mem s q current_idx visited total_written =
     (case read_desc RngMemory RngInvalidDescriptor mem q current_idx of
        Err e \<Rightarrow> (mem, s, Err e)
      | Ok desc \<Rightarrow>
          if visited + 1 > unat (q_size q) then (mem, s, Err (RngInvalidDescriptor ChainCycle))
          else case fill_desc rd mem s desc total_written of
                 (mem', s', Err e) \<Rightarrow> (mem', s', Err e)
               | (mem', s', Ok total') \<Rightarrow>
                   if \<not> has_next desc then (mem', s', Ok total')
                   else fill_chain_from rd mem' s' q (d_next desc) (visited + 1) total')"
  by pat_completeness auto
termination
  by (relation "measure (\<lambda>(rd, mem, s, q, idx, visited, total). unat (q_size q) - visited)") auto

declare fill_chain_from.simps [simp del]

definition fill_chain ::
  "'s read_exact \<Rightarrow> guest_memory \<Rightarrow> 's \<Rightarrow> virt_queue \<Rightarrow> u16 \<Rightarrow> guest_memory \<times> 's \<times> (u32, rng_error) result" where
  "fill_chain rd mem s q head_idx = fill_chain_from rd mem s q head_idx 0 0"

section \<open>The queue\<close>

definition rng_step :: "'s read_exact \<Rightarrow> ('s rng_device, rng_error) queue_step" where
  "rng_step rd mem dev q =
     (case read_avail_entry RngMemory mem q of
        Err e \<Rightarrow> (mem, dev, Fail e)
      | Ok head_idx \<Rightarrow>
          (case fill_chain rd mem (entropy_source dev) q head_idx of
             (mem1, s, Err e) \<Rightarrow> (mem1, dev\<lparr>entropy_source := s\<rparr>, Fail e)
           | (mem1, s, Ok written) \<Rightarrow>
               (case write_used_entry RngMemory mem1 q head_idx written of
                  (mem2, Err e) \<Rightarrow> (mem2, dev\<lparr>entropy_source := s\<rparr>, Fail e)
                | (mem2, Ok _) \<Rightarrow> (mem2, dev\<lparr>entropy_source := s\<rparr>, Next))))"

definition rng_process_queue ::
  "'s read_exact \<Rightarrow> guest_memory \<Rightarrow> 's rng_device \<Rightarrow> virt_queue \<Rightarrow>
     guest_memory \<times> 's rng_device \<times> virt_queue \<times> (bool, rng_error) result" where
  "rng_process_queue rd = queue_pass RngMemory (rng_step rd)"

definition rng_trait_process_queue ::
  "'s read_exact \<Rightarrow> nat \<Rightarrow> guest_memory \<Rightarrow> 's rng_device \<Rightarrow>
     's rng_device \<times> guest_memory \<times> (bool, virtio_error) result" where
  "rng_trait_process_queue rd queue_idx mem dev =
     (if queue_idx \<ge> length (rng_queues dev) then (dev, mem, Ok False)
      else case rng_process_queue rd mem dev (rng_queues dev ! queue_idx) of
             (mem', dev', q', r) \<Rightarrow>
               (dev'\<lparr>rng_queues := store_indices queue_idx q' (rng_queues dev')\<rparr>, mem',
                Ok (unwrap_or r False)))"

definition rng_reset :: "'s rng_device \<Rightarrow> 's rng_device" where
  "rng_reset dev = dev\<lparr>rng_activated := False, rng_queues := map virt_queue_reset (rng_queues dev)\<rparr>"

definition rng_ops :: "'s read_exact \<Rightarrow> 's rng_device virtio_ops" where
  "rng_ops rd = \<lparr>vd_device_type = (\<lambda>_. Rng),
     vd_avail_features = rng_avail_features,
     vd_acked_features = rng_acked_features,
     vd_set_acked_features = (\<lambda>f. rng_acked_features_update (\<lambda>_. f)),
     vd_queues = rng_queues,
     vd_update_queues = rng_queues_update,
     vd_read_config = (\<lambda>dev off data. replicate (length data) 0),
     vd_write_config = (\<lambda>off bs dev. dev),
     vd_activate = (\<lambda>dev. (dev\<lparr>rng_activated := True\<rparr>, Ok ())),
     vd_is_activated = rng_activated,
     vd_reset = rng_reset,
     vd_process_queue = rng_trait_process_queue rd\<rparr>"

section \<open>The device provides the virtio contract\<close>

lemma fill_desc_wf: "mem_wf mem \<Longrightarrow> fill_desc rd mem s d t = (mem', s', r) \<Longrightarrow> mem_wf mem'"
  by (auto simp: fill_desc_def Let_def split: if_splits prod.splits result.splits dest: mem_wf_write)

lemma fill_chain_from_wf:
  "fill_chain_from rd mem s q i v t = (mem', s', r) \<Longrightarrow> mem_wf mem \<Longrightarrow> mem_wf mem'"
proof (induction rd mem s q i v t rule: fill_chain_from.induct)
  case (1 rd mem s q i v t)
  show ?case using "1.prems" "1.IH"
    by (auto simp: fill_chain_from.simps [of rd mem s q i v t] split: if_splits prod.splits result.splits
        dest: fill_desc_wf)
qed

definition rng_frame :: "'s rng_device \<Rightarrow> u64 \<times> u64 \<times> virt_queue list \<times> bool" where
  "rng_frame d = (rng_avail_features d, rng_acked_features d, rng_queues d, rng_activated d)"

interpretation rng_pass: queue_client RngMemory "rng_step rd" rng_frame
  by unfold_locales
     (auto simp: rng_step_def rng_frame_def fill_chain_def split: result.splits prod.splits
       dest: fill_chain_from_wf write_used_entry_wf)

interpretation rng: virtio_device "rng_ops rd"
proof (unfold_locales, goal_cases)
  case (25 m i d d' m' r)
  then show ?case
    by (auto simp: rng_ops_def rng_trait_process_queue_def rng_process_queue_def
        split: if_splits prod.splits dest!: rng_pass.pass_wf)
qed (auto simp: rng_ops_def rng_reset_def virt_queue_reset_def rng_trait_process_queue_def
    rng_process_queue_def rng_frame_def split: if_splits prod.splits dest!: rng_pass.pass_frame)

section \<open>The length of an answer\<close>

text \<open>The bytes asked of the entropy source along a chain, one entry per descriptor visited.\<close>

definition desc_request :: "virtq_desc \<Rightarrow> nat" where
  "desc_request d = (if is_write_only d then min (unat (d_len d)) MAX_BYTES_PER_REQUEST else 0)"

function fill_requests ::
  "'s read_exact \<Rightarrow> guest_memory \<Rightarrow> 's \<Rightarrow> virt_queue \<Rightarrow> u16 \<Rightarrow> nat \<Rightarrow> nat list" where
  "fill_requests rd mem s q i v =
     (case read_desc RngMemory RngInvalidDescriptor mem q i of
        Err e \<Rightarrow> []
      | Ok d \<Rightarrow>
          if v + 1 > unat (q_size q) then []
          else case fill_desc rd mem s d 0 of
                 (mem', s', Err e) \<Rightarrow> [desc_request d]
               | (mem', s', Ok _) \<Rightarrow>
                   desc_request d # (if has_next d then fill_requests rd mem' s' q (d_next d) (v + 1) else []))"
  by pat_completeness auto
termination
  by (relation "measure (\<lambda>(rd, mem, s, q, i, v). unat (q_size q) - v)") auto

declare fill_requests.simps [simp del]

lemma fill_desc_total:
  "fill_desc rd mem s d t = (mem', s', Ok t') \<Longrightarrow>
     fill_desc rd mem s d 0 = (mem', s', Ok (of_nat (desc_request d))) \<and> t' = t + of_nat (desc_request d)"
  by (auto simp: fill_desc_def Let_def desc_request_def split: if_splits prod.splits result.splits)

lemma desc_request_le: "desc_request d \<le> MAX_BYTES_PER_REQUEST"
  by (simp add: desc_request_def)

lemma fill_chain_from_requests:
  "fill_chain_from rd mem s q i v t = (mem', s', Ok w) \<Longrightarrow>
     w = t + of_nat (sum_list (fill_requests rd mem s q i v)) \<and>
     length (fill_requests rd mem s q i v) + v \<le> unat (q_size q) \<and>
     set (fill_requests rd mem s q i v) \<subseteq> {..MAX_BYTES_PER_REQUEST}"
proof (induction rd mem s q i v t rule: fill_chain_from.induct)
  case (1 rd mem s q i v t)
  from "1.prems" obtain d m1 s1 t1 where d: "read_desc RngMemory RngInvalidDescriptor mem q i = Ok d"
      "\<not> v + 1 > unat (q_size q)" "fill_desc rd mem s d t = (m1, s1, Ok t1)"
      "(if \<not> has_next d then (m1, s1, Ok t1) else fill_chain_from rd m1 s1 q (d_next d) (v + 1) t1) = (mem', s', Ok w)"
    by (auto simp: fill_chain_from.simps [of rd mem s q i v t] split: if_splits prod.splits result.splits)
  note t1 = fill_desc_total [OF d(3)]
  note req = fill_requests.simps [of rd mem s q i v]
  show ?case
  proof (cases "has_next d")
    case True
    have "w = t1 + of_nat (sum_list (fill_requests rd m1 s1 q (d_next d) (v + 1))) \<and>
        length (fill_requests rd m1 s1 q (d_next d) (v + 1)) + (v + 1) \<le> unat (q_size q) \<and>
        set (fill_requests rd m1 s1 q (d_next d) (v + 1)) \<subseteq> {..MAX_BYTES_PER_REQUEST}"
      using "1.IH" [OF d(1,2)] d True by auto
    then show ?thesis using d t1 True by (auto simp: req desc_request_le)
  next
    case False
    then show ?thesis using d t1 by (auto simp: req desc_request_le)
  qed
qed

lemma sum_list_bounded: "set xs \<subseteq> {..k :: nat} \<Longrightarrow> sum_list xs \<le> k * length xs"
  by (induction xs) auto

text \<open>
  The entropy device answers a chain of any shape without wrapping its 32-bit length:
  when filling a chain succeeds, the length reported to the guest is exactly the sum of the
  requests of the device-writable descriptors visited, each cut at 64 KiB, over at most as
  many descriptors as the queue holds.
\<close>

lemma rng_answer_exact:
  assumes "fill_chain rd mem s q h = (mem', s', Ok w)"
  shows "unat w = sum_list (fill_requests rd mem s q h 0) \<and>
    length (fill_requests rd mem s q h 0) \<le> unat (q_size q) \<and>
    unat w \<le> MAX_BYTES_PER_REQUEST * unat (q_size q)"
proof -
  let ?l = "fill_requests rd mem s q h 0"
  have r: "w = of_nat (sum_list ?l)" "length ?l \<le> unat (q_size q)" "set ?l \<subseteq> {..MAX_BYTES_PER_REQUEST}"
    using fill_chain_from_requests [of rd mem s q h 0 0 mem' s' w] assms by (simp_all add: fill_chain_def)
  have "unat (q_size q) < 2 ^ LENGTH(16)" by (rule unsigned_less)
  moreover have s: "sum_list ?l \<le> MAX_BYTES_PER_REQUEST * unat (q_size q)"
    using sum_list_bounded [OF r(3)] r(2) by (meson le_trans mult_le_mono2)
  ultimately have "sum_list ?l < 2 ^ 32" by simp
  then have "unat w = sum_list ?l" using r(1) by (simp add: unsigned_of_nat take_bit_nat_eq_self)
  then show ?thesis using r(2) s by simp
qed

text \<open>One queue of one descriptor, for the witness: four bytes at address 32, device-writable.\<close>

definition demo_rng_mem :: guest_memory where
  "demo_rng_mem = \<lparr>gm_bytes = desc_bytes \<lparr>d_addr = 32, d_len = 4, d_flags = 2, d_next = 0\<rparr> @ replicate 24 0,
     gm_size = 40, guest_base = 0, huge_pages = False\<rparr>"

definition demo_rng_queue :: virt_queue where
  "demo_rng_queue = (virt_queue_new 256)\<lparr>q_size := 1, q_ready := True\<rparr>"

definition demo_entropy :: disk_file where
  "demo_entropy = \<lparr>df_data = [9, 8, 7, 6, 5], df_pos = 0, df_writable = False, df_fault = False\<rparr>"

text \<open>
  A malformed request wedges the entropy queue. When the next available entry names a
  descriptor outside the queue, the pass fails without consuming it: the device is as before,
  so every later notification meets the same entry, and the requests behind it are never
  answered until the driver resets the device. The transport is told that nothing was done.
\<close>

lemma rng_bad_head_wedges:
  assumes "q_ready q" "q_size q \<noteq> 0" "read_avail_idx RngMemory mem q = Ok avail" "last_avail_idx q \<noteq> avail"
    "read_avail_entry RngMemory mem q = Ok h" "h \<ge> q_size q" "rng_queues dev = [q]"
  shows "rng_trait_process_queue rd 0 mem dev = (dev, mem, Ok False)"
  using assms
  by (simp add: rng_trait_process_queue_def rng_process_queue_def queue_pass_def
      pass_loop.simps [of "rng_step rd" mem] rng_step_def fill_chain_def
      fill_chain_from.simps [of rd mem] read_desc_def store_indices_def)

end
