(* ===== verification/Net_Device.thy ===== *)
theory Net_Device
  imports Used_Ring Host_File
begin

text \<open>
  The virtio network backend, \<^verbatim>\<open>src/crates/visor-vmm/src/devices/net.rs\<close>. The packet
  backend (\<open>dyn PacketIo\<close>) is a state of any type with its two methods; a received
  frame is the filled prefix of the buffer.
\<close>

section \<open>The device\<close>

abbreviation (input) VIRTIO_NET_F_MAC :: u64 where "VIRTIO_NET_F_MAC \<equiv> 0x20"
abbreviation (input) VNET_HDR_SIZE :: nat where "VNET_HDR_SIZE \<equiv> 12"
abbreviation (input) MAX_FRAME_SIZE :: nat where "MAX_FRAME_SIZE \<equiv> 1514"

datatype net_error = NetMemory memory_error | NetInvalidDescriptor desc_problem

record 'p packet_io =
  pio_send :: "u8 list \<Rightarrow> 'p \<Rightarrow> 'p \<times> (nat, io_error) result"
  pio_try_recv :: "nat \<Rightarrow> 'p \<Rightarrow> 'p \<times> (u8 list, io_error) result"

record 'p net_device =
  mac_addr :: "u8 list"
  net_avail_features :: u64
  net_acked_features :: u64
  net_queues :: "virt_queue list"
  net_activated :: bool
  packet_io_of :: "'p option"

definition net_new :: "u8 list \<Rightarrow> 'p net_device" where
  "net_new mac = \<lparr>mac_addr = mac, net_avail_features = VIRTIO_NET_F_MAC OR VIRTIO_F_VERSION_1,
     net_acked_features = 0, net_queues = [virt_queue_new 256, virt_queue_new 256],
     net_activated = False, packet_io_of = None\<rparr>"

definition net_with_packet_io :: "u8 list \<Rightarrow> 'p \<Rightarrow> 'p net_device" where
  "net_with_packet_io mac io = (net_new mac)\<lparr>packet_io_of := Some io\<rparr>"

definition generate_mac :: "u8 list" where
  "generate_mac = [0x02, 0x56, 0x49, 0x53, 0x00, 0x01]"

definition net_read_config :: "u8 list \<Rightarrow> u64 \<Rightarrow> u8 list \<Rightarrow> u8 list" where
  "net_read_config mac offset data =
     map (\<lambda>i. let idx = unat offset + i
              in if idx \<ge> 2 ^ 64 then 0
                 else if idx < length mac then mac ! idx else 0)
       [0..<length data]"

section \<open>Transmit\<close>

abbreviation net_read_desc :: "guest_memory \<Rightarrow> virt_queue \<Rightarrow> u16 \<Rightarrow> (virtq_desc, net_error) result" where
  "net_read_desc \<equiv> read_desc NetMemory NetInvalidDescriptor"

text \<open>The walk over the chained descriptors, \<open>current\<close> being the last one read.\<close>

function tx_gather ::
  "guest_memory \<Rightarrow> virt_queue \<Rightarrow> virtq_desc \<Rightarrow> nat \<Rightarrow> u8 list \<Rightarrow> (u8 list, net_error) result" where
  "tx_gather mem q current visited chain_data =
     (if \<not> has_next current then Ok chain_data
      else if visited + 1 > unat (q_size q) then Err (NetInvalidDescriptor ChainCycle)
      else case net_read_desc mem q (d_next current) of
             Err e \<Rightarrow> Err e
           | Ok next \<Rightarrow>
               (case read_bytes mem (d_addr next) (unat (d_len next)) of
                  Err e \<Rightarrow> Err (NetMemory e)
                | Ok bytes \<Rightarrow> tx_gather mem q next (visited + 1) (chain_data @ bytes)))"
  by pat_completeness auto
termination
  by (relation "measure (\<lambda>(mem, q, current, visited, chain_data). unat (q_size q) - visited)") auto

declare tx_gather.simps [simp del]

definition net_handle_tx_chain ::
  "'p packet_io \<Rightarrow> guest_memory \<Rightarrow> 'p net_device \<Rightarrow> virt_queue \<Rightarrow> u16 \<Rightarrow>
     'p net_device \<times> (unit, net_error) result" where
  "net_handle_tx_chain io mem dev q head_idx =
     (case net_read_desc mem q head_idx of
        Err e \<Rightarrow> (dev, Err e)
      | Ok header_desc \<Rightarrow>
          (case read_bytes mem (d_addr header_desc) (unat (d_len header_desc)) of
             Err e \<Rightarrow> (dev, Err (NetMemory e))
           | Ok first_bytes \<Rightarrow>
               (case tx_gather mem q header_desc 1 first_bytes of
                  Err e \<Rightarrow> (dev, Err e)
                | Ok chain_data \<Rightarrow>
                    if length chain_data < VNET_HDR_SIZE then (dev, Ok ())
                    else let frame = drop VNET_HDR_SIZE chain_data
                         in case packet_io_of dev of
                              Some p \<Rightarrow>
                                if frame \<noteq> [] then (dev\<lparr>packet_io_of := Some (fst (pio_send io frame p))\<rparr>, Ok ())
                                else (dev, Ok ())
                            | None \<Rightarrow> (dev, Ok ()))))"

definition net_tx_step :: "'p packet_io \<Rightarrow> ('p net_device, net_error) queue_step" where
  "net_tx_step io mem dev q =
     (case read_avail_entry NetMemory mem q of
        Err e \<Rightarrow> (mem, dev, Fail e)
      | Ok head_idx \<Rightarrow>
          (let dev' = fst (net_handle_tx_chain io mem dev q head_idx)
           in case write_used_entry NetMemory mem q head_idx 0 of
                (mem', Err e) \<Rightarrow> (mem', dev', Fail e)
              | (mem', Ok _) \<Rightarrow> (mem', dev', Next)))"

definition net_process_tx_queue ::
  "'p packet_io \<Rightarrow> guest_memory \<Rightarrow> 'p net_device \<Rightarrow> virt_queue \<Rightarrow>
     guest_memory \<times> 'p net_device \<times> virt_queue \<times> (bool, net_error) result" where
  "net_process_tx_queue io = queue_pass NetMemory (net_tx_step io)"

section \<open>Receive\<close>

function write_rx_from ::
  "guest_memory \<Rightarrow> virt_queue \<Rightarrow> virtq_desc \<Rightarrow> nat \<Rightarrow> u8 list \<Rightarrow> u32 \<Rightarrow>
     guest_memory \<times> (u32, net_error) result" where
  "write_rx_from mem q desc visited remaining written =
     (if visited + 1 > unat (q_size q) then (mem, Err (NetInvalidDescriptor ChainCycle))
      else let write_len = min (length remaining) (unat (d_len desc))
           in case (if write_len > 0 then write_bytes mem (d_addr desc) (take write_len remaining) else Ok mem) of
                Err e \<Rightarrow> (mem, Err (NetMemory e))
              | Ok mem' \<Rightarrow>
                  (let written' = (if write_len > 0 then u32_saturating_add written (u32_sat write_len) else written);
                       remaining' = drop write_len remaining
                   in if remaining' = [] \<or> \<not> has_next desc then (mem', Ok written')
                      else case net_read_desc mem' q (d_next desc) of
                             Err e \<Rightarrow> (mem', Err e)
                           | Ok desc' \<Rightarrow> write_rx_from mem' q desc' (visited + 1) remaining' written'))"
  by pat_completeness auto
termination
  by (relation "measure (\<lambda>(mem, q, desc, visited, remaining, written). unat (q_size q) - visited)") auto

declare write_rx_from.simps [simp del]

definition write_rx_chain ::
  "guest_memory \<Rightarrow> virt_queue \<Rightarrow> virtq_desc \<Rightarrow> u8 list \<Rightarrow> u8 list \<Rightarrow> guest_memory \<times> (u32, net_error) result" where
  "write_rx_chain mem q first_desc vnet_hdr frame = write_rx_from mem q first_desc 0 (vnet_hdr @ frame) 0"

text \<open>
  One turn of the receive loop. The frame is taken from the backend first, so the turns that
  end in \<open>Stop\<close> or \<open>Fail\<close> after that have lost it.
\<close>

definition net_rx_step :: "'p packet_io \<Rightarrow> ('p net_device, net_error) queue_step" where
  "net_rx_step io mem dev q =
     (case packet_io_of dev of
        None \<Rightarrow> (mem, dev, Stop)
      | Some p \<Rightarrow>
          (case pio_try_recv io MAX_FRAME_SIZE p of
             (p', Err e) \<Rightarrow> (mem, dev\<lparr>packet_io_of := Some p'\<rparr>, Stop)
           | (p', Ok frame) \<Rightarrow>
               (let dev' = dev\<lparr>packet_io_of := Some p'\<rparr>
                in if frame = [] then (mem, dev', Stop)
                   else case read_avail_entry NetMemory mem q of
                          Err e \<Rightarrow> (mem, dev', Fail e)
                        | Ok head_idx \<Rightarrow>
                            (case net_read_desc mem q head_idx of
                               Err e \<Rightarrow> (mem, dev', Fail e)
                             | Ok header_desc \<Rightarrow>
                                 if \<not> is_write_only header_desc then (mem, dev', Stop)
                                 else
                                   (case write_rx_chain mem q header_desc (replicate VNET_HDR_SIZE 0) frame of
                                      (mem1, Err e) \<Rightarrow> (mem1, dev', Fail e)
                                    | (mem1, Ok total_written) \<Rightarrow>
                                        if total_written = 0 \<and> VNET_HDR_SIZE + length frame > 0 then (mem1, dev', Stop)
                                        else
                                          (case write_used_entry NetMemory mem1 q head_idx total_written of
                                             (mem2, Err e) \<Rightarrow> (mem2, dev', Fail e)
                                           | (mem2, Ok _) \<Rightarrow> (mem2, dev', Next)))))))"

definition net_process_rx_queue ::
  "'p packet_io \<Rightarrow> guest_memory \<Rightarrow> 'p net_device \<Rightarrow> virt_queue \<Rightarrow>
     guest_memory \<times> 'p net_device \<times> virt_queue \<times> (bool, net_error) result" where
  "net_process_rx_queue io = queue_pass NetMemory (net_rx_step io)"

section \<open>The trait methods\<close>

definition net_trait_process_queue ::
  "'p packet_io \<Rightarrow> nat \<Rightarrow> guest_memory \<Rightarrow> 'p net_device \<Rightarrow>
     'p net_device \<times> guest_memory \<times> (bool, virtio_error) result" where
  "net_trait_process_queue io queue_idx mem dev =
     (if packet_io_of dev = None then (dev, mem, Ok False)
      else if queue_idx = 1
      then (case net_process_tx_queue io mem dev (net_queues dev ! 1) of
              (mem', dev', q', r) \<Rightarrow>
                (dev'\<lparr>net_queues := store_indices 1 q' (net_queues dev')\<rparr>, mem', Ok (unwrap_or r False)))
      else if queue_idx = 0
      then (case net_process_rx_queue io mem dev (net_queues dev ! 0) of
              (mem', dev', q', r) \<Rightarrow>
                (dev'\<lparr>net_queues := store_indices 0 q' (net_queues dev')\<rparr>, mem', Ok (unwrap_or r False)))
      else (dev, mem, Ok False))"

definition net_reset :: "'p net_device \<Rightarrow> 'p net_device" where
  "net_reset dev = dev\<lparr>net_activated := False, net_queues := map virt_queue_reset (net_queues dev)\<rparr>"

definition net_ops :: "'p packet_io \<Rightarrow> 'p net_device virtio_ops" where
  "net_ops io = \<lparr>vd_device_type = (\<lambda>_. Net),
     vd_avail_features = net_avail_features,
     vd_acked_features = net_acked_features,
     vd_set_acked_features = (\<lambda>f. net_acked_features_update (\<lambda>_. f)),
     vd_queues = net_queues,
     vd_update_queues = net_queues_update,
     vd_read_config = (\<lambda>dev. net_read_config (mac_addr dev)),
     vd_write_config = (\<lambda>off bs dev. dev),
     vd_activate = (\<lambda>dev. (dev\<lparr>net_activated := True\<rparr>, Ok ())),
     vd_is_activated = net_activated,
     vd_reset = net_reset,
     vd_process_queue = net_trait_process_queue io\<rparr>"

section \<open>The device provides the virtio contract\<close>

lemma net_handle_tx_chain_frame:
  "\<exists>p. fst (net_handle_tx_chain io mem dev q h) = dev\<lparr>packet_io_of := p\<rparr>"
proof (cases "fst (net_handle_tx_chain io mem dev q h) = dev")
  case True
  then show ?thesis by (metis net_device.surjective net_device.update_convs(6))
next
  case False
  then show ?thesis
    by (auto simp: net_handle_tx_chain_def Let_def split: result.splits if_splits option.splits)
qed

lemma write_rx_from_wf:
  "write_rx_from mem q d v rem w = (mem', r) \<Longrightarrow> mem_wf mem \<Longrightarrow> mem_wf mem'"
proof (induction mem q d v rem w rule: write_rx_from.induct)
  case (1 mem q d v rem w)
  show ?case using "1.prems" "1.IH"
    by (auto simp: write_rx_from.simps [of mem q d v rem w] Let_def split: if_splits result.splits
        dest: mem_wf_write)
qed

definition net_frame :: "'p net_device \<Rightarrow> u8 list \<times> u64 \<times> u64 \<times> virt_queue list \<times> bool" where
  "net_frame d = (mac_addr d, net_avail_features d, net_acked_features d, net_queues d, net_activated d)"

interpretation net_tx_pass: queue_client NetMemory "net_tx_step io" net_frame
proof unfold_locales
  fix m :: guest_memory and d :: "'a net_device" and k m' d' t
  assume st: "net_tx_step io m d k = (m', d', t)"
  then show "mem_wf m \<Longrightarrow> mem_wf m'"
    by (auto simp: net_tx_step_def Let_def split: result.splits prod.splits dest: write_used_entry_wf)
  obtain h p where "d' = d \<or> d' = fst (net_handle_tx_chain io m d k h)"
    using st by (auto simp: net_tx_step_def Let_def split: result.splits prod.splits)
  then show "net_frame d' = net_frame d"
    using net_handle_tx_chain_frame [of io m d k h] by (auto simp: net_frame_def)
qed

interpretation net_rx_pass: queue_client NetMemory "net_rx_step io" net_frame
  by unfold_locales
     (auto simp: net_rx_step_def Let_def net_frame_def write_rx_chain_def
       split: option.splits result.splits prod.splits if_splits dest: write_rx_from_wf write_used_entry_wf)

interpretation net: virtio_device "net_ops io"
proof (unfold_locales, goal_cases)
  case (25 m i d d' m' r)
  then show ?case
    by (auto simp: net_ops_def net_trait_process_queue_def net_process_tx_queue_def net_process_rx_queue_def
        split: if_splits prod.splits dest!: net_tx_pass.pass_wf net_rx_pass.pass_wf)
qed (auto simp: net_ops_def net_reset_def virt_queue_reset_def net_trait_process_queue_def net_frame_def
    net_process_tx_queue_def net_process_rx_queue_def net_read_config_def
    split: if_splits prod.splits dest!: net_tx_pass.pass_frame net_rx_pass.pass_frame)

section \<open>Transmission\<close>

lemma net_tx_step_next:
  assumes "rings_mapped m k"
  shows "\<exists>m' d'. net_tx_step io m d k = (m', d', Next) \<and> rings_mapped m' k"
proof -
  obtain h where "read_avail_entry NetMemory m k = Ok h" using rings_mapped_reads(2) [OF assms] by blast
  moreover obtain m' where "write_used_entry NetMemory m k h 0 = (m', Ok ())" "rings_mapped m' k"
    using rings_mapped_used_entry [OF assms] by blast
  ultimately show ?thesis by (simp add: net_tx_step_def)
qed

lemma net_tx_step_never_stops: "never_stops (net_tx_step io)"
  by (auto simp: never_stops_def net_tx_step_def Let_def split: result.split prod.split)

lemma net_tx_step_Next:
  assumes "net_tx_step io m d q = (m', d', Next)"
  shows "\<exists>h. read_avail_entry NetMemory m q = Ok h \<and> write_used_entry NetMemory m q h 0 = (m', Ok ()) \<and>
    d' = fst (net_handle_tx_chain io m d q h)"
  using assms by (auto simp: net_tx_step_def Let_def split: result.splits prod.splits)

text \<open>What a chain holds is not changed by the entries of the used ring.\<close>

lemma tx_gather_unchanged:
  assumes "unchanged_on (- used_area q) m m'" "mem_wf m" "mem_wf m'" "rings_apart q" "buffers_apart m q"
  shows "tx_gather m' q d v bs = tx_gather m q d v bs"
proof (induction "unat (q_size q) - v" arbitrary: d v bs rule: less_induct)
  case less
  have desc: "net_read_desc m' q i = net_read_desc m q i" for i
    by (rule read_desc_unchanged [OF unchanged_on_mono [OF assms(1)] assms(2-4)])
      (use assms(4) in \<open>auto simp: rings_apart_def\<close>)
  have buf: "read_bytes m' (d_addr e) (unat (d_len e)) = read_bytes m (d_addr e) (unat (d_len e))"
    if "net_read_desc m q i = Ok e" for i e
    by (rule unchanged_on_read [OF assms(1-3)]) (rule buffers_apart_used [OF assms(5) that])
  show ?case
    unfolding tx_gather.simps [of m' q d] tx_gather.simps [of m q d] desc
    using less buf by (auto split: result.split)
qed

lemma net_handle_tx_chain_unchanged:
  assumes "unchanged_on (- used_area q) m m'" "mem_wf m" "mem_wf m'" "rings_apart q" "buffers_apart m q"
  shows "net_handle_tx_chain io m' d q h = net_handle_tx_chain io m d q h"
proof -
  have desc: "net_read_desc m' q h = net_read_desc m q h"
    by (rule read_desc_unchanged [OF unchanged_on_mono [OF assms(1)] assms(2-4)])
      (use assms(4) in \<open>auto simp: rings_apart_def\<close>)
  have "read_bytes m' (d_addr e) (unat (d_len e)) = read_bytes m (d_addr e) (unat (d_len e))"
    if "net_read_desc m q h = Ok e" for e
    by (rule unchanged_on_read [OF assms(1-3)]) (rule buffers_apart_used [OF assms(5) that])
  then show ?thesis
    unfolding net_handle_tx_chain_def desc tx_gather_unchanged [OF assms] by (auto split: result.split)
qed

lemma net_handle_tx_chain_advance: "net_handle_tx_chain io m d (advance_by k q) h = net_handle_tx_chain io m d q h"
proof -
  have gather: "tx_gather m (advance_by k q) e v bs = tx_gather m q e v bs" for e v bs
  proof (induction "unat (q_size q) - v" arbitrary: e v bs rule: less_induct)
    case less
    then show ?case unfolding tx_gather.simps [of m "advance_by k q" e] tx_gather.simps [of m q e]
      by (auto split: result.split)
  qed
  show ?thesis unfolding net_handle_tx_chain_def gather by simp
qed

text \<open>The trace of a transmit pass: only slots of the used ring change, each to its entry.\<close>

lemma net_tx_trace:
  assumes "trace_of (net_tx_step io) q n ms ds" "mem_wf (ms 0)" "rings_apart q" "q_size q \<noteq> 0"
  shows "k \<le> n \<Longrightarrow> mem_wf (ms k) \<and> unchanged_on (- used_area q) (ms 0) (ms k)"
    and "k < n \<Longrightarrow> \<exists>h. read_avail_entry NetMemory (ms 0) (advance_by k q) = Ok h \<and>
      ds (Suc k) = fst (net_handle_tx_chain io (ms k) (ds k) q h) \<and>
      unchanged_on (- used_slot (advance_by k q)) (ms k) (ms (Suc k)) \<and>
      read_bytes (ms (Suc k)) (used_entry_addr (advance_by k q)) 8 = Ok (used_entry h 0)"
proof -
  have step: "\<exists>h. read_avail_entry NetMemory (ms k) (advance_by k q) = Ok h \<and> mem_wf (ms (Suc k)) \<and>
      ds (Suc k) = fst (net_handle_tx_chain io (ms k) (ds k) q h) \<and>
      unchanged_on (- used_slot (advance_by k q)) (ms k) (ms (Suc k)) \<and>
      read_bytes (ms (Suc k)) (used_entry_addr (advance_by k q)) 8 = Ok (used_entry h 0)"
    if "k < n" "mem_wf (ms k)" for k
  proof -
    have "net_tx_step io (ms k) (ds k) (advance_by k q) = (ms (Suc k), ds (Suc k), Next)"
      using assms(1) that(1) by (simp add: trace_of_def)
    from net_tx_step_Next [OF this] obtain h where h: "read_avail_entry NetMemory (ms k) (advance_by k q) = Ok h"
        "write_used_entry NetMemory (ms k) (advance_by k q) h 0 = (ms (Suc k), Ok ())"
        "ds (Suc k) = fst (net_handle_tx_chain io (ms k) (ds k) q h)"
      by (auto simp: net_handle_tx_chain_advance)
    show ?thesis using h write_used_entry_exact [OF _ _ that(2) h(2)] assms(3,4) by auto
  qed
  have inv: "k \<le> n \<Longrightarrow> mem_wf (ms k) \<and> unchanged_on (- used_area q) (ms 0) (ms k)" for k
  proof (induction k)
    case (Suc k)
    then have "unchanged_on (- used_area q) (ms k) (ms (Suc k))" "mem_wf (ms (Suc k))"
      using step [of k] used_slot_in [of "advance_by k q"] assms(3,4)
      by (auto intro: unchanged_on_mono)
    then show ?case using Suc unchanged_on_trans by auto
  qed (use assms(2) in simp)
  show "k \<le> n \<Longrightarrow> mem_wf (ms k) \<and> unchanged_on (- used_area q) (ms 0) (ms k)" by (rule inv)
  assume "k < n"
  then have k: "mem_wf (ms k)" "unchanged_on (- used_area q) (ms 0) (ms k)" using inv [of k] by auto
  have "unchanged_on (avail_area q) (ms 0) (ms k)"
    by (rule unchanged_on_mono [OF k(2)]) (use assms(3) in \<open>auto simp: rings_apart_def\<close>)
  note same = read_avail_entry_unchanged [OF this assms(2) k(1) assms(3,4)]
  show "\<exists>h. read_avail_entry NetMemory (ms 0) (advance_by k q) = Ok h \<and>
      ds (Suc k) = fst (net_handle_tx_chain io (ms k) (ds k) q h) \<and>
      unchanged_on (- used_slot (advance_by k q)) (ms k) (ms (Suc k)) \<and>
      read_bytes (ms (Suc k)) (used_entry_addr (advance_by k q)) 8 = Ok (used_entry h 0)"
    using step [OF \<open>k < n\<close> k(1)] unfolding same by blast
qed

lemma foldl_states:
  assumes "\<And>k. k < length hs \<Longrightarrow> ds (Suc k) = f (ds k) (hs ! k)"
  shows "foldl f (ds 0) hs = ds (length hs)"
  using assms by (induction hs rule: rev_induct) (simp_all add: nth_append)

lemma net_tx_entries:
  assumes p: "net_process_tx_queue io mem dev q = (mem', dev', q', Ok b)" "q_ready q"
      "read_avail_idx NetMemory mem q = Ok avail"
    and q: "mem_wf mem" "q_size q \<noteq> 0" "rings_apart q" "pending_entries q avail \<le> unat (q_size q)"
  shows "\<exists>heads. length heads = pending_entries q avail \<and>
    (\<forall>k < pending_entries q avail. read_avail_entry NetMemory mem (advance_by k q) = Ok (heads ! k) \<and>
       read_bytes mem' (used_entry_addr (advance_by k q)) 8 = Ok (used_entry (heads ! k) 0)) \<and>
    (buffers_apart mem q \<longrightarrow> dev' = foldl (\<lambda>d h. fst (net_handle_tx_chain io mem d q h)) dev heads)"
proof -
  let ?n = "pending_entries q avail"
  obtain ms ds where tr: "ms 0 = mem" "ds 0 = dev" "ds ?n = dev'" "trace_of (net_tx_step io) q ?n ms ds"
      and wr: "if b then write_used_idx NetMemory (ms ?n) (advance_by ?n q) = (mem', Ok ()) else mem' = ms ?n"
    using queue_pass_trace [OF p(1) [unfolded net_process_tx_queue_def] net_tx_step_never_stops p(2) q(2) p(3)] by blast
  note t = net_tx_trace [OF tr(4) _ q(3,2), unfolded tr(1), OF q(1)]
  obtain head where h: "\<And>k. k < ?n \<Longrightarrow> read_avail_entry NetMemory mem (advance_by k q) = Ok (head k)"
      "\<And>k. k < ?n \<Longrightarrow> ds (Suc k) = fst (net_handle_tx_chain io (ms k) (ds k) q (head k))"
      "\<And>k. k < ?n \<Longrightarrow> unchanged_on (- used_slot (advance_by k q)) (ms k) (ms (Suc k))"
      "\<And>k. k < ?n \<Longrightarrow> read_bytes (ms (Suc k)) (used_entry_addr (advance_by k q)) 8 = Ok (used_entry (head k) 0)"
    using t(2) by metis
  let ?hs = "map head [0..<?n]"
  have wf: "mem_wf (ms k)" if "k \<le> ?n" for k using t(1) that by blast
  have "read_bytes (ms ?n) (used_entry_addr (advance_by k q)) 8 = Ok (used_entry (head k) 0)" if "k < ?n" for k
    by (rule entries_stay [OF q(3,2,4) wf unchanged_on_mono [OF h(3)] h(4) that]) auto
  moreover have "read_bytes mem' (used_entry_addr (advance_by k q)) 8 =
      read_bytes (ms ?n) (used_entry_addr (advance_by k q)) 8" for k
    using wr write_used_idx_entries [OF q(3,2) wf [OF order_refl]] by (cases b) auto
  moreover have "foldl (\<lambda>d h. fst (net_handle_tx_chain io mem d q h)) dev ?hs = dev'" if "buffers_apart mem q"
  proof -
    have "ds (Suc k) = fst (net_handle_tx_chain io mem (ds k) q (?hs ! k))" if "k < length ?hs" for k
    proof -
      have k: "k < ?n" "unchanged_on (- used_area q) mem (ms k)" "mem_wf (ms k)" using that t(1) [of k] by auto
      have "net_handle_tx_chain io (ms k) (ds k) q (head k) = net_handle_tx_chain io mem (ds k) q (head k)"
        by (rule net_handle_tx_chain_unchanged [OF k(2) q(1) k(3) q(3) \<open>buffers_apart mem q\<close>])
      then show ?thesis using h(2) [OF k(1)] k(1) by simp
    qed
    from foldl_states [of ?hs ds "\<lambda>d h. fst (net_handle_tx_chain io mem d q h)", OF this]
    show ?thesis using tr by simp
  qed
  ultimately show ?thesis using h(1) by (intro exI [of _ ?hs]) auto
qed

text \<open>
  C37. Malformed packets cannot stall transmission. As long as the rings lie in guest memory,
  a transmit pass over a ready queue succeeds whatever the descriptors hold: every available
  entry is completed, the used index moves by exactly the pending entries and is published, and
  work is reported exactly when there was some.  When the used ring shares no byte with the
  table and the available ring, and no more entries are pending than the ring holds, the guest
  finds in the used ring one entry for each, in order: the head it had made available, with
  length 0.  When its buffers do not overlap the rings either, the packet backend has been
  given the packets of these chains, as they were before the pass, in the same order.
\<close>

theorem net_tx_never_stalls:
  assumes "rings_mapped mem q" "q_ready q" "read_avail_idx NetMemory mem q = Ok avail"
  defines "n \<equiv> pending_entries q avail"
  shows "\<exists>mem' dev'. net_process_tx_queue io mem dev q = (mem', dev', advance_by n q, Ok (last_avail_idx q \<noteq> avail)) \<and>
    last_avail_idx (advance_by n q) = avail \<and>
    (last_avail_idx q \<noteq> avail \<longrightarrow>
       read_bytes mem' (used_ring_addr q + 2) 2 = Ok (le_bytes 2 (last_used_idx q + (avail - last_avail_idx q)))) \<and>
    (rings_apart q \<and> n \<le> unat (q_size q) \<longrightarrow> (\<exists>heads. length heads = n \<and>
       (\<forall>k < n. read_avail_entry NetMemory mem (advance_by k q) = Ok (heads ! k) \<and>
          read_bytes mem' (used_entry_addr (advance_by k q)) 8 = Ok (used_entry (heads ! k) 0)) \<and>
       (buffers_apart mem q \<longrightarrow>
          dev' = foldl (\<lambda>d h. fst (net_handle_tx_chain io mem d q h)) dev heads)))"
proof -
  obtain mem' dev' where p: "net_process_tx_queue io mem dev q =
      (mem', dev', advance_by n q, Ok (last_avail_idx q \<noteq> avail))"
    using queue_pass_total [where st = "net_tx_step io", OF assms(1-3) net_tx_step_next]
    unfolding net_process_tx_queue_def n_def by blast
  have n: "of_nat n = avail - last_avail_idx q"
    by (simp add: pending_entries_def n_def)
  have "last_avail_idx q \<noteq> avail \<longrightarrow>
       read_bytes mem' (used_ring_addr q + 2) 2 = Ok (le_bytes 2 (last_used_idx q + (avail - last_avail_idx q)))"
    using net_tx_pass.pass_complete [OF p [unfolded net_process_tx_queue_def] assms(2) _ assms(3)] assms(1) n
    by (auto simp: rings_mapped_def)
  moreover have "\<exists>heads. length heads = n \<and>
       (\<forall>k < n. read_avail_entry NetMemory mem (advance_by k q) = Ok (heads ! k) \<and>
          read_bytes mem' (used_entry_addr (advance_by k q)) 8 = Ok (used_entry (heads ! k) 0)) \<and>
       (buffers_apart mem q \<longrightarrow> dev' = foldl (\<lambda>d h. fst (net_handle_tx_chain io mem d q h)) dev heads)"
    if "rings_apart q" "n \<le> unat (q_size q)"
    using net_tx_entries [OF p assms(2,3) _ _ that(1)] that(2) assms(1) by (auto simp: rings_mapped_def n_def)
  ultimately show ?thesis using p n by auto
qed

text \<open>
  A guest with two transmit entries: a head that lies outside the queue, and a packet of two
  bytes behind its header.
\<close>

definition demo_net_mem :: guest_memory where
  "demo_net_mem = \<lparr>gm_bytes =
     desc_bytes \<lparr>d_addr = 60, d_len = 14, d_flags = 0, d_next = 0\<rparr> @
     desc_bytes \<lparr>d_addr = 73, d_len = 1, d_flags = 0, d_next = 0\<rparr> @
     [0, 0, 2, 0, 9, 0, 0, 0] @ replicate 20 0 @ replicate 12 0 @ [1, 2],
     gm_size = 74, guest_base = 0, huge_pages = False\<rparr>"

definition demo_net_queue :: virt_queue where
  "demo_net_queue = (virt_queue_new 256)\<lparr>q_size := 2, q_ready := True, avail_ring_addr := 32, used_ring_addr := 40\<rparr>"

definition demo_frames :: "u8 list list packet_io" where
  "demo_frames = \<lparr>pio_send = (\<lambda>f p. (p @ [f], Ok (length f))),
     pio_try_recv = (\<lambda>n p. case p of [] \<Rightarrow> (p, Err IoFault) | f # fs \<Rightarrow> (fs, Ok (take n f)))\<rparr>"

lemma demo_net_mapped: "rings_mapped demo_net_mem demo_net_queue" "q_ready demo_net_queue"
  by (simp_all add: rings_mapped_def mem_wf_def valid_range_def demo_net_mem_def demo_net_queue_def virt_queue_new_def
      desc_bytes_def)

lemma demo_net_apart: "rings_apart demo_net_queue" "buffers_apart demo_net_mem demo_net_queue"
proof -
  show "rings_apart demo_net_queue"
    by (auto simp: rings_apart_def used_area_def desc_area_def avail_area_def area_def demo_net_queue_def virt_queue_new_def)
  have 0: "read_desc (\<lambda>_. ()) (\<lambda>_. ()) demo_net_mem demo_net_queue 0 = Ok \<lparr>d_addr = 60, d_len = 14, d_flags = 0, d_next = 0\<rparr>"
    by code_simp
  have 1: "read_desc (\<lambda>_. ()) (\<lambda>_. ()) demo_net_mem demo_net_queue 1 = Ok \<lparr>d_addr = 73, d_len = 1, d_flags = 0, d_next = 0\<rparr>"
    by code_simp
  have "i = 0 \<or> i = 1" if "read_desc (\<lambda>_. ()) (\<lambda>_. ()) demo_net_mem demo_net_queue i = Ok d" for i d
  proof -
    have "i < 2" using read_desc_Ok_index [OF that] by (simp add: demo_net_queue_def)
    then have "unat i < 2" by (simp add: word_less_nat_alt)
    then have "unat i = 0 \<or> unat i = 1" by linarith
    then show ?thesis by (simp add: word_unat_eq_iff)
  qed
  with 0 1 show "buffers_apart demo_net_mem demo_net_queue" unfolding buffers_apart_def
    by (fastforce simp: area_def used_area_def desc_area_def avail_area_def demo_net_queue_def virt_queue_new_def)
qed

theorem net_tx_never_stalls_witness:
  "\<exists>mem' dev'. net_process_tx_queue demo_frames demo_net_mem (net_with_packet_io generate_mac []) demo_net_queue =
       (mem', dev', advance_by 2 demo_net_queue, Ok True) \<and> read_bytes mem' 42 2 = Ok (le_bytes 2 (2 :: u16)) \<and>
     read_bytes mem' 44 8 = Ok (used_entry 9 0) \<and> read_bytes mem' 52 8 = Ok (used_entry 0 0) \<and>
     packet_io_of dev' = Some [[1, 2]]"
proof -
  let ?dev = "net_with_packet_io generate_mac [] :: u8 list list net_device"
  have av: "read_avail_idx NetMemory demo_net_mem demo_net_queue = Ok 2" by code_simp
  have n: "pending_entries demo_net_queue 2 = 2" "last_avail_idx demo_net_queue = 0" "last_used_idx demo_net_queue = 0"
    "used_ring_addr demo_net_queue + 2 = 42" "q_size demo_net_queue = 2"
    by (simp_all add: pending_entries_def demo_net_queue_def virt_queue_new_def)
  obtain mem' dev' heads where t: "net_process_tx_queue demo_frames demo_net_mem ?dev demo_net_queue =
        (mem', dev', advance_by 2 demo_net_queue, Ok True)" "read_bytes mem' 42 2 = Ok (le_bytes 2 (2 :: u16))"
      "length heads = 2" "\<forall>k < 2. read_avail_entry NetMemory demo_net_mem (advance_by k demo_net_queue) = Ok (heads ! k) \<and>
          read_bytes mem' (used_entry_addr (advance_by k demo_net_queue)) 8 = Ok (used_entry (heads ! k) 0)"
      "dev' = foldl (\<lambda>d h. fst (net_handle_tx_chain demo_frames demo_net_mem d demo_net_queue h)) ?dev heads"
    using net_tx_never_stalls [OF demo_net_mapped av, of demo_frames ?dev] demo_net_apart unfolding n by auto
  have r: "read_avail_entry NetMemory demo_net_mem (advance_by 0 demo_net_queue) = Ok 9"
      "read_avail_entry NetMemory demo_net_mem (advance_by 1 demo_net_queue) = Ok 0"
      "used_entry_addr (advance_by 0 demo_net_queue) = 44" "used_entry_addr (advance_by 1 demo_net_queue) = 52"
    by code_simp+
  have e: "heads ! 0 = 9" "read_bytes mem' 44 8 = Ok (used_entry (heads ! 0) 0)"
      "heads ! 1 = 0" "read_bytes mem' 52 8 = Ok (used_entry (heads ! 1) 0)"
    using t(4) [THEN spec, of 0] t(4) [THEN spec, of 1] unfolding r by simp_all
  then have "heads = [9, 0]" using t(3) by (auto simp: numeral_2_eq_2 length_Suc_conv)
  then have "dev' = fst (net_handle_tx_chain demo_frames demo_net_mem
      (fst (net_handle_tx_chain demo_frames demo_net_mem ?dev demo_net_queue 9)) demo_net_queue 0)"
    using t(5) by simp
  moreover have "packet_io_of (fst (net_handle_tx_chain demo_frames demo_net_mem
      (fst (net_handle_tx_chain demo_frames demo_net_mem ?dev demo_net_queue 9)) demo_net_queue 0)) = Some [[1, 2]]"
    by code_simp
  ultimately show ?thesis using t(1,2) e by auto
qed

section \<open>Reception\<close>

text \<open>The reference: the payload laid out over a list of descriptors, as address and bytes.\<close>

fun scatter :: "virtq_desc list \<Rightarrow> u8 list \<Rightarrow> (u64 \<times> u8 list) list" where
  "scatter [] bs = []"
| "scatter (d # ds) bs = (d_addr d, take (unat (d_len d)) bs) # scatter ds (drop (unat (d_len d)) bs)"

fun write_segments :: "guest_memory \<Rightarrow> (u64 \<times> u8 list) list \<Rightarrow> (guest_memory, memory_error) result" where
  "write_segments mem [] = Ok mem"
| "write_segments mem ((a, bs) # segs) =
     (if bs = [] then write_segments mem segs
      else case write_bytes mem a bs of Err e \<Rightarrow> Err e | Ok mem' \<Rightarrow> write_segments mem' segs)"

definition capacity :: "virtq_desc list \<Rightarrow> nat" where
  "capacity ds = sum_list (map (\<lambda>d. unat (d_len d)) ds)"

lemma concat_scatter: "concat (map snd (scatter ds bs)) = take (capacity ds) bs"
  by (induction ds arbitrary: bs) (simp_all add: capacity_def take_add)

text \<open>
  The descriptors of a chain: each but the last has the flag that there is another one, and the
  next is the one its index names in the descriptor table, as the table is when the walk gets
  there, which is after the segments up to that point have been written.
\<close>

definition chain_of :: "guest_memory \<Rightarrow> virt_queue \<Rightarrow> virtq_desc list \<Rightarrow> u8 list \<Rightarrow> bool" where
  "chain_of mem q ds bs \<longleftrightarrow> (\<forall>i. Suc i < length ds \<longrightarrow> has_next (ds ! i) \<and>
     (\<exists>m. write_segments mem (take (Suc i) (scatter ds bs)) = Ok m \<and>
          read_bytes m (desc_table_addr q + ucast (d_next (ds ! i)) * 16) 16 = Ok (desc_bytes (ds ! Suc i)) \<and>
          d_next (ds ! i) < q_size q))"

lemma desc_bytes_parse:
  assumes "length bs = 16"
  shows "desc_bytes (parse_desc bs) = bs"
proof -
  have "bs = take 8 bs @ take 4 (drop 8 bs) @ take 2 (drop 12 bs) @ take 2 (drop 14 bs)"
    using assms take_add [of 8 8 bs] take_add [of 4 4 "drop 8 bs"] take_add [of 2 2 "drop 12 bs"] by simp
  then show ?thesis using assms by (simp add: desc_bytes_def parse_desc_def slice_def le_bytes_le_word)
qed

lemma read_desc_table:
  assumes "mem_wf m" "read_desc f g m q i = Ok d"
  shows "read_bytes m (desc_table_addr q + ucast i * 16) 16 = Ok (desc_bytes d)" "i < q_size q"
proof -
  show "i < q_size q" by (rule read_desc_Ok_index [OF assms(2)])
  obtain bs where bs: "read_bytes m (desc_table_addr q + ucast i * 16) 16 = Ok bs" "d = parse_desc bs"
    using assms(2) by (auto simp: read_desc_def split: if_splits result.splits)
  then have "length bs = 16" using ram.rd_length [OF assms(1)] by blast
  then have "desc_bytes (parse_desc bs) = bs" by (rule desc_bytes_parse)
  then show "read_bytes m (desc_table_addr q + ucast i * 16) 16 = Ok (desc_bytes d)" using bs by simp
qed

lemma chain_of_Cons:
  assumes "ds \<noteq> []" "chain_of m1 q ds (drop (unat (d_len d)) bs)"
    and "\<And>segs. write_segments mem ((d_addr d, take (unat (d_len d)) bs) # segs) = write_segments m1 segs"
    and "has_next d" "read_bytes m1 (desc_table_addr q + ucast (d_next d) * 16) 16 = Ok (desc_bytes (hd ds))"
      "d_next d < q_size q"
  shows "chain_of mem q (d # ds) bs"
  unfolding chain_of_def
proof (intro allI impI)
  fix i assume i: "Suc i < length (d # ds)"
  have first: "write_segments mem (take (Suc i) (scatter (d # ds) bs)) =
      write_segments m1 (take i (scatter ds (drop (unat (d_len d)) bs)))"
    using assms(3) by simp
  show "has_next ((d # ds) ! i) \<and> (\<exists>m. write_segments mem (take (Suc i) (scatter (d # ds) bs)) = Ok m \<and>
      read_bytes m (desc_table_addr q + ucast (d_next ((d # ds) ! i)) * 16) 16 = Ok (desc_bytes ((d # ds) ! Suc i)) \<and>
      d_next ((d # ds) ! i) < q_size q)"
    using assms(1,2,4-6) i unfolding first chain_of_def by (cases i) (auto simp: hd_conv_nth)
qed

lemma write_rx_from_scatter:
  assumes "write_rx_from mem q d v bs w = (mem', Ok w')" "unat w + length bs < 2 ^ 32" "mem_wf mem"
  shows "\<exists>ds. ds \<noteq> [] \<and> hd ds = d \<and> length ds + v \<le> unat (q_size q) \<and> chain_of mem q ds bs \<and>
    (ds \<noteq> [d] \<longrightarrow> capacity (butlast ds) < length bs) \<and>
    write_segments mem (scatter ds bs) = Ok mem' \<and> unat w' = unat w + min (length bs) (capacity ds) \<and>
    (capacity ds < length bs \<longrightarrow> \<not> has_next (last ds))"
  using assms
proof (induction mem q d v bs w rule: write_rx_from.induct)
  case (1 mem q d v bs w)
  define n where "n = min (length bs) (unat (d_len d))"
  define w1 where "w1 = (if n > 0 then u32_saturating_add w (u32_sat n) else w)"
  from "1.prems"(1) obtain m1 where v: "\<not> v + 1 > unat (q_size q)"
      and m1: "(if n > 0 then write_bytes mem (d_addr d) (take n bs) else Ok mem) = Ok m1"
    by (auto simp: write_rx_from.simps [of mem q d v bs w] Let_def n_def split: if_splits result.splits)
  have unf: "write_rx_from mem q d v bs w =
      (if drop n bs = [] \<or> \<not> has_next d then (m1, Ok w1)
       else case net_read_desc m1 q (d_next d) of Err e \<Rightarrow> (m1, Err e)
            | Ok d' \<Rightarrow> write_rx_from m1 q d' (v + 1) (drop n bs) w1)"
    using v m1 unfolding write_rx_from.simps [of mem q d v bs w] Let_def n_def [symmetric] w1_def by simp
  have w1: "unat w1 = unat w + n"
    using "1.prems"(2) by (auto simp: unat_u32_saturating_add unat_u32_sat w1_def n_def)
  have seg: "write_segments mem ((d_addr d, take (unat (d_len d)) bs) # segs) = write_segments m1 segs" for segs
    using m1 by (auto simp: min_def n_def split: if_splits)
  have tk: "drop n bs = drop (unat (d_len d)) bs" by (simp add: min_def n_def)
  show ?case
  proof (cases "drop n bs = [] \<or> \<not> has_next d")
    case True
    then have "mem' = m1" "w' = w1" using "1.prems"(1) unf by simp_all
    then show ?thesis using True v w1 seg [of "[]"] tk
      by (intro exI [of _ "[d]"]) (auto simp: capacity_def n_def chain_of_def)
  next
    case False
    then obtain d1 where d1: "net_read_desc m1 q (d_next d) = Ok d1"
        and run: "write_rx_from m1 q d1 (v + 1) (drop n bs) w1 = (mem', Ok w')"
      using "1.prems"(1) unf by (auto split: result.splits)
    have lt: "unat w1 + length (drop n bs) < 2 ^ 32" using w1 "1.prems"(2) by (simp add: n_def)
    have wf: "mem_wf m1" using m1 "1.prems"(3) by (auto split: if_splits dest: mem_wf_write)
    obtain ds where ds: "ds \<noteq> []" "hd ds = d1" "length ds + (v + 1) \<le> unat (q_size q)" "chain_of m1 q ds (drop n bs)"
        "ds \<noteq> [d1] \<longrightarrow> capacity (butlast ds) < length (drop n bs)"
        "write_segments m1 (scatter ds (drop n bs)) = Ok mem'"
        "unat w' = unat w1 + min (length (drop n bs)) (capacity ds)"
        "capacity ds < length (drop n bs) \<longrightarrow> \<not> has_next (last ds)"
      using "1.IH" [OF v n_def m1 w1_def refl False d1 run lt wf] by auto
    have "chain_of mem q (d # ds) bs" using chain_of_Cons [OF ds(1,4) [unfolded tk]] seg False
        read_desc_table [OF wf d1] ds(2) by blast
    moreover have "capacity (butlast (d # ds)) < length bs"
      using ds(1,2,5) False by (cases ds) (auto simp: capacity_def n_def)
    ultimately show ?thesis using ds w1 seg tk False
      by (intro exI [of _ "d # ds"]) (auto simp: capacity_def n_def)
  qed
qed

text \<open>
  C36. A received frame reaches the guest as written on the wire. Writing the zeroed
  virtio-net header and a frame into a chain that succeeds has laid the payload out, in
  order and without gaps, over the descriptors of the chain that starts at the given one: each
  has the next flag and names, by its index, the sixteen bytes of the table that hold the next,
  read after the segments before it were written.  The walk goes no further than the payload
  needs and no further than the queue is long; the length reported is exactly the number of
  payload bytes placed, and it is less than the payload only when the chain ends too early.
\<close>

theorem net_rx_scatter_exact:
  assumes "mem_wf mem" "write_rx_chain mem q d (replicate VNET_HDR_SIZE 0) frame = (mem', Ok w)"
    "length frame \<le> MAX_FRAME_SIZE"
  defines "payload \<equiv> replicate VNET_HDR_SIZE 0 @ frame"
  shows "\<exists>ds. ds \<noteq> [] \<and> hd ds = d \<and> length ds \<le> unat (q_size q) \<and> chain_of mem q ds payload \<and>
    capacity (butlast ds) < length payload \<and> write_segments mem (scatter ds payload) = Ok mem' \<and>
    concat (map snd (scatter ds payload)) = take (unat w) payload \<and> unat w \<le> length payload \<and>
    (unat w < length payload \<longrightarrow> \<not> has_next (last ds))"
proof -
  have "unat (0 :: u32) + length payload < 2 ^ 32" using assms(3) by (simp add: payload_def)
  from write_rx_from_scatter [OF assms(2) [unfolded write_rx_chain_def, folded payload_def] this assms(1)]
  obtain ds where ds: "ds \<noteq> []" "hd ds = d" "length ds \<le> unat (q_size q)" "chain_of mem q ds payload"
      "ds \<noteq> [d] \<longrightarrow> capacity (butlast ds) < length payload" "write_segments mem (scatter ds payload) = Ok mem'"
      "unat w = min (length payload) (capacity ds)" "capacity ds < length payload \<longrightarrow> \<not> has_next (last ds)"
    by auto
  moreover have "capacity (butlast ds) < length payload"
    using ds(5) by (cases "ds = [d]") (simp_all add: capacity_def payload_def)
  ultimately show ?thesis by (intro exI [of _ ds]) (auto simp: concat_scatter min_def)
qed

text \<open>A chain of two descriptors: the first, at index 0 of the table, names the one at index 1.\<close>

definition demo_rx_mem :: guest_memory where
  "demo_rx_mem = \<lparr>gm_bytes =
     desc_bytes \<lparr>d_addr = 60, d_len = 10, d_flags = 3, d_next = 1\<rparr> @
     desc_bytes \<lparr>d_addr = 70, d_len = 8, d_flags = 2, d_next = 0\<rparr> @ replicate 48 9,
     gm_size = 80, guest_base = 0, huge_pages = False\<rparr>"

theorem net_rx_scatter_exact_witness:
  "\<exists>mem' ds. write_rx_chain demo_rx_mem demo_net_queue
       \<lparr>d_addr = 60, d_len = 10, d_flags = 3, d_next = 1\<rparr> (replicate VNET_HDR_SIZE 0) [1, 2, 3] = (mem', Ok 15) \<and>
     ds \<noteq> [] \<and> hd ds = \<lparr>d_addr = 60, d_len = 10, d_flags = 3, d_next = 1\<rparr> \<and>
     chain_of demo_rx_mem demo_net_queue ds (replicate VNET_HDR_SIZE 0 @ [1, 2, 3]) \<and>
     write_segments demo_rx_mem (scatter ds (replicate VNET_HDR_SIZE 0 @ [1, 2, 3])) = Ok mem' \<and>
     concat (map snd (scatter ds (replicate VNET_HDR_SIZE 0 @ [1, 2, 3]))) = replicate VNET_HDR_SIZE 0 @ [1, 2, 3]"
proof -
  let ?d = "\<lparr>d_addr = 60, d_len = 10, d_flags = 3, d_next = 1\<rparr> :: virtq_desc"
  let ?run = "write_rx_chain demo_rx_mem demo_net_queue ?d (replicate VNET_HDR_SIZE 0) [1, 2, 3]"
  have first: "write_bytes demo_rx_mem 60 (replicate 10 0) = Ok (demo_rx_mem\<lparr>gm_bytes :=
      take 60 (gm_bytes demo_rx_mem) @ replicate 10 0 @ replicate 10 9\<rparr>)" (is "_ = Ok ?m1") by code_simp
  have desc: "net_read_desc ?m1 demo_net_queue 1 = Ok \<lparr>d_addr = 70, d_len = 8, d_flags = 2, d_next = 0\<rparr>" by code_simp
  have "is_ok (write_bytes ?m1 70 (replicate 2 0 @ [1, 2, 3]))" by code_simp
  then obtain m2 where second: "write_bytes ?m1 70 (replicate 2 0 @ [1, 2, 3]) = Ok m2" by (auto simp: is_ok_iff)
  have size: "unat (q_size demo_net_queue) = 2" by (simp add: demo_net_queue_def)
  have "snd ?run = Ok 15"
    using first desc second size
    by (simp add: write_rx_chain_def write_rx_from.simps [of demo_rx_mem] write_rx_from.simps [of ?m1] has_next_def
        Let_def u32_sat_def u32_saturating_add_def)
  then obtain mem' where w: "?run = (mem', Ok 15)" by (metis prod.collapse)
  have l: "length [1, 2, 3 :: u8] \<le> MAX_FRAME_SIZE" by simp
  have m: "mem_wf demo_rx_mem" by (simp add: mem_wf_def demo_rx_mem_def desc_bytes_def)
  obtain ds where ds: "ds \<noteq> []" "hd ds = ?d"
      "chain_of demo_rx_mem demo_net_queue ds (replicate VNET_HDR_SIZE 0 @ [1, 2, 3])"
      "write_segments demo_rx_mem (scatter ds (replicate VNET_HDR_SIZE 0 @ [1, 2, 3])) = Ok mem'"
      "concat (map snd (scatter ds (replicate VNET_HDR_SIZE 0 @ [1, 2, 3]))) =
        take (unat (15 :: u32)) (replicate VNET_HDR_SIZE 0 @ [1, 2, 3])"
    using net_rx_scatter_exact [OF m w l] by blast
  have "take (unat (15 :: u32)) (replicate VNET_HDR_SIZE 0 @ [1, 2, 3 :: u8]) = replicate VNET_HDR_SIZE 0 @ [1, 2, 3]"
    by code_simp
  with w ds show ?thesis by metis
qed

text \<open>
  Reception takes the frame before it looks at the guest's buffer. When the next
  available chain starts with a descriptor the device may not write, the pass ends without
  completing anything, yet the frame has left the packet backend: it is lost.
\<close>

lemma net_rx_frame_lost:
  assumes "q_ready q" "q_size q \<noteq> 0" "read_avail_idx NetMemory mem q = Ok avail" "last_avail_idx q \<noteq> avail"
    "read_avail_entry NetMemory mem q = Ok h" "net_read_desc mem q h = Ok d" "\<not> is_write_only d"
    "packet_io_of dev = Some p" "pio_try_recv io MAX_FRAME_SIZE p = (p', Ok frame)" "frame \<noteq> []"
  shows "net_process_rx_queue io mem dev q = (mem, dev\<lparr>packet_io_of := Some p'\<rparr>, q, Ok False)"
  using assms
  by (simp add: net_process_rx_queue_def queue_pass_def pass_loop.simps [of "net_rx_step io" mem] net_rx_step_def)

end
