(* ===== verification/Balloon_Device.thy ===== *)
theory Balloon_Device
  imports Queue_Pass
begin

text \<open>
  The virtio memory balloon, \<^verbatim>\<open>src/crates/visor-vmm/src/devices/balloon.rs\<close>. Unlike the
  other backends it reads the available index again in every turn of its loops, so a loop
  may run forever: the loops are \<open>partial_function (option)\<close>, \<open>None\<close> being
  no return. \<open>dontneed\<close> is what \<open>madvise(MADV_DONTNEED)\<close> does to the bytes of the
  region, given the offset of a page.
\<close>

section \<open>The device\<close>

abbreviation (input) BALLOON_PAGE_SIZE :: u64 where "BALLOON_PAGE_SIZE \<equiv> 4096"

datatype balloon_error = BalloonMemory memory_error

record balloon_device =
  bl_avail_features :: u64
  bl_acked_features :: u64
  bl_queues :: "virt_queue list"
  bl_activated :: bool
  bl_target_pages :: u32
  bl_actual_pages :: u32
  total_inflated :: u64
  total_deflated :: u64

definition balloon_new :: "u32 \<Rightarrow> balloon_device" where
  "balloon_new initial_target_pages = \<lparr>bl_avail_features = VIRTIO_F_VERSION_1, bl_acked_features = 0,
     bl_queues = [virt_queue_new 128, virt_queue_new 128], bl_activated = False,
     bl_target_pages = initial_target_pages, bl_actual_pages = 0, total_inflated = 0, total_deflated = 0\<rparr>"

definition set_target_pages :: "u32 \<Rightarrow> balloon_device \<Rightarrow> balloon_device" where
  "set_target_pages pages d = d\<lparr>bl_target_pages := pages\<rparr>"

definition reclaimed_bytes :: "balloon_device \<Rightarrow> u64" where
  "reclaimed_bytes d = ucast (bl_actual_pages d) * BALLOON_PAGE_SIZE"

section \<open>Ring helpers\<close>

record desc_info =
  di_addr :: u64
  di_len :: u32

definition balloon_read_desc :: "guest_memory \<Rightarrow> u64 \<Rightarrow> u16 \<Rightarrow> (desc_info, balloon_error) result" where
  "balloon_read_desc mem table idx =
     (case read_bytes mem (table + ucast idx * 16) 12 of
        Err e \<Rightarrow> Err (BalloonMemory e)
      | Ok bs \<Rightarrow> Ok \<lparr>di_addr = le_word (slice 0 8 bs), di_len = le_word (slice 8 4 bs)\<rparr>)"

text \<open>Every failing read ends the loop silently: the source drops the error with \<open>ok()?\<close>.\<close>

definition next_avail_desc :: "virt_queue \<Rightarrow> guest_memory \<Rightarrow> (virt_queue \<times> u16 \<times> nat) option" where
  "next_avail_desc q mem =
     (case read_avail_idx BalloonMemory mem q of
        Err _ \<Rightarrow> None
      | Ok avail_idx \<Rightarrow>
          if last_avail_idx q = avail_idx then None
          else case read_avail_entry BalloonMemory mem q of
                 Err _ \<Rightarrow> None
               | Ok desc_idx \<Rightarrow>
                   (case balloon_read_desc mem (desc_table_addr q) desc_idx of
                      Err _ \<Rightarrow> None
                    | Ok desc \<Rightarrow>
                        Some (q\<lparr>last_avail_idx := last_avail_idx q + 1\<rparr>, desc_idx, unat (di_len desc) div 4)))"

definition add_used ::
  "virt_queue \<Rightarrow> guest_memory \<Rightarrow> u16 \<Rightarrow> u32 \<Rightarrow> virt_queue \<times> guest_memory \<times> (unit, balloon_error) result" where
  "add_used q mem desc_idx len =
     (case read_bytes mem (used_ring_addr q + 2) 2 of
        Err e \<Rightarrow> (q, mem, Err (BalloonMemory e))
      | Ok bs \<Rightarrow>
          (let used_idx = (le_word bs :: u16);
               ring_offset = used_ring_addr q + 4 + ucast (used_idx mod q_size q) * 8
           in case write_bytes mem ring_offset (le_bytes 4 (ucast desc_idx :: u32) @ le_bytes 4 len) of
                Err e \<Rightarrow> (q, mem, Err (BalloonMemory e))
              | Ok mem1 \<Rightarrow>
                  (case write_bytes mem1 (used_ring_addr q + 2) (le_bytes 2 (used_idx + 1)) of
                     Err e \<Rightarrow> (q, mem1, Err (BalloonMemory e))
                   | Ok mem2 \<Rightarrow> (q\<lparr>last_used_idx := used_idx + 1\<rparr>, mem2, Ok ()))))"

section \<open>Inflating\<close>

definition inflate_pfn :: "(nat \<Rightarrow> u8 list \<Rightarrow> u8 list) \<Rightarrow> u32 \<Rightarrow> guest_memory \<Rightarrow> guest_memory" where
  "inflate_pfn dontneed pfn mem =
     (case guest_to_host mem (ucast pfn * BALLOON_PAGE_SIZE) of
        None \<Rightarrow> mem
      | Some off \<Rightarrow> mem\<lparr>gm_bytes := dontneed off (gm_bytes mem)\<rparr>)"

fun inflate_pfns ::
  "(nat \<Rightarrow> u8 list \<Rightarrow> u8 list) \<Rightarrow> u64 \<Rightarrow> nat \<Rightarrow> nat \<Rightarrow> guest_memory \<Rightarrow> u32 \<Rightarrow>
     guest_memory \<times> u32 \<times> (unit, balloon_error) result" where
  "inflate_pfns dontneed addr i 0 mem pages = (mem, pages, Ok ())"
| "inflate_pfns dontneed addr i (Suc n) mem pages =
     (case read_bytes mem (addr + of_nat i * 4) 4 of
        Err e \<Rightarrow> (mem, pages, Err (BalloonMemory e))
      | Ok bs \<Rightarrow> inflate_pfns dontneed addr (i + 1) n (inflate_pfn dontneed (le_word bs) mem) (pages + 1))"

text \<open>One turn of each loop: \<open>Inl\<close> continues with the new state, \<open>Inr\<close> leaves the loop.\<close>

type_synonym balloon_state = "guest_memory \<times> virt_queue \<times> bool \<times> u32"
type_synonym balloon_outcome = "guest_memory \<times> virt_queue \<times> (bool \<times> u32, balloon_error) result"

definition inflate_step ::
  "(nat \<Rightarrow> u8 list \<Rightarrow> u8 list) \<Rightarrow> balloon_state \<Rightarrow> balloon_state + balloon_outcome" where
  "inflate_step dontneed st =
     (case st of (mem, q, processed, pages) \<Rightarrow>
        (case next_avail_desc q mem of
           None \<Rightarrow> Inr (mem, q, Ok (processed, pages))
         | Some (q1, desc_idx, pfn_count) \<Rightarrow>
             (case balloon_read_desc mem (desc_table_addr q1) desc_idx of
                Err e \<Rightarrow> Inr (mem, q1, Err e)
              | Ok desc \<Rightarrow>
                  (case inflate_pfns dontneed (di_addr desc) 0 (min pfn_count (unat (di_len desc) div 4)) mem pages of
                     (mem1, pages1, Err e) \<Rightarrow> Inr (mem1, q1, Err e)
                   | (mem1, pages1, Ok _) \<Rightarrow>
                       (case add_used q1 mem1 desc_idx 0 of
                          (q2, mem2, Err e) \<Rightarrow> Inr (mem2, q2, Err e)
                        | (q2, mem2, Ok _) \<Rightarrow> Inl (mem2, q2, True, pages1))))))"

definition deflate_step :: "balloon_state \<Rightarrow> balloon_state + balloon_outcome" where
  "deflate_step st =
     (case st of (mem, q, processed, pages) \<Rightarrow>
        (case next_avail_desc q mem of
           None \<Rightarrow> Inr (mem, q, Ok (processed, pages))
         | Some (q1, desc_idx, pfn_count) \<Rightarrow>
             (case balloon_read_desc mem (desc_table_addr q1) desc_idx of
                Err e \<Rightarrow> Inr (mem, q1, Err e)
              | Ok desc \<Rightarrow>
                  (let pages1 = pages + u32_sat (min pfn_count (unat (di_len desc) div 4))
                   in case add_used q1 mem desc_idx 0 of
                        (q2, mem2, Err e) \<Rightarrow> Inr (mem2, q2, Err e)
                      | (q2, mem2, Ok _) \<Rightarrow> Inl (mem2, q2, True, pages1)))))"

partial_function (option) balloon_loop ::
  "(balloon_state \<Rightarrow> balloon_state + balloon_outcome) \<Rightarrow> balloon_state \<Rightarrow> balloon_outcome option" where
  "balloon_loop step st = (case step st of Inl st' \<Rightarrow> balloon_loop step st' | Inr out \<Rightarrow> Some out)"

definition process_inflate ::
  "(nat \<Rightarrow> u8 list \<Rightarrow> u8 list) \<Rightarrow> guest_memory \<Rightarrow> balloon_device \<Rightarrow>
     (balloon_device \<times> guest_memory \<times> (bool, balloon_error) result) option" where
  "process_inflate dontneed mem dev =
     (let q = bl_queues dev ! 0
      in if \<not> q_ready q \<or> q_size q = 0 then Some (dev, mem, Ok False)
         else map_option (\<lambda>(mem', q', r).
                let dev1 = dev\<lparr>bl_queues := (bl_queues dev)[0 := q']\<rparr>
                in case r of
                     Err e \<Rightarrow> (dev1, mem', Err e)
                   | Ok (processed, pages) \<Rightarrow>
                       (if pages > 0
                        then dev1\<lparr>bl_actual_pages := u32_saturating_add (bl_actual_pages dev1) pages,
                                  total_inflated := total_inflated dev1 + ucast pages\<rparr>
                        else dev1, mem', Ok processed))
              (balloon_loop (inflate_step dontneed) (mem, q, False, 0)))"

definition process_deflate ::
  "guest_memory \<Rightarrow> balloon_device \<Rightarrow> (balloon_device \<times> guest_memory \<times> (bool, balloon_error) result) option" where
  "process_deflate mem dev =
     (let q = bl_queues dev ! 1
      in if \<not> q_ready q \<or> q_size q = 0 then Some (dev, mem, Ok False)
         else map_option (\<lambda>(mem', q', r).
                let dev1 = dev\<lparr>bl_queues := (bl_queues dev)[1 := q']\<rparr>
                in case r of
                     Err e \<Rightarrow> (dev1, mem', Err e)
                   | Ok (processed, pages) \<Rightarrow>
                       (if pages > 0
                        then dev1\<lparr>bl_actual_pages := of_nat (unat (bl_actual_pages dev1) - unat pages),
                                  total_deflated := total_deflated dev1 + ucast pages\<rparr>
                        else dev1, mem', Ok processed))
              (balloon_loop deflate_step (mem, q, False, 0)))"

section \<open>The trait methods\<close>

definition balloon_set_acked_features :: "u64 \<Rightarrow> balloon_device \<Rightarrow> balloon_device" where
  "balloon_set_acked_features f d = d\<lparr>bl_acked_features := f AND bl_avail_features d\<rparr>"

definition balloon_read_config :: "balloon_device \<Rightarrow> u64 \<Rightarrow> u8 list \<Rightarrow> u8 list" where
  "balloon_read_config d offset data =
     (let config = le_bytes 4 (bl_target_pages d) @ le_bytes 4 (bl_actual_pages d)
      in map (\<lambda>i. let idx = unat (offset + of_nat i) in if idx < 8 then config ! idx else 0) [0..<length data])"

definition balloon_write_config :: "u64 \<Rightarrow> u8 list \<Rightarrow> balloon_device \<Rightarrow> balloon_device" where
  "balloon_write_config offset data d =
     (if offset = 4 \<and> length data \<ge> 4 then d\<lparr>bl_actual_pages := le_word (take 4 data)\<rparr> else d)"

definition balloon_activate :: "balloon_device \<Rightarrow> balloon_device \<times> (unit, virtio_error) result" where
  "balloon_activate d = (d\<lparr>bl_activated := True\<rparr>, Ok ())"

definition balloon_reset :: "balloon_device \<Rightarrow> balloon_device" where
  "balloon_reset d = d\<lparr>bl_activated := False, bl_acked_features := 0,
     bl_queues := map virt_queue_reset (bl_queues d)\<rparr>"

definition balloon_process_queue ::
  "(nat \<Rightarrow> u8 list \<Rightarrow> u8 list) \<Rightarrow> nat \<Rightarrow> guest_memory \<Rightarrow> balloon_device \<Rightarrow>
     (balloon_device \<times> guest_memory \<times> (bool, virtio_error) result) option" where
  "balloon_process_queue dontneed queue_idx mem dev =
     (let conv = map_option (\<lambda>(d, m, r). (d, m, case r of Ok b \<Rightarrow> Ok b | Err _ \<Rightarrow> Err ActivationFailed))
      in if queue_idx = 0 then conv (process_inflate dontneed mem dev)
         else if queue_idx = 1 then conv (process_deflate mem dev)
         else Some (dev, mem, Ok False))"

section \<open>When the loops return\<close>

lemma unat_plus_small:
  "unat (a :: u64) + unat b < 2 ^ 64 \<Longrightarrow> unat (a + b) = unat a + unat b"
  by (simp add: unat_word_ariths)

lemma add_used_cell:
  assumes "add_used q mem h l = (q', mem', Ok ())" "mem_wf mem" "q_size q \<noteq> 0"
    and "unat (used_ring_addr q) + 4 + 8 * unat (q_size q) \<le> 2 ^ 64"
    and "disjoint_ranges (avail_ring_addr q + 2) 2 (used_ring_addr q + 2) (2 + 8 * unat (q_size q))"
  shows "mem_wf mem' \<and> read_bytes mem' (avail_ring_addr q + 2) 2 = read_bytes mem (avail_ring_addr q + 2) 2 \<and>
    (\<exists>u. q' = q\<lparr>last_used_idx := u\<rparr>)"
proof -
  from assms(1) obtain bs m1 where "read_bytes mem (used_ring_addr q + 2) 2 = Ok bs"
      and m1: "write_bytes mem (used_ring_addr q + 4 + ucast (le_word bs mod q_size q) * 8)
        (le_bytes 4 (ucast h :: u32) @ le_bytes 4 l) = Ok m1"
      and m2: "write_bytes m1 (used_ring_addr q + 2) (le_bytes 2 (le_word bs + 1 :: u16)) = Ok mem'"
      and q': "q' = q\<lparr>last_used_idx := le_word bs + 1\<rparr>"
    by (auto simp: add_used_def Let_def split: result.splits)
  let ?s = "le_word bs mod q_size q"
  have b: "unat (4 + ucast ?s * 8 :: u64) = 4 + unat ?s * 8" "unat ?s < unat (q_size q)"
    using ring_slot_bound [of "q_size q" 8 "le_word bs"] assms(3) by simp_all
  have sz: "0 < unat (q_size q)" using assms(3) by (simp add: unat_gt_0)
  have u: "unat (used_ring_addr q + 4 + ucast ?s * 8) = unat (used_ring_addr q) + (4 + unat ?s * 8)"
    using unat_plus_small [of "used_ring_addr q" "4 + ucast ?s * 8"] b assms(4) by (simp add: add.assoc)
  have u2: "unat (used_ring_addr q + 2) = unat (used_ring_addr q) + 2"
    using unat_plus_small [of "used_ring_addr q" 2] assms(4) sz by simp
  have d1: "disjoint_ranges (used_ring_addr q + 4 + ucast ?s * 8) 8 (avail_ring_addr q + 2) 2"
    and d2: "disjoint_ranges (used_ring_addr q + 2) 2 (avail_ring_addr q + 2) 2"
    using assms(5) b(2) u u2 by (auto simp: disjoint_ranges_def)
  have wf1: "mem_wf m1" using assms(2) m1 by (rule mem_wf_write)
  have "read_bytes m1 (avail_ring_addr q + 2) 2 = read_bytes mem (avail_ring_addr q + 2) 2"
    using ram.rd_wr_other [OF assms(2) m1] d1 by simp
  moreover have "read_bytes mem' (avail_ring_addr q + 2) 2 = read_bytes m1 (avail_ring_addr q + 2) 2"
    using ram.rd_wr_other [OF wf1 m2] d2 by simp
  ultimately show ?thesis using mem_wf_write [OF wf1 m2] q' by auto
qed

lemma next_avail_desc_Some:
  "next_avail_desc q mem = Some (q', h, n) \<Longrightarrow> read_avail_idx BalloonMemory mem q = Ok a \<Longrightarrow>
     q' = q\<lparr>last_avail_idx := last_avail_idx q + 1\<rparr> \<and> last_avail_idx q \<noteq> a"
  by (auto simp: next_avail_desc_def split: result.splits if_splits)

lemma next_avail_desc_geometry:
  "next_avail_desc q mem = Some (q', h, n) \<Longrightarrow> q' = q\<lparr>last_avail_idx := last_avail_idx q + 1\<rparr>"
  by (auto simp: next_avail_desc_def split: result.splits if_splits)

text \<open>The guest's used ring does not overlap its available index.\<close>

definition rings_apart :: "virt_queue \<Rightarrow> bool" where
  "rings_apart q \<longleftrightarrow> q_size q \<noteq> 0 \<and> unat (used_ring_addr q) + 4 + 8 * unat (q_size q) \<le> 2 ^ 64 \<and>
     disjoint_ranges (avail_ring_addr q + 2) 2 (used_ring_addr q + 2) (2 + 8 * unat (q_size q))"

text \<open>
  What \<open>madvise\<close> documents for anonymous memory: a byte of the region keeps its value or
  reads as zero. Pages that hold the guest's own rings may be among those given up.
\<close>

definition cleared :: "u8 list \<Rightarrow> u8 list \<Rightarrow> bool" where
  "cleared bs bs' \<longleftrightarrow> list_all2 (\<lambda>x y. y = x \<or> y = 0) bs bs'"

definition only_clears :: "(nat \<Rightarrow> u8 list \<Rightarrow> u8 list) \<Rightarrow> bool" where
  "only_clears dontneed \<longleftrightarrow> (\<forall>off bs. cleared bs (dontneed off bs))"

definition nonzero_bytes :: "u8 list \<Rightarrow> nat" where
  "nonzero_bytes bs = length (filter (\<lambda>b. b \<noteq> 0) bs)"

lemma cleared_refl [simp]: "cleared bs bs"
  by (simp add: cleared_def list_all2_refl)

lemma cleared_trans: "cleared a b \<Longrightarrow> cleared b c \<Longrightarrow> cleared a c"
  unfolding cleared_def list_all2_conv_all_nth by metis

lemma cleared_slice: "cleared a b \<Longrightarrow> cleared (slice i n a) (slice i n b)"
  by (simp add: cleared_def slice_def list_all2_takeI list_all2_dropI)

lemma cleared_length: "cleared a b \<Longrightarrow> length b = length a"
  by (simp add: cleared_def list_all2_lengthD)

lemma cleared_progress: "cleared a b \<Longrightarrow> b = a \<or> nonzero_bytes b < nonzero_bytes a"
proof -
  assume "cleared a b"
  then have "nonzero_bytes b \<le> nonzero_bytes a \<and> (b = a \<or> nonzero_bytes b < nonzero_bytes a)"
    unfolding cleared_def nonzero_bytes_def by (induction rule: list_all2_induct) auto
  then show ?thesis by blast
qed

lemma inflate_pfn_clears:
  assumes "only_clears dontneed" "mem_wf mem" "read_bytes mem a n = Ok bs"
  shows "mem_wf (inflate_pfn dontneed f mem) \<and>
    (\<exists>bs'. read_bytes (inflate_pfn dontneed f mem) a n = Ok bs' \<and> cleared bs bs')"
proof (cases "guest_to_host mem (ucast f * BALLOON_PAGE_SIZE)")
  case None
  then show ?thesis using assms by (auto simp: inflate_pfn_def)
next
  case (Some off)
  have c: "cleared (gm_bytes mem) (dontneed off (gm_bytes mem))" using assms(1) by (simp add: only_clears_def)
  have v: "valid_range mem a n" "valid_range mem a 0" using assms(3) by (auto simp: read_bytes_eq split: if_splits)
  show ?thesis using Some assms(2,3) v cleared_length [OF c] cleared_slice [OF c]
    by (auto simp: inflate_pfn_def mem_wf_def read_bytes_eq valid_range_def)
qed

lemma inflate_pfns_clears:
  assumes "inflate_pfns dontneed addr i n mem pages = (mem', pages', r)" "only_clears dontneed" "mem_wf mem"
    "read_bytes mem a k = Ok bs"
  shows "mem_wf mem' \<and> (\<exists>bs'. read_bytes mem' a k = Ok bs' \<and> cleared bs bs')"
  using assms
proof (induction n arbitrary: i mem pages bs)
  case (Suc n)
  show ?case
  proof (cases "read_bytes mem (addr + of_nat i * 4) 4")
    case (Ok w)
    let ?m = "inflate_pfn dontneed (le_word w) mem"
    obtain bs1 where 1: "mem_wf ?m" "read_bytes ?m a k = Ok bs1" "cleared bs bs1"
      using inflate_pfn_clears [OF Suc.prems(2-4)] by blast
    have "inflate_pfns dontneed addr (i + 1) n ?m (pages + 1) = (mem', pages', r)"
      using Suc.prems(1) Ok by simp
    from Suc.IH [OF this Suc.prems(2) 1(1,2)] 1(3) show ?thesis by (blast intro: cleared_trans)
  next
    case (Err e)
    then show ?thesis using Suc.prems by auto
  qed
qed auto

text \<open>A turn that goes on has consumed an entry and at most cleared the available index.\<close>

definition turn_decreases :: "(balloon_state \<Rightarrow> balloon_state + balloon_outcome) \<Rightarrow> virt_queue \<Rightarrow> bool" where
  "turn_decreases step q0 \<longleftrightarrow> (\<forall>mem q p n mem' q' p' n' bs.
     step (mem, q, p, n) = Inl (mem', q', p', n') \<longrightarrow> mem_wf mem \<longrightarrow> queue_geometry q = queue_geometry q0 \<longrightarrow>
     read_bytes mem (avail_ring_addr q0 + 2) 2 = Ok bs \<longrightarrow>
       mem_wf mem' \<and> queue_geometry q' = queue_geometry q0 \<and>
       last_avail_idx q \<noteq> le_word bs \<and> last_avail_idx q' = last_avail_idx q + 1 \<and>
       (\<exists>bs'. read_bytes mem' (avail_ring_addr q0 + 2) 2 = Ok bs' \<and> cleared bs bs'))"

lemma geometry_fields:
  assumes "queue_geometry q = queue_geometry q0"
  shows "avail_ring_addr q = avail_ring_addr q0" "used_ring_addr q = used_ring_addr q0" "q_size q = q_size q0"
  using arg_cong [OF assms, of avail_ring_addr] arg_cong [OF assms, of used_ring_addr]
    arg_cong [OF assms, of q_size]
  by (simp_all add: queue_geometry_def)

lemma turn_progress:
  assumes "next_avail_desc q mem = Some (q1, h, n)" "read_bytes mem (avail_ring_addr q0 + 2) 2 = Ok bs"
    "add_used q1 mem1 h 0 = (q', mem', Ok ())" "mem_wf mem1" "rings_apart q0"
    "queue_geometry q = queue_geometry q0"
    "read_bytes mem1 (avail_ring_addr q0 + 2) 2 = Ok bs1" "cleared bs bs1"
  shows "mem_wf mem' \<and> queue_geometry q' = queue_geometry q0 \<and>
    last_avail_idx q \<noteq> le_word bs \<and> last_avail_idx q' = last_avail_idx q + 1 \<and>
    (\<exists>bs'. read_bytes mem' (avail_ring_addr q0 + 2) 2 = Ok bs' \<and> cleared bs bs')"
proof -
  note g = geometry_fields [OF assms(6)]
  have "read_avail_idx BalloonMemory mem q = Ok (le_word bs)" using assms(2) g by (simp add: read_avail_idx_def)
  then have q1: "q1 = q\<lparr>last_avail_idx := last_avail_idx q + 1\<rparr>" "last_avail_idx q \<noteq> le_word bs"
    using next_avail_desc_Some [OF assms(1)] by auto
  have ap: "rings_apart q1" using assms(5) q1 g by (simp add: rings_apart_def)
  obtain u where u: "mem_wf mem'" "q' = q1\<lparr>last_used_idx := u\<rparr>"
      "read_bytes mem' (avail_ring_addr q1 + 2) 2 = read_bytes mem1 (avail_ring_addr q1 + 2) 2"
    using add_used_cell [OF assms(3,4)] ap unfolding rings_apart_def by blast
  then show ?thesis using q1 assms(6-8) g by simp
qed

lemma deflate_decreases: "rings_apart q0 \<Longrightarrow> turn_decreases deflate_step q0"
  unfolding turn_decreases_def
proof (intro allI impI)
  fix mem q p n mem' q' p' n' bs
  assume ap: "rings_apart q0" and st: "deflate_step (mem, q, p, n) = Inl (mem', q', p', n')" and wf: "mem_wf mem"
    and g: "queue_geometry q = queue_geometry q0" and a: "read_bytes mem (avail_ring_addr q0 + 2) 2 = Ok bs"
  from st obtain q1 h c where "next_avail_desc q mem = Some (q1, h, c)" "add_used q1 mem h 0 = (q', mem', Ok ())"
    by (auto simp: deflate_step_def Let_def split: option.splits result.splits prod.splits)
  from turn_progress [OF this(1) a this(2) wf ap g a cleared_refl]
  show "mem_wf mem' \<and> queue_geometry q' = queue_geometry q0 \<and>
    last_avail_idx q \<noteq> le_word bs \<and> last_avail_idx q' = last_avail_idx q + 1 \<and>
    (\<exists>bs'. read_bytes mem' (avail_ring_addr q0 + 2) 2 = Ok bs' \<and> cleared bs bs')" .
qed

lemma inflate_decreases:
  assumes "rings_apart q0" "only_clears dontneed"
  shows "turn_decreases (inflate_step dontneed) q0"
  unfolding turn_decreases_def
proof (intro allI impI)
  fix mem q p n mem' q' p' n' bs
  assume st: "inflate_step dontneed (mem, q, p, n) = Inl (mem', q', p', n')" and wf: "mem_wf mem"
    and g: "queue_geometry q = queue_geometry q0" and a: "read_bytes mem (avail_ring_addr q0 + 2) 2 = Ok bs"
  from st obtain q1 h c x y m1 k where s:
      "next_avail_desc q mem = Some (q1, h, c)"
      "inflate_pfns dontneed x 0 y mem n = (m1, k, Ok ())"
      "add_used q1 m1 h 0 = (q', mem', Ok ())"
    by (auto simp: inflate_step_def split: option.splits result.splits prod.splits)
  obtain bs1 where "mem_wf m1" "read_bytes m1 (avail_ring_addr q0 + 2) 2 = Ok bs1" "cleared bs bs1"
    using inflate_pfns_clears [OF s(2) assms(2) wf a] by blast
  from turn_progress [OF s(1) a s(3) this(1) assms(1) g this(2,3)]
  show "mem_wf mem' \<and> queue_geometry q' = queue_geometry q0 \<and>
    last_avail_idx q \<noteq> le_word bs \<and> last_avail_idx q' = last_avail_idx q + 1 \<and>
    (\<exists>bs'. read_bytes mem' (avail_ring_addr q0 + 2) 2 = Ok bs' \<and> cleared bs bs')" .
qed

lemma balloon_loop_returns:
  assumes "turn_decreases step q0" "mem_wf mem" "queue_geometry q = queue_geometry q0"
    "read_bytes mem (avail_ring_addr q0 + 2) 2 = Ok bs"
  shows "balloon_loop step (mem, q, p, n) \<noteq> None"
  using assms(2-)
proof (induction "(nonzero_bytes bs, pending_entries q (le_word bs))" arbitrary: mem q p n bs
    rule: wf_induct_rule [OF wf_lex_prod [OF wf_less_than wf_less_than]])
  case less: 1
  show ?case
  proof (cases "step (mem, q, p, n)")
    case (Inl st')
    obtain m1 q1 p1 n1 where st': "st' = (m1, q1, p1, n1)" by (cases st')
    with assms(1) less.prems Inl obtain bs' where s: "mem_wf m1" "queue_geometry q1 = queue_geometry q0"
        "last_avail_idx q \<noteq> le_word bs" "last_avail_idx q1 = last_avail_idx q + 1"
        "read_bytes m1 (avail_ring_addr q0 + 2) 2 = Ok bs'" "cleared bs bs'"
      unfolding turn_decreases_def by blast
    have "pending_entries q1 (le_word bs) < pending_entries q (le_word bs)"
      using pending_entries_advance [OF s(3)] s(4) by (simp add: pending_entries_def)
    then have "((nonzero_bytes bs', pending_entries q1 (le_word bs')),
        (nonzero_bytes bs, pending_entries q (le_word bs))) \<in> less_than <*lex*> less_than"
      using cleared_progress [OF s(6)] by auto
    from less.hyps [OF this s(1,2,5)] Inl st' show ?thesis by (simp add: balloon_loop.simps)
  next
    case (Inr out)
    then show ?thesis by (simp add: balloon_loop.simps)
  qed
qed

text \<open>
  C40. The balloon returns for a guest whose rings are set up apart. When the used ring does not
  overlap the available index, processing either queue returns, whatever the descriptors and
  page numbers are, even when the pages given up hold the rings themselves.
\<close>

theorem balloon_returns:
  assumes "mem_wf mem" "i < length (bl_queues dev)" "length (bl_queues dev) = 2"
    "rings_apart (bl_queues dev ! i)" "only_clears dontneed"
    "valid_range mem (avail_ring_addr (bl_queues dev ! i) + 2) 2"
  shows "balloon_process_queue dontneed i mem dev \<noteq> None"
proof -
  obtain bs where bs: "read_bytes mem (avail_ring_addr (bl_queues dev ! i) + 2) 2 = Ok bs"
    using ram.rd_valid [OF assms(6)] by blast
  have "i = 0 \<or> i = 1" using assms(2,3) by auto
  then show ?thesis
    using balloon_loop_returns [OF deflate_decreases [OF assms(4)] assms(1) refl bs, of False 0]
      balloon_loop_returns [OF inflate_decreases [OF assms(4,5)] assms(1) refl bs, of False 0]
    by (elim disjE) (simp_all add: balloon_process_queue_def process_inflate_def process_deflate_def Let_def
        del: not_None_eq)
qed

text \<open>Linux zero-fills a discarded anonymous page.\<close>

definition zero_page :: "nat \<Rightarrow> u8 list \<Rightarrow> u8 list" where
  "zero_page off bs = map (\<lambda>i. if off \<le> i \<and> i < off + 4096 then 0 else bs ! i) [0..<length bs]"

lemma zero_page_clears: "only_clears zero_page"
  by (auto simp: only_clears_def cleared_def zero_page_def list_all2_conv_all_nth)

definition demo_balloon :: "u64 \<Rightarrow> balloon_device" where
  "demo_balloon used = (balloon_new 0)\<lparr>bl_queues := [virt_queue_new 128,
     (virt_queue_new 128)\<lparr>q_size := 1, q_ready := True, used_ring_addr := used\<rparr>]\<rparr>"

definition demo_balloon_mem :: guest_memory where
  "demo_balloon_mem = \<lparr>gm_bytes = [0, 0, 1, 0] @ replicate 28 0, gm_size = 32, guest_base = 0, huge_pages = False\<rparr>"

lemma demo_balloon_wf: "mem_wf demo_balloon_mem"
  by (simp add: mem_wf_def demo_balloon_mem_def)

theorem balloon_returns_witness: "balloon_process_queue zero_page 1 demo_balloon_mem (demo_balloon 16) \<noteq> None"
  by (rule balloon_returns [OF demo_balloon_wf _ _ _ zero_page_clears])
     (simp_all add: demo_balloon_def rings_apart_def disjoint_ranges_def virt_queue_new_def valid_range_def
       demo_balloon_mem_def)

section \<open>A guest that makes the loop run forever\<close>

text \<open>
  The guest places the used ring on its available ring. Completing an entry then increments
  the index that the next turn reads as available.
\<close>

definition ring_on_ring :: "guest_memory \<Rightarrow> virt_queue \<Rightarrow> bool" where
  "ring_on_ring mem q \<longleftrightarrow> mem_wf mem \<and> q_size q = 1 \<and> used_ring_addr q = avail_ring_addr q \<and>
     valid_range mem (avail_ring_addr q) 12 \<and>
     (\<exists>c h. read_bytes mem (avail_ring_addr q + 2) 2 = Ok (le_bytes 2 (c :: u16)) \<and> c \<noteq> last_avail_idx q \<and>
        read_bytes mem (avail_ring_addr q + 4) 2 = Ok (le_bytes 2 (h :: u16)) \<and>
        valid_range mem (desc_table_addr q + ucast h * 16) 12)"

lemma read_bytes_prefix:
  assumes "read_bytes m a n = Ok bs" "k \<le> n"
  shows "read_bytes m a k = Ok (take k bs)"
proof -
  have "valid_range m a n" "valid_range m a 0" using assms(1) by (auto simp: read_bytes_eq split: if_splits)
  then show ?thesis using assms valid_range_mono [of m a n k]
    by (auto simp: read_bytes_eq slice_def min_def)
qed

lemma take_le_bytes_head: "take 2 (le_bytes 4 (ucast (h :: u16) :: u32) @ xs) = le_bytes 2 h"
  by (rule nth_equalityI) (auto simp: nth_le_bytes nth_append less_2_cases_iff intro!: bit_word_eqI simp: bit_simps)

lemma ring_on_ring_step:
  assumes "ring_on_ring mem q"
  shows "\<exists>mem' q' n'. deflate_step (mem, q, p, n) = Inl (mem', q', True, n') \<and> ring_on_ring mem' q'"
proof -
  let ?a = "avail_ring_addr q"
  from assms obtain c h where i: "mem_wf mem" "q_size q = 1" "used_ring_addr q = ?a" "valid_range mem ?a 12"
      "read_bytes mem (?a + 2) 2 = Ok (le_bytes 2 (c :: u16))" "c \<noteq> last_avail_idx q"
      "read_bytes mem (?a + 4) 2 = Ok (le_bytes 2 (h :: u16))" "valid_range mem (desc_table_addr q + ucast h * 16) 12"
    by (auto simp: ring_on_ring_def)
  have "unat ?a + 12 \<le> 2 ^ 64" using i(1,4) by (auto simp: mem_wf_def valid_range_def)
  then have u: "unat (?a + 2) = unat ?a + 2" "unat (?a + 4) = unat ?a + 4"
    using unat_plus_small [of ?a 2] unat_plus_small [of ?a 4] by simp_all
  obtain bs where "read_bytes mem (desc_table_addr q + ucast h * 16) 12 = Ok bs" using ram.rd_valid [OF i(8)] ..
  then obtain d where d: "balloon_read_desc mem (desc_table_addr q) h = Ok d" by (simp add: balloon_read_desc_def)
  let ?q1 = "q\<lparr>last_avail_idx := last_avail_idx q + 1\<rparr>"
  have nd: "next_avail_desc q mem = Some (?q1, h, unat (di_len d) div 4)"
    using i d by (simp add: next_avail_desc_def read_avail_idx_def read_avail_entry_def)
  let ?e = "le_bytes 4 (ucast h :: u32) @ le_bytes 4 (0 :: u32)"
  have "valid_range mem (?a + 4) (length ?e)" by (rule valid_range_sub [OF i(1,4)]) simp_all
  then obtain m1 where m1: "write_bytes mem (?a + 4) ?e = Ok m1" using ram.wr_valid_ok by blast
  have wf1: "mem_wf m1" using i(1) m1 by (rule mem_wf_write)
  have v1: "valid_range m1 ?a 12" using ram.wr_valid [OF m1] i(4) by simp
  have "valid_range m1 (?a + 2) (length (le_bytes 2 (c + 1)))" by (rule valid_range_sub [OF wf1 v1]) simp_all
  then obtain m2 where m2: "write_bytes m1 (?a + 2) (le_bytes 2 (c + 1)) = Ok m2" using ram.wr_valid_ok by blast
  have wf2: "mem_wf m2" using wf1 m2 by (rule mem_wf_write)
  have au: "add_used ?q1 mem h 0 = (?q1\<lparr>last_used_idx := c + 1\<rparr>, m2, Ok ())"
    using i m1 m2 by (simp add: add_used_def)
  have "read_bytes m1 (?a + 4) 2 = Ok (le_bytes 2 h)"
    using read_bytes_prefix [OF ram.rd_wr_same [OF i(1) m1], of 2] take_le_bytes_head [of h "[]"] by simp
  then have e2: "read_bytes m2 (?a + 4) 2 = Ok (le_bytes 2 h)"
    using ram.rd_wr_other [OF wf1 m2, of "?a + 4" 2] u by (simp add: disjoint_ranges_def)
  have c2: "read_bytes m2 (?a + 2) 2 = Ok (le_bytes 2 (c + 1))"
    using ram.rd_wr_same [OF wf1 m2] by simp
  have v2: "valid_range m2 x k = valid_range mem x k" for x k
    using ram.wr_valid [OF m1] ram.wr_valid [OF m2] by simp
  have "ring_on_ring m2 (?q1\<lparr>last_used_idx := c + 1\<rparr>)"
    using wf2 i e2 c2 v2 by (auto simp: ring_on_ring_def)
  then show ?thesis using nd d au by (auto simp: deflate_step_def Let_def)
qed

lemma balloon_loop_diverges:
  assumes "ring_on_ring mem q"
  shows "balloon_loop deflate_step (mem, q, p, n) = None"
proof (rule ccontr)
  assume "balloon_loop deflate_step (mem, q, p, n) \<noteq> None"
  then obtain out where "balloon_loop deflate_step (mem, q, p, n) = Some out" by blast
  then have "deflate_step = deflate_step \<longrightarrow> \<not> ring_on_ring (fst (mem, q, p, n)) (fst (snd (mem, q, p, n)))"
  proof (rule balloon_loop.raw_induct
      [where P = "\<lambda>step st out. step = deflate_step \<longrightarrow> \<not> ring_on_ring (fst st) (fst (snd st))", rotated])
    fix loop step st out
    assume ih: "\<And>step st out. loop step st = Some out \<Longrightarrow>
        step = deflate_step \<longrightarrow> \<not> ring_on_ring (fst st) (fst (snd st))"
      and run: "(case step st of Inl st' \<Rightarrow> loop step st' | Inr out \<Rightarrow> Some out) = Some out"
    show "step = deflate_step \<longrightarrow> \<not> ring_on_ring (fst st) (fst (snd st))"
    proof (intro impI notI)
      assume step: "step = deflate_step" and r: "ring_on_ring (fst st) (fst (snd st))"
      obtain mem' q' n' where "deflate_step st = Inl (mem', q', True, n')" "ring_on_ring mem' q'"
        using ring_on_ring_step [OF r] by (metis prod.collapse)
      then show False using ih [of step "(mem', q', True, n')" out] run step by simp
    qed
  qed
  then show False using assms by simp
qed

text \<open>
  A guest can hang the balloon. It programs the deflate queue with its used ring on top of
  its available ring and makes one entry available: each completion increments the index that
  the loop reads next as the available one, so processing the queue never returns.
\<close>

lemma balloon_overlapping_rings_diverge:
  assumes "q_ready (bl_queues dev ! 1)" "ring_on_ring mem (bl_queues dev ! 1)"
  shows "balloon_process_queue dontneed 1 mem dev = None"
proof -
  have "balloon_loop deflate_step (mem, bl_queues dev ! 1, False, 0) = None"
    by (rule balloon_loop_diverges [OF assms(2)])
  then show ?thesis
    using assms by (simp add: balloon_process_queue_def process_deflate_def Let_def ring_on_ring_def)
qed

end
