(* ===== verification/Pci.thy ===== *)
theory Pci
  imports Virtio_Device Io_Bus Vsock_Packet
begin

text \<open>
  PCI functions and the PCI bus, \<^verbatim>\<open>src/crates/visor-vmm/src/transport/pci.rs\<close> and
  \<^verbatim>\<open>pci_bus.rs\<close>: the type 0 configuration space with BAR sizing, the MSI-X table
  behind BAR 4, and the configuration mechanism at ports 0xCF8 and 0xCFC.
\<close>

section \<open>The function\<close>

abbreviation (input) VIRTIO_PCI_VENDOR_ID :: u16 where "VIRTIO_PCI_VENDOR_ID \<equiv> 0x1AF4"
abbreviation (input) VIRTIO_PCI_DEVICE_ID_BASE :: u16 where "VIRTIO_PCI_DEVICE_ID_BASE \<equiv> 0x1040"
abbreviation (input) MSIX_CAP_OFFSET :: nat where "MSIX_CAP_OFFSET \<equiv> 0x40"
abbreviation (input) NUM_BARS :: nat where "NUM_BARS \<equiv> 6"

datatype pci_error = InvalidBar nat | BarOffsetOutOfBounds nat u64 u32

record msix_table_entry =
  msg_addr_lo :: u32
  msg_addr_hi :: u32
  msg_data :: u32
  vector_ctrl :: u32

record bar_region =
  bar_size :: u32
  bar_is_io :: bool

record 'd pci_device =
  pci_config :: "u8 list"
  pci_bars :: "bar_region list"
  msix_table :: "msix_table_entry list"
  msix_pba :: "u64 list"
  msix_enabled :: bool
  pci_inner :: "'d mutex"
  pci_memory :: "guest_memory option"
  pci_irq_evt :: bool

definition msix_entry_to_bytes :: "msix_table_entry \<Rightarrow> u8 list" where
  "msix_entry_to_bytes e = le_bytes 4 (msg_addr_lo e) @ le_bytes 4 (msg_addr_hi e) @
     le_bytes 4 (msg_data e) @ le_bytes 4 (vector_ctrl e)"

definition msix_entry_from_bytes :: "u8 list \<Rightarrow> msix_table_entry" where
  "msix_entry_from_bytes bs = \<lparr>msg_addr_lo = le_word (slice 0 4 bs), msg_addr_hi = le_word (slice 4 4 bs),
     msg_data = le_word (slice 8 4 bs), vector_ctrl = le_word (slice 12 4 bs)\<rparr>"

text \<open>\<open>u32::next_power_of_two\<close>, on sizes far below the overflow.\<close>

function pow2_from :: "nat \<Rightarrow> nat \<Rightarrow> nat" where
  "pow2_from p n = (if p = 0 \<or> n \<le> p then p else pow2_from (2 * p) n)"
  by pat_completeness auto
termination by (relation "measure (\<lambda>(p, n). n - p)") auto

declare pow2_from.simps [simp del]

definition next_power_of_two :: "u32 \<Rightarrow> u32" where
  "next_power_of_two x = of_nat (pow2_from 1 (unat x))"

definition pba_offset_of :: "u16 \<Rightarrow> u32" where
  "pba_offset_of num_vectors = (ucast num_vectors * 16 + 0xF) AND NOT 0xF"

definition bar4_size_of :: "u16 \<Rightarrow> u32" where
  "bar4_size_of num_vectors =
     max (next_power_of_two (pba_offset_of num_vectors + (ucast num_vectors + 63) div 64 * 8)) 4096"

definition pci_initial_config :: "device_type \<Rightarrow> u16 \<Rightarrow> u8 list" where
  "pci_initial_config ty num_vectors =
     (let device_id = VIRTIO_PCI_DEVICE_ID_BASE + ucast (device_type_id ty);
          table_size = (if num_vectors = 0 then 0 else num_vectors - 1);
          c0 = replicate 256 0;
          c1 = splice_at 0x00 (le_bytes 2 VIRTIO_PCI_VENDOR_ID) c0;
          c2 = splice_at 0x02 (le_bytes 2 device_id) c1;
          c3 = c2[0x06 := 0x10, 0x0E := 0];
          c4 = splice_at 0x2C (le_bytes 2 VIRTIO_PCI_VENDOR_ID) c3;
          c5 = c4[0x34 := of_nat MSIX_CAP_OFFSET, MSIX_CAP_OFFSET := 0x11, MSIX_CAP_OFFSET + 1 := 0,
                  MSIX_CAP_OFFSET + 2 := ucast (table_size AND 0xFF),
                  MSIX_CAP_OFFSET + 3 := ucast (drop_bit 8 table_size AND 0x07),
                  MSIX_CAP_OFFSET + 4 := 0x04]
      in splice_at (MSIX_CAP_OFFSET + 8) (le_bytes 4 (pba_offset_of num_vectors OR 0x04)) c5)"

text \<open>Only BAR 4 is implemented and it is a memory BAR, so no type bit is set.\<close>

definition pci_bars_new :: "u16 \<Rightarrow> bar_region list" where
  "pci_bars_new num_vectors =
     (replicate NUM_BARS \<lparr>bar_size = 0, bar_is_io = False\<rparr>)[4 := \<lparr>bar_size = bar4_size_of num_vectors, bar_is_io = False\<rparr>]"

definition pci_device_new :: "'d virtio_ops \<Rightarrow> 'd mutex \<Rightarrow> u16 \<Rightarrow> 'd pci_device" where
  "pci_device_new ops dev num_vectors =
     (let ty = (case lock dev of None \<Rightarrow> Block | Some d \<Rightarrow> vd_device_type ops d);
          bars = pci_bars_new num_vectors;
          config = map (\<lambda>a. if \<exists>i \<in> {0..<NUM_BARS}. a = 0x10 + i * 4 \<and> bar_size (bars ! i) > 0 \<and> bar_is_io (bars ! i)
                            then 1 else pci_initial_config ty num_vectors ! a) [0..<256]
      in \<lparr>pci_config = config, pci_bars = bars,
          msix_table = replicate (unat num_vectors) \<lparr>msg_addr_lo = 0, msg_addr_hi = 0, msg_data = 0, vector_ctrl = 1\<rparr>,
          msix_pba = replicate ((unat num_vectors + 63) div 64) 0, msix_enabled = False,
          pci_inner = dev, pci_memory = None, pci_irq_evt = False\<rparr>)"

section \<open>Configuration space\<close>

definition pci_read_config :: "u8 \<Rightarrow> nat \<Rightarrow> 'd pci_device \<Rightarrow> u8 list" where
  "pci_read_config offset len d =
     map (\<lambda>i. let addr = unat offset + i in if addr < length (pci_config d) then pci_config d ! addr else 0xFF)
       [0..<len]"

definition write_config_byte :: "nat \<Rightarrow> u8 \<Rightarrow> 'd pci_device \<Rightarrow> 'd pci_device" where
  "write_config_byte addr byte d =
     (if 0x10 \<le> addr \<and> addr \<le> 0x27 then d
      else if addr = 0x04 \<or> addr = 0x05 \<or> addr = 0x3C then d\<lparr>pci_config := (pci_config d)[addr := byte]\<rparr>
      else if addr = MSIX_CAP_OFFSET + 3
      then let v = (byte AND 0xC0) OR (pci_config d ! addr AND 0x3F)
           in d\<lparr>pci_config := (pci_config d)[addr := v], msix_enabled := (v AND 0x80 \<noteq> 0)\<rparr>
      else d)"

fun write_config_bytes :: "nat \<Rightarrow> u8 list \<Rightarrow> 'd pci_device \<Rightarrow> 'd pci_device" where
  "write_config_bytes addr [] d = d"
| "write_config_bytes addr (b # bs) d = write_config_bytes (addr + 1) bs (write_config_byte addr b d)"

definition write_bar_register :: "nat \<Rightarrow> u32 \<Rightarrow> 'd pci_device \<Rightarrow> 'd pci_device" where
  "write_bar_register bar_idx v d =
     (let bar = pci_bars d ! bar_idx
      in if bar_size bar = 0 then d
         else let bar_offset = 0x10 + bar_idx * 4;
                  type_bits = (if bar_is_io bar then 1 else 0);
                  addr_mask = (if bar_is_io bar then NOT 0x03 else NOT 0x0F);
                  size_mask = NOT (bar_size bar - 1);
                  new_value = (v AND size_mask AND addr_mask) OR type_bits
              in d\<lparr>pci_config := splice_at bar_offset (le_bytes 4 new_value) (pci_config d)\<rparr>)"

definition pci_write_config :: "u8 \<Rightarrow> u8 list \<Rightarrow> 'd pci_device \<Rightarrow> 'd pci_device" where
  "pci_write_config offset data d =
     (let start = unat offset;
          d1 = write_config_bytes start data d
      in if 0x10 \<le> start \<and> start \<le> 0x24 \<and> (start - 0x10) mod 4 = 0 \<and> length data = 4
         then let bar_idx = (start - 0x10) div 4
              in if bar_idx < NUM_BARS then write_bar_register bar_idx (le_word data) d1 else d1
         else d1)"

section \<open>The BAR regions\<close>

definition read_msix_region :: "u64 \<Rightarrow> u8 list \<Rightarrow> 'd pci_device \<Rightarrow> u8 list" where
  "read_msix_region offset data d =
     (let off = unat offset
      in if off < length (msix_table d) * 16
         then let entry_bytes = msix_entry_to_bytes (msix_table d ! (off div 16)); entry_off = off mod 16
              in map (\<lambda>i. if entry_off + i < 16 then entry_bytes ! (entry_off + i) else data ! i) [0..<length data]
         else data)"

definition write_msix_region :: "u64 \<Rightarrow> u8 list \<Rightarrow> 'd pci_device \<Rightarrow> 'd pci_device" where
  "write_msix_region offset data d =
     (let off = unat offset
      in if off < length (msix_table d) * 16
         then let entry_bytes = msix_entry_to_bytes (msix_table d ! (off div 16)); entry_off = off mod 16;
                  new_bytes = map (\<lambda>p. if entry_off \<le> p \<and> p - entry_off < length data then data ! (p - entry_off)
                                       else entry_bytes ! p) [0..<16]
              in d\<lparr>msix_table := (msix_table d)[off div 16 := msix_entry_from_bytes new_bytes]\<rparr>
         else d)"

definition read_bar :: "nat \<Rightarrow> u64 \<Rightarrow> u8 list \<Rightarrow> 'd pci_device \<Rightarrow> (u8 list, pci_error) result" where
  "read_bar bar_idx offset data d =
     (if bar_idx \<ge> NUM_BARS then Err (InvalidBar bar_idx)
      else let bar = pci_bars d ! bar_idx
           in if bar_size bar = 0 \<or> offset \<ge> ucast (bar_size bar)
              then Err (BarOffsetOutOfBounds bar_idx offset (bar_size bar))
              else if bar_idx = 4 then Ok (read_msix_region offset data d)
              else Ok (replicate (length data) 0))"

definition write_bar :: "nat \<Rightarrow> u64 \<Rightarrow> u8 list \<Rightarrow> 'd pci_device \<Rightarrow> 'd pci_device \<times> (unit, pci_error) result" where
  "write_bar bar_idx offset data d =
     (if bar_idx \<ge> NUM_BARS then (d, Err (InvalidBar bar_idx))
      else let bar = pci_bars d ! bar_idx
           in if bar_size bar = 0 \<or> offset \<ge> ucast (bar_size bar)
              then (d, Err (BarOffsetOutOfBounds bar_idx offset (bar_size bar)))
              else (if bar_idx = 4 then write_msix_region offset data d else d, Ok ()))"

definition pci_set_memory :: "guest_memory \<Rightarrow> 'd pci_device \<Rightarrow> 'd pci_device" where
  "pci_set_memory m d = d\<lparr>pci_memory := Some m\<rparr>"

definition pci_set_irq_evt :: "'d pci_device \<Rightarrow> 'd pci_device" where
  "pci_set_irq_evt d = d\<lparr>pci_irq_evt := True\<rparr>"

section \<open>The bus\<close>

datatype pci_bus_error = InvalidSlot nat | SlotOccupied nat

record 'd pci_bus =
  pci_slots :: "'d pci_device mutex option list"
  config_address :: u32

definition pci_bus_new :: "'d pci_bus" where
  "pci_bus_new = \<lparr>pci_slots = replicate 32 None, config_address = 0\<rparr>"

definition pci_add_device ::
  "nat \<Rightarrow> 'd pci_device mutex \<Rightarrow> 'd pci_bus \<Rightarrow> 'd pci_bus \<times> (unit, pci_bus_error) result" where
  "pci_add_device slot dev b =
     (if slot \<ge> 32 then (b, Err (InvalidSlot slot))
      else if pci_slots b ! slot \<noteq> None then (b, Err (SlotOccupied slot))
      else (b\<lparr>pci_slots := (pci_slots b)[slot := Some dev]\<rparr>, Ok ()))"

definition pci_device_at :: "nat \<Rightarrow> 'd pci_bus \<Rightarrow> 'd pci_device mutex option" where
  "pci_device_at slot b = (if slot < length (pci_slots b) then pci_slots b ! slot else None)"

definition device_number :: "'d pci_bus \<Rightarrow> nat" where
  "device_number b = unat (drop_bit 11 (config_address b) AND 0x1F)"

definition register_offset :: "'d pci_bus \<Rightarrow> u8" where
  "register_offset b = ucast (config_address b AND 0xFC)"

definition pci_is_enabled :: "'d pci_bus \<Rightarrow> bool" where
  "pci_is_enabled b \<longleftrightarrow> config_address b AND 0x80000000 \<noteq> 0"

definition pci_bus_read :: "u64 \<Rightarrow> u8 list \<Rightarrow> 'd pci_bus \<Rightarrow> 'd pci_bus \<times> u8 list" where
  "pci_bus_read offset data b =
     (b, if offset = 0 \<and> length data = 4 then le_bytes 4 (config_address b)
         else if offset = 4 \<and> length data = 4
         then if \<not> pci_is_enabled b then le_bytes 4 (0xFFFFFFFF :: u32)
              else (case pci_device_at (device_number b) b of
                      Some dev \<Rightarrow>
                        (case lock dev of
                           Some d \<Rightarrow> pci_read_config (register_offset b) 4 d
                         | None \<Rightarrow> le_bytes 4 (0xFFFFFFFF :: u32))
                    | None \<Rightarrow> le_bytes 4 (0xFFFFFFFF :: u32))
         else replicate (length data) 0xFF)"

definition pci_bus_write :: "u64 \<Rightarrow> u8 list \<Rightarrow> 'd pci_bus \<Rightarrow> 'd pci_bus" where
  "pci_bus_write offset data b =
     (if offset = 0 \<and> length data = 4 then b\<lparr>config_address := le_word data\<rparr>
      else if offset = 4 \<and> length data = 4
      then if \<not> pci_is_enabled b then b
           else (case pci_device_at (device_number b) b of
                   Some (Healthy d) \<Rightarrow>
                     b\<lparr>pci_slots := (pci_slots b)[device_number b :=
                        Some (Healthy (pci_write_config (register_offset b) data d))]\<rparr>
                 | _ \<Rightarrow> b)
      else b)"

section \<open>The size of BAR 4\<close>

lemma pow2_from_spec:
  assumes "p = 2 ^ k"
  shows "\<exists>j. pow2_from p n = 2 ^ j \<and> k \<le> j \<and> n \<le> 2 ^ j \<and> (2 ^ j = p \<or> 2 ^ j < 2 * n)"
  using assms
proof (induction p n arbitrary: k rule: pow2_from.induct)
  case (1 p n)
  show ?case
  proof (cases "n \<le> p")
    case True
    then show ?thesis using 1(2) by (subst pow2_from.simps) auto
  next
    case False
    then have ne: "\<not> (p = 0 \<or> n \<le> p)" using 1(2) by auto
    obtain j where j: "pow2_from (2 * p) n = 2 ^ j" "Suc k \<le> j" "n \<le> 2 ^ j" "2 ^ j = 2 * p \<or> 2 ^ j < 2 * n"
      using 1(1) [OF ne, of "Suc k"] 1(2) by auto
    then show ?thesis using False ne by (subst pow2_from.simps) auto
  qed
qed

lemma bar4_size_power:
  "\<exists>k. bar4_size_of n = 2 ^ k \<and> 12 \<le> k \<and> k < 22"
proof -
  have n: "unat (ucast n :: u32) < 2 ^ 16"
  proof -
    have "unat (ucast n :: u32) = unat n" by (rule unat_ucast_up) simp
    moreover have "unat n < 2 ^ LENGTH(16)" by (rule unsigned_less)
    ultimately show ?thesis by simp
  qed
  let ?x = "pba_offset_of n + (ucast n + 63) div 64 * 8"
  have a: "unat (ucast n * 16 + 0xF :: u32) \<le> 16 * 2 ^ 16" using n by (simp add: unat_word_ariths)
  have "pba_offset_of n \<le> ucast n * 16 + 0xF" unfolding pba_offset_of_def by (rule word_and_le2)
  then have b: "unat (pba_offset_of n) \<le> 16 * 2 ^ 16" using a by (simp add: word_le_nat_alt)
  have c: "unat ((ucast n + 63) div 64 * 8 :: u32) \<le> 2 ^ 14"
    using n by (simp add: unat_word_ariths unat_div)
  have x: "unat ?x \<le> 2 ^ 20 + 2 ^ 14" using b c by (simp add: unat_word_ariths)
  obtain j where j: "pow2_from 1 (unat ?x) = 2 ^ j" "2 ^ j = (1 :: nat) \<or> 2 ^ j < 2 * unat ?x"
    using pow2_from_spec [of 1 0 "unat ?x"] by auto
  have "(2 :: nat) ^ j < 2 ^ 22" using j(2) x by auto
  then have j22: "j < 22" by (rule power_less_imp_less_exp [rotated]) simp
  then have np: "next_power_of_two ?x = 2 ^ j" using j(1) by (simp add: next_power_of_two_def)
  have "max (2 ^ j) (4096 :: u32) = 2 ^ max j 12"
  proof (cases "j \<le> 12")
    case True
    then have "unat (2 ^ j :: u32) \<le> unat (2 ^ 12 :: u32)"
      using unat_pow2 [of j] unat_pow2 [of 12] power_increasing [of j 12 "2 :: nat"] by simp
    then have "(2 ^ j :: u32) \<le> 4096" by (simp add: word_le_nat_alt)
    then show ?thesis using True by (simp add: max_def)
  next
    case False
    then have "unat (4096 :: u32) \<le> unat (2 ^ j :: u32)"
      using j22 power_increasing [of 12 j "2 :: nat"] unat_pow2 [of j] by simp
    then have "(4096 :: u32) \<le> 2 ^ j" by (simp add: word_le_nat_alt)
    then show ?thesis using False by (auto simp: max_def)
  qed
  then show ?thesis using np j22 unfolding bar4_size_of_def by (intro exI [of _ "max j 12"]) auto
qed

text \<open>What a write leaves in the register of BAR 4: the address above the size.\<close>

lemma bar_value:
  assumes "bar4_size_of n = 2 ^ k" "12 \<le> k" "k < 22"
  shows "v AND NOT (bar4_size_of n - 1) AND NOT 0x0F = v AND NOT (bar4_size_of n - 1)"
proof -
  have e: "(NOT 0x0F :: u32) = NOT (mask 4)" by (simp add: mask_eq_exp_minus_1)
  show ?thesis unfolding e assms(1) mask_eq_exp_minus_1 [symmetric]
    by (rule bit_word_eqI) (use assms(2,3) in \<open>auto simp: bit_simps\<close>)
qed

section \<open>Invariant of a function\<close>

definition pci_wf :: "u16 \<Rightarrow> 'd pci_device \<Rightarrow> bool" where
  "pci_wf n d \<longleftrightarrow> length (pci_config d) = 256 \<and> pci_bars d = pci_bars_new n \<and>
     length (msix_table d) = unat n \<and> (msix_enabled d \<longleftrightarrow> pci_config d ! 0x43 AND 0x80 \<noteq> 0) \<and>
     (le_word (slice 0x20 4 (pci_config d)) :: u32) AND (bar4_size_of n - 1) = 0"

text \<open>The bytes a driver can change at all.\<close>

definition pci_writable :: "nat set" where
  "pci_writable = {0x04, 0x05, 0x3C, 0x43} \<union> {0x20..0x23}"

lemma pci_bars_new_nth [simp]:
  "i < 6 \<Longrightarrow> pci_bars_new n ! i = (if i = 4 then \<lparr>bar_size = bar4_size_of n, bar_is_io = False\<rparr>
     else \<lparr>bar_size = 0, bar_is_io = False\<rparr>)"
  by (auto simp: pci_bars_new_def nth_list_update)

lemma bar4_size_nonzero: "bar4_size_of n \<noteq> 0"
proof -
  obtain k where k: "bar4_size_of n = 2 ^ k" "k < 22" using bar4_size_power by blast
  then have "unat (bar4_size_of n) \<noteq> 0" using unat_pow2 [of k] by simp
  then show ?thesis by auto
qed

lemma write_bar_register_eq:
  assumes "pci_bars d = pci_bars_new n" "i < 6"
  shows "write_bar_register i v d =
    (if i = 4 then d\<lparr>pci_config := splice_at 0x20 (le_bytes 4 (v AND NOT (bar4_size_of n - 1))) (pci_config d)\<rparr> else d)"
proof -
  obtain k where k: "bar4_size_of n = 2 ^ k" "12 \<le> k" "k < 22" using bar4_size_power by blast
  show ?thesis
    using assms bar4_size_nonzero [of n] bar_value [OF k, of v] by (simp add: write_bar_register_def Let_def)
qed

lemma slice_update_other:
  "a < i \<or> i + n \<le> a \<Longrightarrow> slice i n (xs[a := x]) = slice i n xs"
  by (auto simp: slice_def drop_update_swap take_update_cancel)

lemma write_config_byte_wf:
  assumes "pci_wf n d"
  shows "pci_wf n (write_config_byte a b d) \<and> pci_inner (write_config_byte a b d) = pci_inner d \<and>
    (\<forall>x. x \<notin> pci_writable \<longrightarrow> pci_config (write_config_byte a b d) ! x = pci_config d ! x) \<and>
    pci_config (write_config_byte a b d) ! 0x43 AND 0x3F = pci_config d ! 0x43 AND 0x3F"
proof -
  have m: "((x AND 0xC0) OR (y AND 0x3F)) AND 0x3F = y AND (0x3F :: u8)" for x y :: u8
    by (simp add: bit.conj_disj_distrib2 and.assoc)
  show ?thesis using assms
    by (auto simp: write_config_byte_def pci_wf_def Let_def pci_writable_def nth_list_update slice_update_other m)
qed

lemma write_config_bytes_wf:
  assumes "pci_wf n d"
  shows "pci_wf n (write_config_bytes a bs d) \<and> pci_inner (write_config_bytes a bs d) = pci_inner d \<and>
    (\<forall>x. x \<notin> pci_writable \<longrightarrow> pci_config (write_config_bytes a bs d) ! x = pci_config d ! x) \<and>
    pci_config (write_config_bytes a bs d) ! 0x43 AND 0x3F = pci_config d ! 0x43 AND 0x3F"
  using assms
proof (induction bs arbitrary: a d)
  case (Cons b bs)
  then show ?case using write_config_byte_wf [OF Cons.prems, of a b] by simp
qed simp

lemma nth_splice_after:
  "i + length ys \<le> length xs \<Longrightarrow> i + length ys \<le> x \<Longrightarrow> splice_at i ys xs ! x = xs ! x"
  by (cases "i = length xs") (auto simp: splice_at_def nth_append min_def)

lemma write_bar_register_wf:
  assumes "pci_wf n d" "i < 6"
  shows "pci_wf n (write_bar_register i v d) \<and> pci_inner (write_bar_register i v d) = pci_inner d \<and>
    (\<forall>x. x \<notin> pci_writable \<longrightarrow> pci_config (write_bar_register i v d) ! x = pci_config d ! x) \<and>
    pci_config (write_bar_register i v d) ! 0x43 AND 0x3F = pci_config d ! 0x43 AND 0x3F"
proof -
  have b: "pci_bars d = pci_bars_new n" and l: "length (pci_config d) = 256" using assms(1) by (simp_all add: pci_wf_def)
  have "(v AND NOT (bar4_size_of n - 1)) AND (bar4_size_of n - 1) = 0" by (simp add: and.assoc)
  then show ?thesis using assms
    by (auto simp: write_bar_register_eq [OF b assms(2)] pci_wf_def nth_splice_at pci_writable_def
        slice_splice_other nth_splice_after)
qed

datatype pci_op = ConfigWrite u8 "u8 list" | BarWrite nat u64 "u8 list"

primrec pci_exec :: "pci_op \<Rightarrow> 'd pci_device \<Rightarrow> 'd pci_device" where
  "pci_exec (ConfigWrite off bs) d = pci_write_config off bs d"
| "pci_exec (BarWrite i off bs) d = fst (write_bar i off bs d)"

lemma pci_exec_wf:
  assumes "pci_wf n d"
  shows "pci_wf n (pci_exec x d) \<and> pci_inner (pci_exec x d) = pci_inner d \<and>
    (\<forall>a. a \<notin> pci_writable \<longrightarrow> pci_config (pci_exec x d) ! a = pci_config d ! a) \<and>
    pci_config (pci_exec x d) ! 0x43 AND 0x3F = pci_config d ! 0x43 AND 0x3F"
proof (cases x)
  case (ConfigWrite off bs)
  note w = write_config_bytes_wf [OF assms, of "unat off" bs]
  show ?thesis
    using w write_bar_register_wf [of n "write_config_bytes (unat off) bs d" "(unat off - 0x10) div 4" "le_word bs"]
    by (auto simp: ConfigWrite pci_write_config_def Let_def)
next
  case (BarWrite i off bs)
  then show ?thesis using assms by (auto simp: write_bar_def write_msix_region_def Let_def pci_wf_def)
qed

lemma pci_run_wf:
  assumes "pci_wf n d"
  shows "pci_wf n (fold pci_exec xs d) \<and> pci_inner (fold pci_exec xs d) = pci_inner d \<and>
    (\<forall>a. a \<notin> pci_writable \<longrightarrow> pci_config (fold pci_exec xs d) ! a = pci_config d ! a) \<and>
    pci_config (fold pci_exec xs d) ! 0x43 AND 0x3F = pci_config d ! 0x43 AND 0x3F"
  using assms
proof (induction xs arbitrary: d)
  case (Cons x xs)
  then show ?case using pci_exec_wf [OF Cons.prems, of x] by simp
qed simp

lemma pci_new_config_nth:
  "a < 256 \<Longrightarrow> pci_config (pci_device_new ops dev n) ! a =
     pci_initial_config (case lock dev of None \<Rightarrow> Block | Some d \<Rightarrow> vd_device_type ops d) n ! a"
  by (auto simp: pci_device_new_def Let_def)

lemma length_pci_initial_config [simp]: "length (pci_initial_config ty n) = 256"
  by (simp add: pci_initial_config_def Let_def)

lemma pci_initial_bytes:
  "pci_initial_config ty n ! 0x43 AND 0x80 = 0" "slice 0x20 4 (pci_initial_config ty n) = replicate 4 0"
  "slice 0x00 2 (pci_initial_config ty n) = le_bytes 2 VIRTIO_PCI_VENDOR_ID"
  "slice 0x02 2 (pci_initial_config ty n) = le_bytes 2 (VIRTIO_PCI_DEVICE_ID_BASE + ucast (device_type_id ty))"
proof -
  have "ucast (drop_bit 8 x AND 7 :: u16) AND (0x80 :: u8) = 0" for x :: u16
  proof -
    have "n < 8 \<Longrightarrow> n \<in> {0, 1, 2, 3, 4, 5, 6, 7}" for n :: nat by auto
    then show ?thesis by (intro bit_word_eqI) (fastforce simp: bit_simps)
  qed
  then show "pci_initial_config ty n ! 0x43 AND 0x80 = 0"
    by (simp add: pci_initial_config_def Let_def nth_splice_at nth_list_update)
  show "slice 0x20 4 (pci_initial_config ty n) = replicate 4 0"
    by (simp add: pci_initial_config_def Let_def slice_splice_other slice_update_other)
       (simp add: slice_def)
  show "slice 0x00 2 (pci_initial_config ty n) = le_bytes 2 VIRTIO_PCI_VENDOR_ID"
    by (simp add: pci_initial_config_def Let_def slice_splice_other slice_update_other)
  show "slice 0x02 2 (pci_initial_config ty n) = le_bytes 2 (VIRTIO_PCI_DEVICE_ID_BASE + ucast (device_type_id ty))"
    by (simp add: pci_initial_config_def Let_def slice_splice_other slice_update_other)
qed

lemma nth_slice_eqI:
  assumes "length xs = 256" "length ys = 256" "i + n \<le> 256" "\<And>a. i \<le> a \<Longrightarrow> a < i + n \<Longrightarrow> xs ! a = ys ! a"
  shows "slice i n xs = slice i n ys"
  by (rule nth_equalityI) (use assms in \<open>auto simp: nth_slice\<close>)

lemma pci_new_slice:
  "i + k \<le> 256 \<Longrightarrow> slice i k (pci_config (pci_device_new ops dev n)) =
     slice i k (pci_initial_config (case lock dev of None \<Rightarrow> Block | Some d \<Rightarrow> vd_device_type ops d) n)"
proof (rule nth_slice_eqI)
  show "length (pci_config (pci_device_new ops dev n)) = 256" by (simp add: pci_device_new_def Let_def)
qed (simp_all add: pci_new_config_nth)

lemma pci_initial_bar: "i < 6 \<Longrightarrow> slice (0x10 + 4 * i) 4 (pci_initial_config ty n) = replicate 4 0"
  by (simp add: pci_initial_config_def Let_def slice_splice_other slice_update_other) (simp add: slice_def)

lemma pci_new_wf: "pci_wf n (pci_device_new ops dev n)"
proof -
  have "le_word (replicate 4 0) = (0 :: u32)"
    using le_word_le_bytes_full [of 4 "0 :: u32"] by (simp add: numeral_eq_Suc)
  moreover have "msix_enabled (pci_device_new ops dev n) = False" "length (msix_table (pci_device_new ops dev n)) = unat n"
    "pci_bars (pci_device_new ops dev n) = pci_bars_new n" "length (pci_config (pci_device_new ops dev n)) = 256"
    by (simp_all add: pci_device_new_def Let_def)
  ultimately show ?thesis
    by (simp add: pci_wf_def pci_new_slice pci_initial_bytes pci_new_config_nth)
qed

lemma pci_read_config_slice:
  "length (pci_config d) = 256 \<Longrightarrow> unat off + k \<le> 256 \<Longrightarrow> pci_read_config off k d = slice (unat off) k (pci_config d)"
  by (rule nth_equalityI) (auto simp: pci_read_config_def nth_slice)

text \<open>
  C33. A driver cannot change what identifies a function. After any sequence of configuration
  and BAR writes, every byte outside the command register, the interrupt line, the MSI-X
  control byte and BAR 4 reads as at creation, so vendor and device identifiers are those of
  the wrapped device; the MSI-X table size is unchanged; MSI-X is enabled exactly when the
  control byte says so; and BAR 4 holds an address aligned to its size.
\<close>

theorem pci_config_protected:
  "let d0 = pci_device_new ops dev n; d = fold pci_exec xs d0 in
    (\<forall>a. a \<notin> pci_writable \<longrightarrow> pci_config d ! a = pci_config d0 ! a) \<and>
    pci_read_config 0 4 d =
      le_bytes 2 VIRTIO_PCI_VENDOR_ID @ le_bytes 2 (VIRTIO_PCI_DEVICE_ID_BASE + ucast (device_type_id
        (case lock dev of None \<Rightarrow> Block | Some d \<Rightarrow> vd_device_type ops d))) \<and>
    pci_config d ! 0x43 AND 0x3F = pci_config d0 ! 0x43 AND 0x3F \<and>
    (msix_enabled d \<longleftrightarrow> pci_config d ! 0x43 AND 0x80 \<noteq> 0) \<and>
    (le_word (slice 0x20 4 (pci_config d)) :: u32) AND (bar4_size_of n - 1) = 0"
proof -
  let ?init = "pci_device_new ops dev n"
  let ?d = "fold pci_exec xs ?init"
  note r = pci_run_wf [OF pci_new_wf [of n ops dev], of xs]
  have l: "length (pci_config ?init) = 256" "length (pci_config ?d) = 256"
    using r pci_new_wf [of n ops dev] by (auto simp: pci_wf_def)
  have "slice 0 4 (pci_config ?d) = slice 0 4 (pci_config ?init)"
    by (rule nth_slice_eqI) (use l r in \<open>auto simp: pci_writable_def\<close>)
  also have "\<dots> = slice 0 2 (pci_config ?init) @ slice 2 2 (pci_config ?init)"
    using take_add [of 2 2 "pci_config ?init"] by (simp add: slice_def)
  finally have s: "slice 0 4 (pci_config ?d) = slice 0 2 (pci_config ?init) @ slice 2 2 (pci_config ?init)" .
  have "pci_read_config 0 4 ?d = slice 0 4 (pci_config ?d)" using l pci_read_config_slice [of ?d 0 4] by simp
  then show ?thesis using r unfolding s by (simp add: Let_def pci_new_slice pci_initial_bytes pci_wf_def)
qed

theorem pci_config_protected_witness:
  "\<forall>ops. pci_config (fold pci_exec [ConfigWrite 0 [1, 2]] (pci_device_new ops (Poisoned :: nat mutex) 2)) ! 0 =
     pci_config (pci_device_new ops (Poisoned :: nat mutex) 2) ! 0"
proof
  fix ops :: "nat virtio_ops"
  have "(0 :: nat) \<notin> pci_writable" by (simp add: pci_writable_def)
  then show "pci_config (fold pci_exec [ConfigWrite 0 [1, 2]] (pci_device_new ops (Poisoned :: nat mutex) 2)) ! 0 =
     pci_config (pci_device_new ops (Poisoned :: nat mutex) 2) ! 0"
    using pci_config_protected [of ops "Poisoned :: nat mutex" 2 "[ConfigWrite 0 [1, 2]]"] unfolding Let_def by blast
qed

text \<open>
  BAR sizing works. On a function in any reachable state, writing all ones to the register
  of BAR 4 and reading it back reveals the size of the region: the complement of the value
  plus one. Writing an address leaves it rounded down to the size, and the registers of the
  other BARs read zero, that is, not implemented, whatever is written to them.
\<close>

lemma pci_bar_sizing:
  "let d = fold pci_exec xs (pci_device_new ops dev n) in
    (NOT (le_word (pci_read_config 0x20 4 (pci_write_config 0x20 (le_bytes 4 (0xFFFFFFFF :: u32)) d)) :: u32)) + 1
      = bar4_size_of n \<and>
    (le_word (pci_read_config 0x20 4 (pci_write_config 0x20 (le_bytes 4 v) d)) :: u32) = v AND NOT (bar4_size_of n - 1) \<and>
    (\<forall>i < 6. i \<noteq> 4 \<longrightarrow>
       pci_read_config (of_nat (0x10 + 4 * i)) 4 (pci_write_config (of_nat (0x10 + 4 * i)) (le_bytes 4 v) d) = replicate 4 0)"
proof -
  define d where "d = fold pci_exec xs (pci_device_new ops dev n)"
  have wf: "pci_wf n d" "\<forall>a. a \<notin> pci_writable \<longrightarrow> pci_config d ! a = pci_config (pci_device_new ops dev n) ! a"
    using pci_run_wf [OF pci_new_wf [of n ops dev], of xs] by (simp_all add: d_def)
  have wb: "write_config_bytes (0x10 + 4 * i) (le_bytes 4 w) d = d" if "i < 6" for i and w :: u32
    using that by (simp add: numeral_eq_Suc le_bytes.simps write_config_byte_def)
  have b: "pci_bars d = pci_bars_new n" and l: "length (pci_config d) = 256" using wf(1) by (simp_all add: pci_wf_def)
  have w4: "pci_write_config 0x20 (le_bytes 4 w) d =
      d\<lparr>pci_config := splice_at 0x20 (le_bytes 4 (w AND NOT (bar4_size_of n - 1))) (pci_config d)\<rparr>" for w
    using wb [of 4 w] by (simp add: pci_write_config_def write_bar_register_eq [OF b])
  have r4: "le_word (pci_read_config 0x20 4 (pci_write_config 0x20 (le_bytes 4 w) d)) = w AND NOT (bar4_size_of n - 1)"
    for w :: u32 using l by (simp add: w4 pci_read_config_slice)
  have sz: "NOT (0xFFFFFFFF AND NOT (bar4_size_of n - 1)) + 1 = bar4_size_of n"
  proof -
    have e: "(0xFFFFFFFF :: u32) = mask 32" by (simp add: mask_eq_exp_minus_1)
    have "(0xFFFFFFFF :: u32) AND x = x" for x unfolding e by (rule bit_word_eqI) (auto simp: bit_simps)
    then show ?thesis by simp
  qed
  have other: "pci_read_config (of_nat (0x10 + 4 * i)) 4 (pci_write_config (of_nat (0x10 + 4 * i)) (le_bytes 4 v) d) = replicate 4 0"
    if "i < 6" "i \<noteq> 4" for i
  proof -
    define o8 :: u8 where "o8 = of_nat (0x10 + 4 * i)"
    have u: "unat o8 = 0x10 + 4 * i"
      using that(1) unfolding o8_def by (simp only: unsigned_of_nat) (simp add: take_bit_nat_eq_self)
    have "pci_write_config o8 (le_bytes 4 v) d = d"
      using wb [OF that(1), of v] that by (simp add: pci_write_config_def u write_bar_register_eq [OF b])
    then have "pci_read_config (of_nat (0x10 + 4 * i)) 4 (pci_write_config (of_nat (0x10 + 4 * i)) (le_bytes 4 v) d) =
        slice (0x10 + 4 * i) 4 (pci_config d)"
      using l that u unfolding o8_def [symmetric] by (simp add: pci_read_config_slice)
    also have "\<dots> = slice (0x10 + 4 * i) 4 (pci_config (pci_device_new ops dev n))"
      by (rule nth_slice_eqI) (use wf l that pci_new_wf [of n ops dev] in \<open>auto simp: pci_wf_def pci_writable_def\<close>)
    also have "\<dots> = replicate 4 0" using that by (simp add: pci_new_slice pci_initial_bar)
    finally show ?thesis .
  qed
  show ?thesis using r4 sz other by (simp add: d_def [symmetric])
qed

section \<open>The MSI-X table\<close>

lemma msix_entry_roundtrip [simp]: "msix_entry_from_bytes (msix_entry_to_bytes e) = e"
  by (simp add: msix_entry_from_bytes_def msix_entry_to_bytes_def slice_def)

lemma length_msix_entry [simp]: "length (msix_entry_to_bytes e) = 16"
  by (simp add: msix_entry_to_bytes_def)

lemma msix_bytes_roundtrip:
  assumes "length bs = 16"
  shows "msix_entry_to_bytes (msix_entry_from_bytes bs) = bs"
proof -
  have "le_bytes 4 (le_word (slice i 4 bs) :: u32) = slice i 4 bs" if "i \<le> 12" for i
    using that assms by (intro le_bytes_le_word) simp_all
  then have "msix_entry_to_bytes (msix_entry_from_bytes bs) = slice 0 4 bs @ slice 4 4 bs @ slice 8 4 bs @ slice 12 4 bs"
    by (simp add: msix_entry_to_bytes_def msix_entry_from_bytes_def)
  also have "\<dots> = bs"
    using assms take_add [of 4 4 bs] take_add [of 8 4 bs] take_add [of 12 4 bs] by (simp add: slice_def)
  finally show ?thesis .
qed

text \<open>An access inside one table entry reads back what was written there and nothing else moves.\<close>

lemma msix_write_read:
  assumes "off < 16 * length (msix_table d)" "off mod 16 + length bs \<le> 16" "unat o64 = off"
  shows "read_msix_region o64 (replicate (length bs) x) (write_msix_region o64 bs d) = bs"
    and "j \<noteq> off div 16 \<Longrightarrow> msix_table (write_msix_region o64 bs d) ! j = msix_table d ! j"
proof -
  let ?nb = "map (\<lambda>p. if off mod 16 \<le> p \<and> p - off mod 16 < length bs then bs ! (p - off mod 16)
      else msix_entry_to_bytes (msix_table d ! (off div 16)) ! p) [0..<16]"
  have i: "off div 16 < length (msix_table d)" using assms(1) by (simp add: less_mult_imp_div_less mult.commute)
  have "msix_table (write_msix_region o64 bs d) = (msix_table d)[off div 16 := msix_entry_from_bytes ?nb]"
    using assms(1,3) by (simp add: write_msix_region_def Let_def mult.commute)
  then show "read_msix_region o64 (replicate (length bs) x) (write_msix_region o64 bs d) = bs"
    and "j \<noteq> off div 16 \<Longrightarrow> msix_table (write_msix_region o64 bs d) ! j = msix_table d ! j"
    using assms i
    by (auto simp: read_msix_region_def Let_def msix_bytes_roundtrip mult.commute intro!: nth_equalityI)
qed

section \<open>Routing of configuration accesses\<close>

text \<open>The PCI bus as a device of the port bus.\<close>

definition pci_bus_ops :: "'d pci_bus bus_ops" where
  "pci_bus_ops = \<lparr>bus_dev_read = pci_bus_read, bus_dev_write = pci_bus_write\<rparr>"

text \<open>
  Configuration accesses narrower than a doubleword do not reach a function. Whatever
  address is selected and whatever function is present there, a read of one or two bytes at
  the data port returns all ones and a write of one or two bytes changes nothing.
\<close>

lemma pci_narrow_config_access_ignored:
  assumes "length data \<noteq> 4"
  shows "pci_bus_read off data b = (b, replicate (length data) 0xFF) \<and> pci_bus_write off data b = b"
  using assms by (simp add: pci_bus_read_def pci_bus_write_def)

end
