(* ===== verification/Ip_Alloc.thy ===== *)
theory Ip_Alloc
  imports Visor_Prelude
begin

text \<open>
  The IPv4 subnet allocator of the runtime
  (\<^verbatim>\<open>visor-runtime/src/net/ip_alloc.rs\<close>).  An address is a 32-bit word, the set
  of allocated offsets is a set of words, and the state sits behind a mutex.  The search
  loop of \<^verbatim>\<open>allocate\<close> has no syntactic bound, so it is a partial function
  and its termination is a lemma about the states the allocator can be in.
\<close>

unbundle bit_operations_syntax

section \<open>State\<close>

datatype alloc_error =
    PrefixOutOfRange u8
  | AllocLockPoisoned
  | SubnetExhausted
  | NotInSubnet u32
  | NetworkAddress u32
  | GatewayAddress u32
  | BroadcastAddress u32
  | NotAllocated u32

record alloc_state =
  allocated :: "u32 set"
  next_candidate :: u32

record subnet_allocator =
  sa_base :: u32
  sa_prefix :: u8
  sa_gateway :: u32
  sa_state :: "alloc_state mutex"

section \<open>Operations\<close>

definition subnet_new :: "u32 \<Rightarrow> u8 \<Rightarrow> u32 \<Rightarrow> (subnet_allocator, alloc_error) result" where
  "subnet_new base prefix gateway =
    (if prefix = 0 \<or> prefix > 30 then Err (PrefixOutOfRange prefix)
     else Ok \<lparr> sa_base = base, sa_prefix = prefix, sa_gateway = gateway,
               sa_state = Healthy \<lparr> allocated = {}, next_candidate = 2 \<rparr> \<rparr>)"

definition ipv4 :: "u8 \<Rightarrow> u8 \<Rightarrow> u8 \<Rightarrow> u8 \<Rightarrow> u32" where
  "ipv4 a b c d = le_word [d, c, b, a]"

definition DEFAULT_SUBNET_BASE :: u32 where
  "DEFAULT_SUBNET_BASE = ipv4 172 20 0 0"

definition DEFAULT_GATEWAY :: u32 where
  "DEFAULT_GATEWAY = ipv4 172 20 0 1"

definition subnet_default_network :: "(subnet_allocator, alloc_error) result" where
  "subnet_default_network = subnet_new DEFAULT_SUBNET_BASE 24 DEFAULT_GATEWAY"

definition host_count :: "subnet_allocator \<Rightarrow> u32" where
  "host_count a = push_bit (32 - unat (sa_prefix a)) 1"

definition next_offset :: "u32 \<Rightarrow> u32 \<Rightarrow> u32" where
  "next_offset hosts offset = (if offset + 1 \<ge> hosts then 2 else offset + 1)"

partial_function (option) alloc_loop ::
  "u32 \<Rightarrow> u32 \<Rightarrow> u32 set \<Rightarrow> u32 \<Rightarrow> (u32, alloc_error) result option" where
  "alloc_loop hosts start taken offset =
    (if offset = 0 \<or> offset = 1 \<or> offset = hosts - 1 then
       (if next_offset hosts offset = start then Some (Err SubnetExhausted)
        else alloc_loop hosts start taken (next_offset hosts offset))
     else if offset \<notin> taken then Some (Ok offset)
     else if next_offset hosts offset = start then Some (Err SubnetExhausted)
     else alloc_loop hosts start taken (next_offset hosts offset))"

definition allocate ::
  "subnet_allocator \<Rightarrow> ((u32, alloc_error) result \<times> subnet_allocator) option" where
  "allocate a = (case lock (sa_state a) of
     None \<Rightarrow> Some (Err AllocLockPoisoned, a)
   | Some s \<Rightarrow>
       (case alloc_loop (host_count a) (next_candidate s) (allocated s) (next_candidate s) of
          None \<Rightarrow> None
        | Some (Err e) \<Rightarrow> Some (Err e, a)
        | Some (Ok offset) \<Rightarrow> Some (Ok (sa_base a + offset),
            a\<lparr>sa_state := Healthy \<lparr> allocated = insert offset (allocated s),
                                     next_candidate = next_offset (host_count a) offset \<rparr>\<rparr>)))"

definition subnet_contains :: "subnet_allocator \<Rightarrow> u32 \<Rightarrow> bool" where
  "subnet_contains a ip =
    (let mask = push_bit (32 - unat (sa_prefix a)) (- 1) in (ip AND mask) = (sa_base a AND mask))"

definition release ::
  "subnet_allocator \<Rightarrow> u32 \<Rightarrow> (unit, alloc_error) result \<times> subnet_allocator" where
  "release a ip =
    (if \<not> subnet_contains a ip then (Err (NotInSubnet ip), a)
     else let offset = ip - sa_base a in
       if offset = 0 then (Err (NetworkAddress ip), a)
       else if ip = sa_gateway a \<or> offset = 1 then (Err (GatewayAddress ip), a)
       else if offset = host_count a - 1 then (Err (BroadcastAddress ip), a)
       else (case lock (sa_state a) of
          None \<Rightarrow> (Err AllocLockPoisoned, a)
        | Some s \<Rightarrow>
            if offset \<notin> allocated s then (Err (NotAllocated ip), a)
            else (Ok (),
              a\<lparr>sa_state := Healthy \<lparr> allocated = allocated s - {offset},
                 next_candidate = (if offset < next_candidate s then offset
                                   else next_candidate s) \<rparr>\<rparr>)))"

definition allocated_count :: "subnet_allocator \<Rightarrow> nat" where
  "allocated_count a = (case lock (sa_state a) of None \<Rightarrow> 0 | Some s \<Rightarrow> card (allocated s))"

definition available_count :: "subnet_allocator \<Rightarrow> u64" where
  "available_count a = (ucast (host_count a) - 3) - of_nat (allocated_count a)"

section \<open>The search loop returns\<close>

definition hosts_ok :: "u32 \<Rightarrow> bool" where
  "hosts_ok hosts \<longleftrightarrow> 4 \<le> unat hosts \<and> unat hosts \<le> 2 ^ 31"

definition in_cycle :: "u32 \<Rightarrow> u32 \<Rightarrow> bool" where
  "in_cycle hosts offset \<longleftrightarrow> 2 \<le> unat offset \<and> unat offset < unat hosts"

text \<open>The offsets still to be visited on the way from \<^term>\<open>offset\<close> round to \<^term>\<open>start\<close>.\<close>

definition ahead :: "u32 \<Rightarrow> u32 \<Rightarrow> u32 \<Rightarrow> u32 set" where
  "ahead hosts start offset = {x. in_cycle hosts x \<and>
     (if start \<le> offset then offset \<le> x \<or> x < start else offset \<le> x \<and> x < start)}"

definition usable :: "u32 \<Rightarrow> u32 set" where
  "usable hosts = {x. in_cycle hosts x \<and> x \<noteq> hosts - 1}"

lemma unat_next_offset:
  assumes "hosts_ok hosts" "in_cycle hosts offset"
  shows "unat (next_offset hosts offset) =
         (if Suc (unat offset) < unat hosts then Suc (unat offset) else 2)"
proof -
  have "unat (offset + 1) = Suc (unat offset)"
    using assms unat_add_lem[of offset 1] by (simp add: hosts_ok_def in_cycle_def)
  then show ?thesis
    by (auto simp: next_offset_def word_le_nat_alt)
qed

lemma in_cycle_next: "hosts_ok hosts \<Longrightarrow> in_cycle hosts offset \<Longrightarrow>
    in_cycle hosts (next_offset hosts offset)"
  by (auto simp: in_cycle_def unat_next_offset hosts_ok_def)

lemma ahead_start: "ahead hosts start start = {x. in_cycle hosts x}"
  by (auto simp: ahead_def)

lemma ahead_usable: "ahead hosts start start \<inter> usable hosts = usable hosts"
  by (auto simp: ahead_start usable_def)

lemma ahead_last:
  assumes "hosts_ok hosts" "in_cycle hosts offset" "in_cycle hosts start"
    "next_offset hosts offset = start"
  shows "ahead hosts start offset = {offset}"
  using assms(2,3) unat_next_offset[OF assms(1,2)] unfolding assms(4)
  by (auto simp: ahead_def in_cycle_def word_le_nat_alt word_less_nat_alt word_unat_eq_iff
      split: if_splits)

lemma ahead_step:
  assumes "hosts_ok hosts" "in_cycle hosts offset" "in_cycle hosts start"
    "next_offset hosts offset \<noteq> start"
  shows "ahead hosts start offset = insert offset (ahead hosts start (next_offset hosts offset))"
    and "offset \<notin> ahead hosts start (next_offset hosts offset)"
  using assms(2,3,4) unat_next_offset[OF assms(1,2)]
  by (auto simp: ahead_def in_cycle_def word_le_nat_alt word_less_nat_alt word_unat_eq_iff
      split: if_splits)

lemma alloc_loop_step:
  assumes "in_cycle hosts offset"
  shows "alloc_loop hosts start taken offset =
    (if offset \<in> usable hosts - taken then Some (Ok offset)
     else if next_offset hosts offset = start then Some (Err SubnetExhausted)
     else alloc_loop hosts start taken (next_offset hosts offset))"
  using assms by (subst alloc_loop.simps) (auto simp: in_cycle_def usable_def)

lemma alloc_loop_returns:
  assumes "hosts_ok hosts" "in_cycle hosts start" "in_cycle hosts offset"
  shows "\<exists>r. alloc_loop hosts start taken offset = Some r \<and>
    (case r of
       Ok k \<Rightarrow> k \<in> usable hosts - taken
     | Err e \<Rightarrow> e = SubnetExhausted \<and> ahead hosts start offset \<inter> usable hosts \<subseteq> taken)"
  using assms(3)
proof (induction "card (ahead hosts start offset)" arbitrary: offset rule: less_induct)
  case less
  let ?next = "next_offset hosts offset"
  show ?case
  proof (cases "offset \<in> usable hosts - taken")
    case True
    then show ?thesis using less.prems by (simp add: alloc_loop_step)
  next
    case busy: False
    show ?thesis
    proof (cases "?next = start")
      case True
      then show ?thesis
        using busy less.prems ahead_last[OF assms(1) less.prems assms(2)]
        by (auto simp: alloc_loop_step)
    next
      case False
      note ahead = ahead_step[OF assms(1) less.prems assms(2) False]
      have "card (ahead hosts start ?next) < card (ahead hosts start offset)"
        using ahead by (simp add: card_insert_if)
      from less.hyps[OF this in_cycle_next[OF assms(1) less.prems]] show ?thesis
        using busy less.prems False ahead(1)
        by (auto simp: alloc_loop_step split: result.splits)
    qed
  qed
qed

section \<open>The allocator's invariant\<close>

definition alloc_inv :: "subnet_allocator \<Rightarrow> bool" where
  "alloc_inv a \<longleftrightarrow> 0 < sa_prefix a \<and> sa_prefix a \<le> 30 \<and>
    (case lock (sa_state a) of
       None \<Rightarrow> False
     | Some s \<Rightarrow> allocated s \<subseteq> usable (host_count a) \<and>
                 in_cycle (host_count a) (next_candidate s))"

lemma unat_host_count:
  assumes "0 < sa_prefix a" "sa_prefix a \<le> 30"
  shows "unat (host_count a) = 2 ^ (32 - unat (sa_prefix a))"
    and "hosts_ok (host_count a)"
proof -
  have p: "1 \<le> unat (sa_prefix a)" "unat (sa_prefix a) \<le> 30"
    using assms by (simp_all add: word_le_nat_alt word_less_nat_alt)
  have "32 - unat (sa_prefix a) < 32" using p by simp
  then show u: "unat (host_count a) = 2 ^ (32 - unat (sa_prefix a))"
    by (simp add: host_count_def push_bit_eq_mult unat_pow2)
  have "(2::nat) ^ 2 \<le> 2 ^ (32 - unat (sa_prefix a))" "(2::nat) ^ (32 - unat (sa_prefix a)) \<le> 2 ^ 31"
    using p by (intro power_increasing; simp)+
  then show "hosts_ok (host_count a)" by (simp add: hosts_ok_def u)
qed

lemma alloc_inv_hosts: "alloc_inv a \<Longrightarrow> hosts_ok (host_count a)"
  by (simp add: alloc_inv_def unat_host_count)

lemma usable_image:
  assumes "hosts_ok hosts"
  shows "usable hosts = of_nat ` {2..<unat hosts - 1}"
proof -
  have last: "unat (hosts - 1) = unat hosts - 1"
    using assms by (subst unat_sub) (auto simp: hosts_ok_def word_le_nat_alt)
  have eq: "x \<in> usable hosts \<longleftrightarrow> unat x \<in> {2..<unat hosts - 1}" for x
    using last by (auto simp: usable_def in_cycle_def word_unat_eq_iff)
  have small: "unat (of_nat n :: u32) = n" if "n \<in> {2..<unat hosts - 1}" for n
    using that assms
    by (auto simp: hosts_ok_def unsigned_of_nat intro!: take_bit_nat_eq_self)
  show ?thesis
  proof (intro set_eqI iffI)
    fix x assume x: "x \<in> usable hosts"
    have "x = of_nat (unat x)" by simp
    then show "x \<in> of_nat ` {2..<unat hosts - 1}" using eq x by blast
  next
    fix x :: u32 assume "x \<in> of_nat ` {2..<unat hosts - 1}"
    then show "x \<in> usable hosts" using eq small by auto
  qed
qed

lemma card_usable: "hosts_ok hosts \<Longrightarrow> card (usable hosts) = unat hosts - 3"
  unfolding usable_image
  by (subst card_image)
    (auto simp: inj_on_def hosts_ok_def word_of_nat_eq_iff take_bit_nat_eq_self)

lemma subnet_new_inv: "subnet_new b p g = Ok a \<Longrightarrow> alloc_inv a"
  using unat_host_count(2)[of a]
  by (auto simp: subnet_new_def alloc_inv_def in_cycle_def hosts_ok_def word_neq_0_conv not_less
      split: if_splits)

lemma alloc_inv_state:
  assumes "alloc_inv a" "sa_state a = Healthy s"
  shows "allocated s \<subseteq> usable (host_count a) \<and> in_cycle (host_count a) (next_candidate s) \<and>
    hosts_ok (host_count a)"
  using assms alloc_inv_hosts[OF assms(1)] by (simp add: alloc_inv_def)

text \<open>Allocation answers, and what it answers is decided by whether a usable offset is free.\<close>

lemma allocate_cases:
  assumes "alloc_inv a" "sa_state a = Healthy s"
  obtains
    (found) k a' where "allocate a = Some (Ok (sa_base a + k), a')"
      "k \<in> usable (host_count a) - allocated s" "alloc_inv a'"
      "a' = a\<lparr>sa_state := Healthy \<lparr>allocated = insert k (allocated s),
                 next_candidate = next_offset (host_count a) k\<rparr>\<rparr>"
  | (full) "allocate a = Some (Err SubnetExhausted, a)" "allocated s = usable (host_count a)"
proof -
  let ?h = "host_count a"
  have st: "allocated s \<subseteq> usable ?h" "in_cycle ?h (next_candidate s)" "hosts_ok ?h"
    using alloc_inv_state[OF assms] by blast+
  from alloc_loop_returns[OF st(3,2,2), of "allocated s", unfolded ahead_usable] obtain r where
    r: "alloc_loop ?h (next_candidate s) (allocated s) (next_candidate s) = Some r"
      "case r of Ok k \<Rightarrow> k \<in> usable ?h - allocated s
       | Err e \<Rightarrow> e = SubnetExhausted \<and> usable ?h \<subseteq> allocated s"
    by (elim exE conjE) (rule that)
  show ?thesis
  proof (cases r)
    case (Ok k)
    let ?a' = "a\<lparr>sa_state := Healthy \<lparr>allocated = insert k (allocated s),
                 next_candidate = next_offset ?h k\<rparr>\<rparr>"
    have k: "k \<in> usable ?h - allocated s" using r(2) Ok by simp
    have h: "host_count ?a' = ?h" by (simp add: host_count_def)
    have "in_cycle ?h (next_offset ?h k)"
      using in_cycle_next[OF st(3)] k by (simp add: usable_def)
    then have inv: "alloc_inv ?a'"
      using assms(1) st(1) k unfolding alloc_inv_def h by simp
    have "allocate a = Some (Ok (sa_base a + k), ?a')"
      unfolding allocate_def assms(2) using r(1) Ok by simp
    then show ?thesis using k inv refl by (rule found)
  next
    case (Err e)
    then have "allocate a = Some (Err SubnetExhausted, a)"
      unfolding allocate_def assms(2) using r by simp
    then show ?thesis using full r(2) st(1) Err by simp
  qed
qed

lemma release_cases:
  assumes "alloc_inv a" "sa_state a = Healthy s"
  obtains
    (returned) a' where "release a ip = (Ok (), a')" "alloc_inv a'" "ip - sa_base a \<in> allocated s"
      "host_count a' = host_count a" "sa_base a' = sa_base a"
      "\<exists>n. sa_state a' = Healthy \<lparr>allocated = allocated s - {ip - sa_base a}, next_candidate = n\<rparr>"
  | (refused) e where "release a ip = (Err e, a)"
proof (cases "fst (release a ip)")
  case (Err e)
  then have "release a ip = (Err e, a)"
    by (auto simp: release_def Let_def split: if_splits option.splits)
  then show ?thesis by (rule refused)
next
  case (Ok u)
  then have k: "ip - sa_base a \<in> allocated s"
    using assms(2) by (auto simp: release_def Let_def split: if_splits)
  have st: "allocated s \<subseteq> usable (host_count a)" "in_cycle (host_count a) (next_candidate s)"
    using alloc_inv_state[OF assms] by blast+
  let ?n = "if ip - sa_base a < next_candidate s then ip - sa_base a else next_candidate s"
  let ?a' = "a\<lparr>sa_state := Healthy \<lparr>allocated = allocated s - {ip - sa_base a}, next_candidate = ?n\<rparr>\<rparr>"
  have h: "host_count ?a' = host_count a" by (simp add: host_count_def)
  have "in_cycle (host_count a) ?n" using st k by (auto simp: usable_def)
  moreover have "allocated s - {ip - sa_base a} \<subseteq> usable (host_count a)" using st(1) by blast
  ultimately have "alloc_inv ?a'" using assms(1) unfolding alloc_inv_def h by simp
  moreover have "release a ip = (Ok (), ?a')"
    using Ok assms(2) by (auto simp: release_def Let_def split: if_splits)
  ultimately show ?thesis using returned[of ?a'] k h by simp
qed

section \<open>Any sequence of calls\<close>

text \<open>
  The allocator of a network, and the addresses its callers hold: those that were handed out
  and not taken back since.
\<close>

inductive alloc_run :: "u32 \<Rightarrow> u8 \<Rightarrow> u32 \<Rightarrow> subnet_allocator \<Rightarrow> u32 list \<Rightarrow> bool" for b p g where
  run_new: "subnet_new b p g = Ok a \<Longrightarrow> alloc_run b p g a []"
| run_allocate: "alloc_run b p g a held \<Longrightarrow> allocate a = Some (Ok ip, a') \<Longrightarrow>
    alloc_run b p g a' (ip # held)"
| run_exhausted: "alloc_run b p g a held \<Longrightarrow> allocate a = Some (Err e, a') \<Longrightarrow>
    alloc_run b p g a' held"
| run_release: "alloc_run b p g a held \<Longrightarrow> release a ip = (Ok (), a') \<Longrightarrow>
    alloc_run b p g a' (remove1 ip held)"
| run_refused: "alloc_run b p g a held \<Longrightarrow> release a ip = (Err e, a') \<Longrightarrow>
    alloc_run b p g a' held"

definition held_by :: "subnet_allocator \<Rightarrow> u32 list \<Rightarrow> bool" where
  "held_by a held \<longleftrightarrow> distinct held \<and>
    (\<exists>s. sa_state a = Healthy s \<and> set held = (+) (sa_base a) ` allocated s)"

lemma allocate_static:
  "allocate a = Some (r, a') \<Longrightarrow>
   sa_base a' = sa_base a \<and> sa_prefix a' = sa_prefix a \<and> sa_gateway a' = sa_gateway a"
  by (auto simp: allocate_def split: option.splits result.splits)

lemma release_static:
  "release a ip = (r, a') \<Longrightarrow>
   sa_base a' = sa_base a \<and> sa_prefix a' = sa_prefix a \<and> sa_gateway a' = sa_gateway a"
  by (auto simp: release_def Let_def split: option.splits if_splits)

lemma allocate_held:
  assumes "alloc_inv a" "held_by a held" "allocate a = Some (Ok ip, a')"
  shows "alloc_inv a' \<and> held_by a' (ip # held)"
proof -
  obtain s where s: "sa_state a = Healthy s" "distinct held" "set held = (+) (sa_base a) ` allocated s"
    using assms(2) by (auto simp: held_by_def)
  from assms(1) s(1) show ?thesis
    by (cases rule: allocate_cases) (use assms(3) s in \<open>auto simp: held_by_def\<close>)
qed

lemma allocate_refusal: "alloc_inv a \<Longrightarrow> allocate a = Some (Err e, a') \<Longrightarrow> a' = a"
  by (auto simp: allocate_def split: option.splits result.splits)

lemma release_held:
  assumes "alloc_inv a" "held_by a held" "release a ip = (Ok (), a')"
  shows "alloc_inv a' \<and> held_by a' (remove1 ip held)"
proof -
  obtain s where s: "sa_state a = Healthy s" "distinct held" "set held = (+) (sa_base a) ` allocated s"
    using assms(2) by (auto simp: held_by_def)
  have inj: "(+) (sa_base a) ` (A - {ip - sa_base a}) = (+) (sa_base a) ` A - {ip}" for A
    by (auto simp: image_iff)
  from assms(1) s(1) show ?thesis
    by (cases rule: release_cases[where ip = ip])
      (use assms(3) s in \<open>auto simp: held_by_def inj\<close>)
qed

lemma release_refusal: "release a ip = (Err e, a') \<Longrightarrow> a' = a"
  by (auto simp: release_def Let_def split: option.splits if_splits)

lemma alloc_run_invariant:
  assumes "alloc_run b p g a held"
  shows "alloc_inv a \<and> held_by a held \<and> sa_base a = b \<and> sa_prefix a = p \<and> sa_gateway a = g"
  using assms
proof (induction rule: alloc_run.induct)
  case (run_new a)
  then show ?case
    using subnet_new_inv[OF run_new] by (auto simp: subnet_new_def held_by_def split: if_splits)
next
  case (run_allocate a held ip a')
  then show ?case using allocate_held allocate_static by blast
next
  case (run_exhausted a held e a')
  then show ?case using allocate_refusal by blast
next
  case (run_release a held ip a')
  then show ?case using release_held release_static by blast
next
  case (run_refused a held ip e a')
  then show ?case using release_refusal by blast
qed

lemma length_held:
  assumes "alloc_inv a" "held_by a held" "sa_state a = Healthy s"
  shows "length held = card (allocated s)" "length held \<le> unat (host_count a) - 3"
    "length held = unat (host_count a) - 3 \<longleftrightarrow> allocated s = usable (host_count a)"
proof -
  have "card (set held) = card (allocated s)"
    using assms(2,3) by (auto simp: held_by_def intro: card_image)
  then show l: "length held = card (allocated s)"
    using assms(2) by (simp add: held_by_def distinct_card)
  have st: "allocated s \<subseteq> usable (host_count a)" "hosts_ok (host_count a)"
    using alloc_inv_state[OF assms(1,3)] by blast+
  show "length held \<le> unat (host_count a) - 3"
    using card_mono[OF _ st(1)] card_usable[OF st(2)] l by simp
  show "length held = unat (host_count a) - 3 \<longleftrightarrow> allocated s = usable (host_count a)"
    using card_subset_eq[OF _ st(1)] card_usable[OF st(2)] l by auto
qed

text \<open>With an aligned base, an address \<^term>\<open>b + k\<close> with a small \<^term>\<open>k\<close> is in the subnet of \<^term>\<open>b\<close>.\<close>

lemma aligned_prefix:
  fixes b k :: u32
  assumes "take_bit n b = 0" "unat k < 2 ^ n"
  shows "(b + k) AND push_bit n (- 1) = b AND push_bit n (- 1)"
proof -
  have k: "take_bit n k = k"
    using assms(2) by (simp add: word_unat_eq_iff unsigned_take_bit_eq take_bit_nat_eq_self)
  have lo: "\<not> bit b i" if "i < n" for i
    using arg_cong[OF assms(1), of "\<lambda>w. bit w i"] that by (simp add: bit_take_bit_iff)
  have hi: "\<not> bit k i" if "n \<le> i" for i
    using arg_cong[OF k, of "\<lambda>w. bit w i"] that by (simp add: bit_take_bit_iff)
  have "b + k = b OR k"
    by (rule disjunctive_add) (use lo hi in \<open>metis not_le\<close>)
  then show ?thesis
    using hi by (auto simp: bit_eq_iff bit_simps)
qed

lemma release_accepts:
  assumes "alloc_inv a" "held_by a held" "ip \<in> set held" "ip \<noteq> sa_gateway a"
    "take_bit (32 - unat (sa_prefix a)) (sa_base a) = 0"
  shows "\<exists>a'. release a ip = (Ok (), a')"
proof -
  obtain s k where s: "sa_state a = Healthy s" "k \<in> allocated s" "ip = sa_base a + k"
    using assms(2,3) by (auto simp: held_by_def)
  have p: "0 < sa_prefix a" "sa_prefix a \<le> 30" using assms(1) by (simp_all add: alloc_inv_def)
  have k: "2 \<le> unat k" "unat k < unat (host_count a)" "k \<noteq> host_count a - 1"
    using alloc_inv_state[OF assms(1) s(1)] s(2) by (auto simp: usable_def in_cycle_def)
  then have "subnet_contains a ip"
    using aligned_prefix[OF assms(5), of k] unat_host_count(1)[OF p]
    by (simp add: subnet_contains_def s(3))
  moreover have "k \<noteq> 0" "k \<noteq> 1" using k(1) by auto
  ultimately show ?thesis
    using assms(4) s k(3) by (simp add: release_def)
qed

text \<open>
  C7. The addresses a network's allocator has handed out are managed without loss or
  duplication.  After any sequence of allocations and releases, the addresses held are
  pairwise different and lie strictly between the first and the last address of the subnet,
  past the gateway slot; the number of free addresses reported is the true one; the next
  allocation returns (the search loop ends), with an address nobody holds whenever one is
  left, and with the error for an exhausted subnet exactly when all are held.  When the base
  is the first address of its block, every held address other than the configured gateway
  can be released.
\<close>

theorem subnet_addresses_unique:
  assumes "alloc_run b p g a held"
  shows "distinct held \<and>
    (\<forall>ip \<in> set held. \<exists>k \<in> {2..<2 ^ (32 - unat p) - 1}. ip = b + of_nat k) \<and>
    length held \<le> 2 ^ (32 - unat p) - 3 \<and>
    available_count a = of_nat (2 ^ (32 - unat p) - 3 - length held) \<and>
    (if length held < 2 ^ (32 - unat p) - 3
     then \<exists>ip a'. allocate a = Some (Ok ip, a') \<and> ip \<notin> set held
     else allocate a = Some (Err SubnetExhausted, a)) \<and>
    (take_bit (32 - unat p) b = 0 \<longrightarrow>
     (\<forall>ip \<in> set held. ip \<noteq> g \<longrightarrow> (\<exists>a'. release a ip = (Ok (), a'))))"
    (is "?unique \<and> ?range \<and> ?bound \<and> ?count \<and> ?next \<and> ?release")
proof (intro conjI)
  have inv: "alloc_inv a" "held_by a held" and st: "sa_base a = b" "sa_prefix a = p" "sa_gateway a = g"
    using alloc_run_invariant[OF assms] by blast+
  have ok: "hosts_ok (host_count a)" by (rule alloc_inv_hosts[OF inv(1)])
  have h: "unat (host_count a) = 2 ^ (32 - unat p)"
    using inv(1) st unat_host_count(1) by (simp add: alloc_inv_def)
  obtain s where s: "sa_state a = Healthy s" "set held = (+) b ` allocated s"
    using inv(2) st by (auto simp: held_by_def)
  note len = length_held[OF inv s(1)]
  show ?unique using inv(2) by (simp add: held_by_def)
  show ?range
    using alloc_inv_state[OF inv(1) s(1)] s(2) unfolding usable_image[OF ok] h by auto
  show ?bound using len(2) h by simp
  show ?next using inv(1) s(1)
  proof (cases rule: allocate_cases)
    case (found k a')
    then have "b + k \<notin> set held" using s(2) by auto
    moreover have "length held < 2 ^ (32 - unat p) - 3"
      using found(2) len(2,3) h by fastforce
    ultimately show ?thesis using found(1) st(1) by auto
  next
    case full
    then show ?thesis using len(3) h by simp
  qed
  show ?release using release_accepts[OF inv] st by auto
  have "(ucast (host_count a) :: u64) = of_nat (2 ^ (32 - unat p))"
    using h by (metis of_nat_unat)
  moreover have "(3::nat) \<le> 2 ^ (32 - unat p)" "length held \<le> 2 ^ (32 - unat p) - 3"
    using ok len(2) h by (simp_all add: hosts_ok_def)
  ultimately show ?count
    using s(1) len(1) by (simp add: available_count_def allocated_count_def of_nat_diff)
qed

definition demo_net :: "u32 \<Rightarrow> u32 set \<Rightarrow> u32 \<Rightarrow> subnet_allocator" where
  "demo_net g taken next = \<lparr> sa_base = DEFAULT_SUBNET_BASE, sa_prefix = 24, sa_gateway = g,
     sa_state = Healthy \<lparr> allocated = taken, next_candidate = next \<rparr> \<rparr>"

lemma demo_net_allocate:
  "1 < k \<Longrightarrow> k < 255 \<Longrightarrow> k \<notin> taken \<Longrightarrow>
   allocate (demo_net g taken k) =
     Some (Ok (DEFAULT_SUBNET_BASE + k), demo_net g (insert k taken) (next_offset 256 k))"
proof -
  assume k: "1 < k" "k < 255" "k \<notin> taken"
  then have "alloc_loop 256 k taken k = Some (Ok k)"
    by (subst alloc_loop.simps) (auto simp: not_less_iff_gr_or_eq)
  then show ?thesis by (simp add: allocate_def demo_net_def host_count_def)
qed

lemma demo_net_new: "subnet_new DEFAULT_SUBNET_BASE 24 g = Ok (demo_net g {} 2)"
  by (simp add: subnet_new_def demo_net_def)

lemma demo_net_contains: "subnet_contains (demo_net g taken n) (DEFAULT_SUBNET_BASE + 2)"
proof -
  have "(DEFAULT_SUBNET_BASE + 2) AND push_bit 8 (- 1) = DEFAULT_SUBNET_BASE AND push_bit 8 (- 1)"
    by code_simp
  then show ?thesis by (simp add: subnet_contains_def demo_net_def)
qed

lemma demo_net_release:
  "release (demo_net g taken n) (DEFAULT_SUBNET_BASE + 2) =
    (if g = DEFAULT_SUBNET_BASE + 2
     then (Err (GatewayAddress (DEFAULT_SUBNET_BASE + 2)), demo_net g taken n)
     else if 2 \<notin> taken then (Err (NotAllocated (DEFAULT_SUBNET_BASE + 2)), demo_net g taken n)
     else (Ok (), demo_net g (taken - {2}) (if 2 < n then 2 else n)))"
  using demo_net_contains[of g taken n]
  by (auto simp: release_def demo_net_def host_count_def)

theorem subnet_addresses_unique_witness:
  "\<exists>a. alloc_run DEFAULT_SUBNET_BASE 24 DEFAULT_GATEWAY a [ipv4 172 20 0 3] \<and>
    available_count a = 252 \<and>
    (\<exists>ip a'. allocate a = Some (Ok ip, a') \<and> ip \<noteq> ipv4 172 20 0 3)"
proof -
  let ?b = DEFAULT_SUBNET_BASE and ?g = DEFAULT_GATEWAY
  have "alloc_run ?b 24 ?g (demo_net ?g {2} 3) [?b + 2]"
    using run_allocate[OF run_new[OF demo_net_new] demo_net_allocate[of 2]]
    by (simp add: next_offset_def)
  then have "alloc_run ?b 24 ?g (demo_net ?g {3, 2} 4) [?b + 3, ?b + 2]"
    using run_allocate[OF _ demo_net_allocate[of 3 "{2}"]] by (simp add: next_offset_def)
  moreover have "release (demo_net ?g {3, 2} 4) (?b + 2) = (Ok (), demo_net ?g {3} 2)"
    unfolding demo_net_release
    by (auto simp: DEFAULT_SUBNET_BASE_def DEFAULT_GATEWAY_def ipv4_def intro: arg_cong)
  ultimately have "alloc_run ?b 24 ?g (demo_net ?g {3} 2) (remove1 (?b + 2) [?b + 3, ?b + 2])"
    by (rule run_release)
  then have run: "alloc_run ?b 24 ?g (demo_net ?g {3} 2) [ipv4 172 20 0 3]"
    by (simp add: DEFAULT_SUBNET_BASE_def ipv4_def)
  from subnet_addresses_unique[OF run] show ?thesis using run by auto
qed

text \<open>
  The search skips offset 1, not the configured gateway.  On a subnet whose gateway sits
  anywhere else, the gateway's address is handed out, and it can then not be taken back.
\<close>

lemma gateway_handed_out:
  "\<exists>a a'. subnet_new DEFAULT_SUBNET_BASE 24 (DEFAULT_SUBNET_BASE + 2) = Ok a \<and>
    allocate a = Some (Ok (sa_gateway a), a') \<and>
    release a' (sa_gateway a) = (Err (GatewayAddress (sa_gateway a)), a')"
proof -
  let ?g = "DEFAULT_SUBNET_BASE + 2"
  have "allocate (demo_net ?g {} 2) = Some (Ok ?g, demo_net ?g {2} 3)"
    by (simp add: demo_net_allocate next_offset_def)
  moreover have "sa_gateway (demo_net ?g {} 2) = ?g" by (simp add: demo_net_def)
  ultimately show ?thesis by (auto simp: demo_net_new demo_net_release)
qed

end
