(* ===== verification/Rust_Str.thy ===== *)
theory Rust_Str
  imports Visor_Prelude
begin

text \<open>
  What the runtime uses of the standard library's string functions.  A string is the list of
  its bytes; positions are byte positions, as in the source.  The functions that depend on
  character classes act on the ASCII range.
\<close>

section \<open>Character classes\<close>

definition code_of :: "char \<Rightarrow> nat" where
  "code_of c = of_char c"

definition ascii_digit :: "char \<Rightarrow> bool" where
  "ascii_digit c \<longleftrightarrow> 48 \<le> code_of c \<and> code_of c \<le> 57"

definition ascii_alphabetic :: "char \<Rightarrow> bool" where
  "ascii_alphabetic c \<longleftrightarrow>
    65 \<le> code_of c \<and> code_of c \<le> 90 \<or> 97 \<le> code_of c \<and> code_of c \<le> 122"

definition ascii_alphanumeric :: "char \<Rightarrow> bool" where
  "ascii_alphanumeric c \<longleftrightarrow> ascii_alphabetic c \<or> ascii_digit c"

definition ascii_space :: "char \<Rightarrow> bool" where
  "ascii_space c \<longleftrightarrow> 9 \<le> code_of c \<and> code_of c \<le> 13 \<or> code_of c = 32"

definition ascii_lower :: "char \<Rightarrow> char" where
  "ascii_lower c = (if 65 \<le> code_of c \<and> code_of c \<le> 90 then char_of (code_of c + 32) else c)"

definition to_lowercase :: "string \<Rightarrow> string" where
  "to_lowercase = map ascii_lower"

definition trim :: "string \<Rightarrow> string" where
  "trim s = rev (dropWhile ascii_space (rev (dropWhile ascii_space s)))"

lemma ascii_lower_idem [simp]: "ascii_lower (ascii_lower c) = ascii_lower c"
  by (simp add: ascii_lower_def code_of_def)

lemma to_lowercase_idem [simp]: "to_lowercase (to_lowercase s) = to_lowercase s"
  by (simp add: to_lowercase_def)

section \<open>Searching\<close>

primrec str_find :: "char \<Rightarrow> string \<Rightarrow> nat option" where
  "str_find c [] = None"
| "str_find c (x # xs) = (if x = c then Some 0 else map_option Suc (str_find c xs))"

primrec str_rfind :: "char \<Rightarrow> string \<Rightarrow> nat option" where
  "str_rfind c [] = None"
| "str_rfind c (x # xs) = (case str_rfind c xs of
     Some i \<Rightarrow> Some (Suc i) | None \<Rightarrow> if x = c then Some 0 else None)"

definition strip_suffix :: "string \<Rightarrow> string \<Rightarrow> string option" where
  "strip_suffix suf s =
    (if length suf \<le> length s \<and> drop (length s - length suf) s = suf
     then Some (take (length s - length suf) s) else None)"

lemma str_find_None [simp]: "str_find c s = None \<longleftrightarrow> c \<notin> set s"
  by (induction s) auto

lemma str_rfind_None [simp]: "str_rfind c s = None \<longleftrightarrow> c \<notin> set s"
  by (induction s) (auto split: option.splits)

lemma str_absent [simp]:
  "c \<notin> set s \<Longrightarrow> str_find c s = None" "c \<notin> set s \<Longrightarrow> str_rfind c s = None"
  by simp_all

lemma str_find_append [simp]: "c \<notin> set p \<Longrightarrow> str_find c (p @ c # q) = Some (length p)"
  by (induction p) auto

lemma str_rfind_append [simp]: "c \<notin> set q \<Longrightarrow> str_rfind c (p @ c # q) = Some (length p)"
  by (induction p) (auto split: option.splits)

lemma str_find_SomeE:
  assumes "str_find c s = Some i"
  obtains p q where "s = p @ c # q" "c \<notin> set p" "length p = i"
proof -
  have "c \<in> set s" using assms by (metis option.distinct(1) str_find_None)
  then obtain p q where s: "s = p @ c # q" "c \<notin> set p" by (metis split_list_first)
  then have "length p = i" using assms by simp
  with s show ?thesis by (rule that)
qed

lemma str_rfind_SomeE:
  assumes "str_rfind c s = Some i"
  obtains p q where "s = p @ c # q" "c \<notin> set q" "length p = i"
proof -
  have "c \<in> set s" using assms by (metis option.distinct(1) str_rfind_None)
  then obtain p q where s: "s = p @ c # q" "c \<notin> set q" by (metis split_list_last)
  then have "length p = i" using assms by simp
  with s show ?thesis by (rule that)
qed

lemma strip_suffix_append [simp]: "strip_suffix suf (s @ suf) = Some s"
  by (simp add: strip_suffix_def)

section \<open>Splitting and joining\<close>

fun split_on :: "char \<Rightarrow> string \<Rightarrow> string list" where
  "split_on c [] = [[]]"
| "split_on c (x # xs) =
    (if x = c then [] # split_on c xs
     else case split_on c xs of [] \<Rightarrow> [[x]] | y # ys \<Rightarrow> (x # y) # ys)"

fun join_with :: "string \<Rightarrow> string list \<Rightarrow> string" where
  "join_with sep [] = []"
| "join_with sep [x] = x"
| "join_with sep (x # y # ys) = x @ sep @ join_with sep (y # ys)"

lemma split_on_not_Nil [simp]: "split_on c s \<noteq> []"
  by (induction s) (auto split: list.splits)

lemma split_on_no_sep: "c \<notin> set s \<Longrightarrow> split_on c s = [s]"
  by (induction s) auto

lemma split_on_append: "c \<notin> set p \<Longrightarrow> split_on c (p @ c # q) = p # split_on c q"
  by (induction p) auto

lemma split_on_parts: "p \<in> set (split_on c s) \<Longrightarrow> c \<notin> set p"
  by (induction s arbitrary: p) (auto split: list.splits if_splits)

lemma join_split: "join_with [c] (split_on c s) = s"
proof (induction s)
  case (Cons x xs)
  then show ?case
    by (cases "split_on c xs"; cases "tl (split_on c xs)") auto
qed simp

lemma split_join:
  assumes "ps \<noteq> []" "\<forall>p \<in> set ps. c \<notin> set p"
  shows "split_on c (join_with [c] ps) = ps"
  using assms
proof (induction ps rule: induct_list012)
  case (2 p)
  then show ?case by (simp add: split_on_no_sep)
next
  case (3 p q ps)
  then show ?case by (simp add: split_on_append)
qed simp

section \<open>Decimal numbers\<close>

definition digit_char :: "nat \<Rightarrow> char" where
  "digit_char d = char_of (48 + d)"

definition digit_val :: "char \<Rightarrow> nat" where
  "digit_val c = code_of c - 48"

fun dec :: "nat \<Rightarrow> string" where
  "dec n = (if n < 10 then [digit_char n] else dec (n div 10) @ [digit_char (n mod 10)])"

declare dec.simps [simp del]

definition digits_val :: "string \<Rightarrow> nat" where
  "digits_val = foldl (\<lambda>n c. 10 * n + digit_val c) 0"

text \<open>
  Parsing an unsigned integer of the given width: a sign is optional, there is at least one
  digit and nothing else, and the value fits.
\<close>

definition parse_uint :: "nat \<Rightarrow> string \<Rightarrow> nat option" where
  "parse_uint bits s =
    (let ds = (case s of c # r \<Rightarrow> if c = CHR ''+'' then r else s | [] \<Rightarrow> s) in
     if ds = [] \<or> \<not> list_all ascii_digit ds \<or> 2 ^ bits \<le> digits_val ds then None
     else Some (digits_val ds))"

lemma digit_char [simp]:
  assumes "d < 10"
  shows "digit_val (digit_char d) = d" "ascii_digit (digit_char d)" "digit_char d \<noteq> CHR ''+''"
proof -
  have c: "code_of (digit_char d) = 48 + d"
    using assms by (simp add: code_of_def digit_char_def)
  then show "digit_val (digit_char d) = d" "ascii_digit (digit_char d)"
    using assms by (simp_all add: digit_val_def ascii_digit_def)
  have "code_of (CHR ''+'') = 43" by (simp add: code_of_def)
  then show "digit_char d \<noteq> CHR ''+''" using c by auto
qed

lemma dec_props: "dec n \<noteq> [] \<and> list_all ascii_digit (dec n) \<and> digits_val (dec n) = n \<and> hd (dec n) \<noteq> CHR ''+''"
proof (induction n rule: dec.induct)
  case (1 n)
  show ?case
  proof (cases "n < 10")
    case True
    then show ?thesis by (simp add: dec.simps[of n] digits_val_def)
  next
    case False
    then show ?thesis using 1 by (simp add: dec.simps[of n] digits_val_def)
  qed
qed

lemma parse_dec: "n < 2 ^ bits \<Longrightarrow> parse_uint bits (dec n) = Some n"
  using dec_props[of n] by (cases "dec n") (auto simp: parse_uint_def)

lemma parse_uint_bound: "parse_uint bits s = Some n \<Longrightarrow> n < 2 ^ bits"
  by (auto simp: parse_uint_def Let_def split: if_splits)

text \<open>\<open>Path::join\<close>: an absolute second path replaces the first.\<close>

definition path_join :: "string \<Rightarrow> string \<Rightarrow> string" where
  "path_join dir p =
    (if p \<noteq> [] \<and> hd p = CHR ''/'' then p
     else if dir = [] then p
     else if last dir = CHR ''/'' then dir @ p
     else dir @ ''/'' @ p)"

end
