(* ===== verification/Dns_Registry.thy ===== *)
theory Dns_Registry
  imports Ip_Alloc Rust_Str
begin

text \<open>
  Name resolution for virtual machines: the registry of
  \<^verbatim>\<open>visor-runtime/src/net/dns.rs\<close> and the request handler of
  \<^verbatim>\<open>visor-runtime/src/net/server.rs\<close>.  The two hash maps of the registry are
  partial maps, and the upstream resolver is a parameter of the handler.
\<close>

section \<open>The registry\<close>

record dns_registry =
  forward :: "string \<rightharpoonup> u32"
  reverse_map :: "u32 \<rightharpoonup> string"

definition dns_new :: dns_registry where
  "dns_new = \<lparr> forward = Map.empty, reverse_map = Map.empty \<rparr>"

definition dns_register :: "dns_registry \<Rightarrow> string \<Rightarrow> u32 \<Rightarrow> dns_registry" where
  "dns_register d name ip =
    (let lower = to_lowercase name;
         rev = (case forward d lower of Some old \<Rightarrow> (reverse_map d)(old := None)
                | None \<Rightarrow> reverse_map d)
     in \<lparr> forward = (forward d)(lower \<mapsto> ip), reverse_map = rev(ip \<mapsto> lower) \<rparr>)"

definition dns_unregister :: "dns_registry \<Rightarrow> string \<Rightarrow> dns_registry" where
  "dns_unregister d name =
    (let lower = to_lowercase name in
     case forward d lower of
       Some ip \<Rightarrow> \<lparr> forward = (forward d)(lower := None), reverse_map = (reverse_map d)(ip := None) \<rparr>
     | None \<Rightarrow> d)"

definition resolve :: "dns_registry \<Rightarrow> string \<Rightarrow> u32 option" where
  "resolve d name = forward d (to_lowercase name)"

definition reverse_lookup :: "dns_registry \<Rightarrow> u32 \<Rightarrow> string option" where
  "reverse_lookup d ip = reverse_map d ip"

definition dns_count :: "dns_registry \<Rightarrow> nat" where
  "dns_count d = card (dom (forward d))"

section \<open>The request handler\<close>

datatype message_type = Query | Response

datatype op_code = OpQuery | OpOther

record dns_request =
  message_kind :: message_type
  request_op :: op_code
  queries :: "(string \<times> nat) list"

datatype 'l dns_response =
    Refused
  | FormErr
  | Authoritative string u32 u32
  | Forwarded 'l
  | NXDomain

definition VM_DOMAIN_SUFFIX :: string where
  "VM_DOMAIN_SUFFIX = ''.visor.''"

definition RECORD_TTL :: u32 where
  "RECORD_TTL = 60"

definition forward_upstream ::
  "(string \<Rightarrow> nat \<Rightarrow> ('l, 'e) result) \<Rightarrow> string \<Rightarrow> nat \<Rightarrow> 'l dns_response" where
  "forward_upstream lookup name qtype =
    (case lookup name qtype of Ok l \<Rightarrow> Forwarded l | Err e \<Rightarrow> NXDomain)"

definition handle_request ::
  "(string \<Rightarrow> nat \<Rightarrow> ('l, 'e) result) \<Rightarrow> dns_registry \<Rightarrow> dns_request \<Rightarrow> 'l dns_response" where
  "handle_request lookup d req =
    (if message_kind req \<noteq> Query \<or> request_op req \<noteq> OpQuery then Refused
     else case queries req of
       [] \<Rightarrow> FormErr
     | (name, qtype) # rest \<Rightarrow>
         (case strip_suffix VM_DOMAIN_SUFFIX name of
            Some vm_name \<Rightarrow>
              (case resolve d vm_name of
                 Some ip \<Rightarrow> Authoritative name RECORD_TTL ip
               | None \<Rightarrow> forward_upstream lookup name qtype)
          | None \<Rightarrow> forward_upstream lookup name qtype))"

section \<open>The two tables agree\<close>

inductive dns_run :: "bool \<Rightarrow> dns_registry \<Rightarrow> bool" for exclusive where
  dns_run_new: "dns_run exclusive dns_new"
| dns_run_register: "dns_run exclusive d \<Longrightarrow>
    exclusive \<longrightarrow> (\<forall>m. forward d m = Some ip \<longrightarrow> m = to_lowercase name) \<Longrightarrow>
    dns_run exclusive (dns_register d name ip)"
| dns_run_unregister: "dns_run exclusive d \<Longrightarrow> dns_run exclusive (dns_unregister d name)"

definition reverse_sound :: "dns_registry \<Rightarrow> bool" where
  "reverse_sound d \<longleftrightarrow> (\<forall>ip n. reverse_map d ip = Some n \<longrightarrow> forward d n = Some ip)"

definition reverse_complete :: "dns_registry \<Rightarrow> bool" where
  "reverse_complete d \<longleftrightarrow> (\<forall>ip n. forward d n = Some ip \<longrightarrow> reverse_map d ip = Some n)"

lemma dns_new_sound: "reverse_sound dns_new" "reverse_complete dns_new"
  by (simp_all add: dns_new_def reverse_sound_def reverse_complete_def)

lemma dns_register_sound: "reverse_sound d \<Longrightarrow> reverse_sound (dns_register d name ip)"
  by (auto simp: reverse_sound_def dns_register_def Let_def split: option.splits if_splits)

lemma dns_unregister_sound: "reverse_sound d \<Longrightarrow> reverse_sound (dns_unregister d name)"
  by (auto simp: reverse_sound_def dns_unregister_def Let_def split: option.splits if_splits)

lemma reverse_complete_inj:
  "reverse_complete d \<Longrightarrow> forward d m = Some ip \<Longrightarrow> forward d n = Some ip \<Longrightarrow> m = n"
  by (simp add: reverse_complete_def) (metis option.inject)

lemma dns_register_complete:
  assumes "reverse_complete d" "\<forall>m. forward d m = Some ip \<longrightarrow> m = to_lowercase name"
  shows "reverse_complete (dns_register d name ip)"
  unfolding reverse_complete_def
proof (intro allI impI)
  fix i n assume fwd: "forward (dns_register d name ip) n = Some i"
  show "reverse_map (dns_register d name ip) i = Some n"
  proof (cases "n = to_lowercase name")
    case True
    then show ?thesis using fwd by (simp add: dns_register_def Let_def)
  next
    case False
    then have old: "forward d n = Some i" using fwd by (simp add: dns_register_def Let_def)
    have "i \<noteq> ip" using assms(2) old False by blast
    moreover have "reverse_map d i = Some n" using assms(1) old by (simp add: reverse_complete_def)
    moreover have "forward d (to_lowercase name) \<noteq> Some i"
      using reverse_complete_inj[OF assms(1) old] False by blast
    ultimately show ?thesis by (auto simp: dns_register_def Let_def split: option.split)
  qed
qed

lemma dns_unregister_complete:
  assumes "reverse_complete d"
  shows "reverse_complete (dns_unregister d name)"
proof (cases "forward d (to_lowercase name)")
  case None
  then show ?thesis using assms by (simp add: dns_unregister_def)
next
  case (Some ip)
  then have other: "forward d n \<noteq> Some ip" if "n \<noteq> to_lowercase name" for n
    using reverse_complete_inj[OF assms _ Some] that by blast
  show ?thesis
    unfolding reverse_complete_def
  proof (intro allI impI)
    fix i n assume "forward (dns_unregister d name) n = Some i"
    then have "n \<noteq> to_lowercase name" "forward d n = Some i"
      using Some by (simp_all add: dns_unregister_def split: if_splits)
    then show "reverse_map (dns_unregister d name) i = Some n"
      using other[of n] Some assms by (auto simp: dns_unregister_def reverse_complete_def)
  qed
qed

lemma dns_run_lower: "dns_run exclusive d \<Longrightarrow> \<forall>n ip. forward d n = Some ip \<longrightarrow> to_lowercase n = n"
  by (induction rule: dns_run.induct)
    (auto simp: dns_new_def dns_register_def dns_unregister_def Let_def split: option.splits if_splits)

lemma dns_run_tables:
  assumes "dns_run exclusive d"
  shows "reverse_sound d \<and> (exclusive \<longrightarrow> reverse_complete d)"
  using assms
  by induction
    (auto simp: dns_new_sound dns_register_sound dns_unregister_sound
      dns_register_complete dns_unregister_complete)


text \<open>
  C21. The registry never names a wrong machine.  After any sequence of registrations and
  removals, in any letter case, a reverse lookup that answers gives a name that resolves to
  the very address asked for; and as long as no address is registered under two names at a
  time, every name that resolves is also found from its address.  A query for
  \<^verbatim>\<open>name.visor.\<close> is answered by the registry's address exactly when the name is
  registered, and is otherwise the upstream resolver's.
\<close>

theorem dns_registry_exact:
  assumes "dns_run exclusive d"
  shows "(\<forall>ip n. reverse_lookup d ip = Some n \<longrightarrow> resolve d n = Some ip) \<and>
    (exclusive \<longrightarrow> (\<forall>n ip. resolve d n = Some ip \<longrightarrow> reverse_lookup d ip = Some (to_lowercase n))) \<and>
    (\<forall>req lookup n t qs. message_kind req = Query \<longrightarrow> request_op req = OpQuery \<longrightarrow>
       queries req = (n @ VM_DOMAIN_SUFFIX, t) # qs \<longrightarrow>
       handle_request lookup d req =
         (case resolve d n of
            Some ip \<Rightarrow> Authoritative (n @ VM_DOMAIN_SUFFIX) 60 ip
          | None \<Rightarrow> (case lookup (n @ VM_DOMAIN_SUFFIX) t of Ok l \<Rightarrow> Forwarded l | Err e \<Rightarrow> NXDomain)))"
proof (intro conjI)
  note tables = dns_run_tables[OF assms]
  have lower: "to_lowercase n = n" if "forward d n = Some ip" for n ip
    using dns_run_lower[OF assms] that by blast
  show "\<forall>ip n. reverse_lookup d ip = Some n \<longrightarrow> resolve d n = Some ip"
    using tables lower by (simp add: reverse_sound_def reverse_lookup_def resolve_def)
  show "exclusive \<longrightarrow> (\<forall>n ip. resolve d n = Some ip \<longrightarrow> reverse_lookup d ip = Some (to_lowercase n))"
    using tables by (simp add: reverse_complete_def reverse_lookup_def resolve_def)
qed (auto simp: handle_request_def forward_upstream_def RECORD_TTL_def split: option.split)

theorem dns_registry_exact_witness:
  "dns_run True (dns_register dns_new ''Web'' DEFAULT_GATEWAY) \<and>
   reverse_lookup (dns_register dns_new ''Web'' DEFAULT_GATEWAY) DEFAULT_GATEWAY = Some ''web''"
proof -
  have "dns_run True (dns_register dns_new ''Web'' DEFAULT_GATEWAY)"
    by (intro dns_run_register dns_run_new) (simp add: dns_new_def)
  moreover have "to_lowercase ''Web'' = ''web''" "to_lowercase ''web'' = ''web''" by code_simp+
  moreover from this
  have "resolve (dns_register dns_new ''Web'' DEFAULT_GATEWAY) ''web'' = Some DEFAULT_GATEWAY"
    by (simp add: resolve_def dns_register_def Let_def)
  ultimately show ?thesis
    using dns_registry_exact[of True "dns_register dns_new ''Web'' DEFAULT_GATEWAY"] by metis
qed

text \<open>
  When two names share an address, removing one of them also removes the reverse entry of
  the other.
\<close>

lemma shared_address_forgotten:
  assumes "to_lowercase m \<noteq> to_lowercase n"
  shows "let d = dns_unregister (dns_register (dns_register dns_new m ip) n ip) m in
    resolve d n = Some ip \<and> reverse_lookup d ip = None"
  using assms
  by (simp add: resolve_def reverse_lookup_def dns_register_def dns_unregister_def dns_new_def
      Let_def)

text \<open>
  The suffix is compared in the letter case of the query, so a registered machine asked for
  under the domain in capitals is not found; and the type of the query is not looked at, so
  a registered name is answered by an address record whatever was asked.
\<close>

lemma domain_suffix_case_sensitive:
  "handle_request lookup d \<lparr> message_kind = Query, request_op = OpQuery,
     queries = [(n @ ''.VISOR.'', t)] \<rparr> = forward_upstream lookup (n @ ''.VISOR.'') t"
proof -
  have "strip_suffix VM_DOMAIN_SUFFIX (n @ ''.VISOR.'') = None"
    by (simp add: strip_suffix_def VM_DOMAIN_SUFFIX_def)
  then show ?thesis by (simp add: handle_request_def)
qed

end
