(* ===== verification/Virtual_Switch.thy ===== *)
theory Virtual_Switch
  imports Visor_Prelude
begin

text \<open>
  The routing tables of a virtual network (\<^verbatim>\<open>visor-runtime/src/net/switch.rs\<close>):
  ports are found by hardware address, by IP address and by machine.  The hash maps are
  partial maps; the standard library's hasher, which \<^verbatim>\<open>MacAddr::generate\<close>
  uses, is a parameter.
\<close>

unbundle bit_operations_syntax

section \<open>Hardware addresses\<close>

record mac_addr =
  octets :: "u8 list"

definition mac_generate :: "(string \<Rightarrow> u32 \<Rightarrow> u64) \<Rightarrow> string \<Rightarrow> u32 \<Rightarrow> mac_addr" where
  "mac_generate hash network_name vm_index =
    (let os = take 6 (le_bytes 8 (hash network_name vm_index))
     in \<lparr> octets = os[0 := (os ! 0 OR 0x02) AND 0xFE] \<rparr>)"

text \<open>
  Generated addresses are well formed, individual (the multicast bit is clear) and locally
  administered, whatever the hash.
\<close>

lemma mac_generate_local_unicast:
  "length (octets (mac_generate hash n i)) = 6 \<and>
   \<not> bit (octets (mac_generate hash n i) ! 0) 0 \<and> bit (octets (mac_generate hash n i) ! 0) 1"
  by (simp add: mac_generate_def Let_def bit_simps le_eval)

section \<open>The switch\<close>

record vm_net_port =
  port_vm_id :: string
  port_mac :: mac_addr
  port_ip :: u32

datatype switch_error = MacTaken mac_addr | IpTaken u32 | MacUnknown mac_addr

record virtual_switch =
  sw_name :: string
  sw_subnet_base :: u32
  sw_subnet_prefix :: u8
  sw_gateway :: u32
  mac_table :: "mac_addr \<rightharpoonup> vm_net_port"
  ip_table :: "u32 \<rightharpoonup> mac_addr"
  vm_table :: "string \<rightharpoonup> mac_addr"

definition switch_new :: "string \<Rightarrow> u32 \<Rightarrow> u8 \<Rightarrow> u32 \<Rightarrow> virtual_switch" where
  "switch_new name base prefix gateway =
    \<lparr> sw_name = name, sw_subnet_base = base, sw_subnet_prefix = prefix, sw_gateway = gateway,
      mac_table = Map.empty, ip_table = Map.empty, vm_table = Map.empty \<rparr>"

definition register_port ::
  "virtual_switch \<Rightarrow> string \<Rightarrow> mac_addr \<Rightarrow> u32 \<Rightarrow> (unit, switch_error) result \<times> virtual_switch" where
  "register_port sw vm mac ip =
    (if mac_table sw mac \<noteq> None then (Err (MacTaken mac), sw)
     else if ip_table sw ip \<noteq> None then (Err (IpTaken ip), sw)
     else (Ok (), sw\<lparr>
       mac_table := (mac_table sw)(mac \<mapsto> \<lparr>port_vm_id = vm, port_mac = mac, port_ip = ip\<rparr>),
       ip_table := (ip_table sw)(ip \<mapsto> mac),
       vm_table := (vm_table sw)(vm \<mapsto> mac)\<rparr>))"

definition unregister_port ::
  "virtual_switch \<Rightarrow> mac_addr \<Rightarrow> (unit, switch_error) result \<times> virtual_switch" where
  "unregister_port sw mac = (case mac_table sw mac of
     None \<Rightarrow> (Err (MacUnknown mac), sw)
   | Some port \<Rightarrow> (Ok (), sw\<lparr>
       mac_table := (mac_table sw)(mac := None),
       ip_table := (ip_table sw)(port_ip port := None),
       vm_table := (vm_table sw)(port_vm_id port := None)\<rparr>))"

definition port_count :: "virtual_switch \<Rightarrow> nat" where
  "port_count sw = card (dom (mac_table sw))"

definition has_port :: "virtual_switch \<Rightarrow> mac_addr \<Rightarrow> bool" where
  "has_port sw mac = (mac_table sw mac \<noteq> None)"

definition lookup_mac :: "virtual_switch \<Rightarrow> mac_addr \<Rightarrow> vm_net_port option" where
  "lookup_mac sw mac = mac_table sw mac"

definition lookup_ip :: "virtual_switch \<Rightarrow> u32 \<Rightarrow> vm_net_port option" where
  "lookup_ip sw ip = Option.bind (ip_table sw ip) (mac_table sw)"

definition lookup_vm :: "virtual_switch \<Rightarrow> string \<Rightarrow> vm_net_port option" where
  "lookup_vm sw vm = Option.bind (vm_table sw vm) (mac_table sw)"

section \<open>The tables agree\<close>

definition switch_inv :: "virtual_switch \<Rightarrow> bool" where
  "switch_inv sw \<longleftrightarrow>
    (\<forall>mac port. mac_table sw mac = Some port \<longrightarrow>
       port_mac port = mac \<and> ip_table sw (port_ip port) = Some mac) \<and>
    (\<forall>ip mac. ip_table sw ip = Some mac \<longrightarrow>
       (\<exists>port. mac_table sw mac = Some port \<and> port_ip port = ip)) \<and>
    (\<forall>vm mac. vm_table sw vm = Some mac \<longrightarrow>
       (\<exists>port. mac_table sw mac = Some port \<and> port_vm_id port = vm))"

definition vm_complete :: "virtual_switch \<Rightarrow> bool" where
  "vm_complete sw \<longleftrightarrow>
    (\<forall>mac port. mac_table sw mac = Some port \<longrightarrow> vm_table sw (port_vm_id port) = Some mac)"

text \<open>
  A switch under any sequence of calls; with \<^term>\<open>once\<close> set, no machine is given a
  second port while it has one.
\<close>

inductive switch_run :: "bool \<Rightarrow> virtual_switch \<Rightarrow> bool" for once where
  switch_run_new: "switch_run once (switch_new n b p g)"
| switch_run_register: "switch_run once sw \<Longrightarrow>
    once \<longrightarrow> (\<forall>m port. mac_table sw m = Some port \<longrightarrow> port_vm_id port \<noteq> vm) \<Longrightarrow>
    switch_run once (snd (register_port sw vm mac ip))"
| switch_run_unregister: "switch_run once sw \<Longrightarrow> switch_run once (snd (unregister_port sw mac))"

lemma switch_new_inv: "switch_inv (switch_new n b p g)" "vm_complete (switch_new n b p g)"
  by (simp_all add: switch_new_def switch_inv_def vm_complete_def)

lemma register_port_inv: "switch_inv sw \<Longrightarrow> switch_inv (snd (register_port sw vm mac ip))"
  unfolding switch_inv_def register_port_def by (auto; fastforce)

lemma unregister_port_inv:
  assumes "switch_inv sw"
  shows "switch_inv (snd (unregister_port sw mac))"
proof (cases "mac_table sw mac")
  case None
  then show ?thesis using assms by (simp add: unregister_port_def)
next
  case (Some port)
  have "port_ip port' \<noteq> port_ip port" if "mac_table sw m = Some port'" "m \<noteq> mac" for m port'
    using assms Some that unfolding switch_inv_def by (metis option.inject)
  then show ?thesis
    using assms Some unfolding switch_inv_def unregister_port_def by (auto; fastforce)
qed

lemma register_port_complete:
  assumes "vm_complete sw" "\<forall>m port. mac_table sw m = Some port \<longrightarrow> port_vm_id port \<noteq> vm"
  shows "vm_complete (snd (register_port sw vm mac ip))"
  using assms unfolding vm_complete_def register_port_def by auto

lemma unregister_port_complete:
  assumes "vm_complete sw"
  shows "vm_complete (snd (unregister_port sw mac))"
proof (cases "mac_table sw mac")
  case None
  then show ?thesis using assms by (simp add: unregister_port_def)
next
  case (Some port)
  have "port_vm_id port' \<noteq> port_vm_id port" if "mac_table sw m = Some port'" "m \<noteq> mac" for m port'
    using assms Some that unfolding vm_complete_def by (metis option.inject)
  then show ?thesis
    using assms Some unfolding vm_complete_def unregister_port_def by auto
qed

lemma switch_run_inv:
  assumes "switch_run once sw"
  shows "switch_inv sw \<and> (once \<longrightarrow> vm_complete sw)"
  using assms
  by induction
    (auto simp: switch_new_inv register_port_inv unregister_port_inv register_port_complete
      unregister_port_complete)

lemma switch_inv_facts:
  assumes "switch_inv sw"
  shows "lookup_mac sw mac = Some port \<Longrightarrow> port_mac port = mac"
    and "lookup_mac sw mac = Some port \<Longrightarrow> ip_table sw (port_ip port) = Some mac"
    and "ip_table sw ip = Some mac \<Longrightarrow> \<exists>port. lookup_mac sw mac = Some port \<and> port_ip port = ip"
    and "vm_table sw vm = Some mac \<Longrightarrow> \<exists>port. lookup_mac sw mac = Some port \<and> port_vm_id port = vm"
  using assms by (auto simp: switch_inv_def lookup_mac_def)

text \<open>
  C20. The three lookup tables of a network always agree.  After any sequence of
  registrations and removals a port found by hardware address carries that address, a port
  is found by IP address exactly when it is registered under it, no two ports share an IP
  address, and a port found by machine belongs to that machine; if no machine ever gets a
  second port while it has one, every port is found by its machine.
\<close>

theorem switch_tables_agree:
  assumes "switch_run once sw"
  shows "(\<forall>mac port. lookup_mac sw mac = Some port \<longrightarrow> port_mac port = mac) \<and>
    (\<forall>ip port. lookup_ip sw ip = Some port \<longleftrightarrow>
       lookup_mac sw (port_mac port) = Some port \<and> port_ip port = ip) \<and>
    (\<forall>m m' port port'. lookup_mac sw m = Some port \<longrightarrow> lookup_mac sw m' = Some port' \<longrightarrow>
       port_ip port = port_ip port' \<longrightarrow> m = m') \<and>
    (\<forall>vm port. lookup_vm sw vm = Some port \<longrightarrow>
       lookup_mac sw (port_mac port) = Some port \<and> port_vm_id port = vm) \<and>
    (once \<longrightarrow> (\<forall>mac port. lookup_mac sw mac = Some port \<longrightarrow>
       lookup_vm sw (port_vm_id port) = Some port))"
proof -
  have inv: "switch_inv sw" and complete: "once \<longrightarrow> vm_complete sw"
    using switch_run_inv[OF assms] by blast+
  note facts = switch_inv_facts[OF inv]
  have ip: "lookup_ip sw ip = Some port \<longleftrightarrow>
      lookup_mac sw (port_mac port) = Some port \<and> port_ip port = ip" for ip port
  proof
    assume "lookup_ip sw ip = Some port"
    then obtain mac where m: "ip_table sw ip = Some mac" "lookup_mac sw mac = Some port"
      by (auto simp: lookup_ip_def lookup_mac_def bind_eq_Some_conv)
    then show "lookup_mac sw (port_mac port) = Some port \<and> port_ip port = ip"
      using facts(1)[OF m(2)] facts(3)[OF m(1)] by auto
  next
    assume "lookup_mac sw (port_mac port) = Some port \<and> port_ip port = ip"
    then show "lookup_ip sw ip = Some port"
      using facts(2)[of "port_mac port" port] by (auto simp: lookup_ip_def lookup_mac_def)
  qed
  have vm: "lookup_mac sw (port_mac port) = Some port \<and> port_vm_id port = vm"
    if found: "lookup_vm sw vm = Some port" for vm port
  proof -
    obtain mac where m: "vm_table sw vm = Some mac" "lookup_mac sw mac = Some port"
      using found by (auto simp: lookup_vm_def lookup_mac_def bind_eq_Some_conv)
    then show ?thesis using facts(1)[OF m(2)] facts(4)[OF m(1)] by auto
  qed
  have own: "lookup_vm sw (port_vm_id port) = Some port"
    if "once" "lookup_mac sw mac = Some port" for mac port
    using that complete by (simp add: lookup_vm_def lookup_mac_def vm_complete_def)
  have inj: "m = m'" if "lookup_mac sw m = Some port" "lookup_mac sw m' = Some port'"
    "port_ip port = port_ip port'" for m m' port port'
    using facts(2)[OF that(1)] facts(2)[OF that(2)] that(3) by simp
  show ?thesis
    by (intro conjI allI impI ip)
      (erule facts(1), erule (2) inj, erule vm[THEN conjunct1], erule vm[THEN conjunct2], erule (1) own)
qed

theorem switch_tables_agree_witness:
  "let m = \<lparr>octets = [2, 0, 0, 0, 0, 1]\<rparr>;
       sw = snd (register_port (switch_new ''visor0'' 0 24 1) ''vm1'' m 7)
   in switch_run True sw \<and> lookup_vm sw ''vm1'' = lookup_ip sw 7 \<and> lookup_ip sw 7 \<noteq> None"
proof -
  let ?m = "\<lparr>octets = [2, 0, 0, 0, 0, 1]\<rparr> :: mac_addr"
  let ?sw = "snd (register_port (switch_new ''visor0'' 0 24 1) ''vm1'' ?m 7)"
  let ?port = "\<lparr>port_vm_id = ''vm1'', port_mac = ?m, port_ip = 7\<rparr> :: vm_net_port"
  have run: "switch_run True ?sw"
    by (intro switch_run_register switch_run_new) (simp add: switch_new_def)
  have mac: "lookup_mac ?sw ?m = Some ?port"
    by (simp add: register_port_def switch_new_def lookup_mac_def)
  have "lookup_ip ?sw 7 = Some ?port" using switch_tables_agree[OF run] mac by simp
  moreover have "lookup_vm ?sw (port_vm_id ?port) = Some ?port"
    using switch_tables_agree[OF run] mac by blast
  ultimately show ?thesis using run by (simp add: Let_def)
qed

text \<open>
  Registration does not look at the machine: after a machine got a second port and the
  second was removed, the first is still there and no longer found by machine.
\<close>

lemma second_port_hides_first:
  assumes "m \<noteq> m'" "ip \<noteq> ip'"
  shows "let sw = snd (unregister_port (snd (register_port (snd (register_port
           (switch_new n b p g) vm m ip)) vm m' ip')) m')
    in lookup_mac sw m \<noteq> None \<and> lookup_vm sw vm = None"
  using assms
  by (simp add: Let_def unregister_port_def register_port_def switch_new_def lookup_mac_def lookup_vm_def)

end
