(* ===== verification/Image_Reference.thy ===== *)
theory Image_Reference
  imports Rust_Str
begin

text \<open>
  OCI image references (\<^verbatim>\<open>visor-runtime/src/oci/reference.rs\<close>): parsing a
  reference into registry, repository, tag and digest, and printing it in full.
\<close>

section \<open>Parsing and printing\<close>

record image_reference =
  registry :: string
  repository :: string
  tag :: "string option"
  digest :: "string option"

datatype reference_error =
    EmptyReference | InvalidCharacter char | EmptyDigest | EmptyTag | EmptyRepository

definition DEFAULT_REGISTRY :: string where "DEFAULT_REGISTRY = ''docker.io''"
definition DEFAULT_TAG :: string where "DEFAULT_TAG = ''latest''"
definition LIBRARY_PREFIX :: string where "LIBRARY_PREFIX = ''library/''"

definition allowed_char :: "char \<Rightarrow> bool" where
  "allowed_char c \<longleftrightarrow> ascii_alphanumeric c \<or>
     c \<in> {CHR ''.'', CHR ''-'', CHR ''_'', CHR ''/'', CHR '':'', CHR ''@''}"

primrec validate_characters :: "string \<Rightarrow> (unit, reference_error) result" where
  "validate_characters [] = Ok ()"
| "validate_characters (c # cs) =
    (if allowed_char c then validate_characters cs else Err (InvalidCharacter c))"

definition split_name_and_tag :: "string \<Rightarrow> (string \<times> string option, reference_error) result" where
  "split_name_and_tag input = (case str_rfind CHR ''/'' input of
     Some last_slash \<Rightarrow>
       (let after_slash = drop (last_slash + 1) input in
        case str_rfind CHR '':'' after_slash of
          Some colon_in_last \<Rightarrow>
            (let t = drop (colon_in_last + 1) after_slash in
             if t = [] then Err EmptyTag
             else Ok (take (last_slash + 1 + colon_in_last) input, Some t))
        | None \<Rightarrow> Ok (input, None))
   | None \<Rightarrow>
       (case str_rfind CHR '':'' input of
          Some colon_pos \<Rightarrow>
            (let t = drop (colon_pos + 1) input in
             if t = [] then Err EmptyTag else Ok (take colon_pos input, Some t))
        | None \<Rightarrow> Ok (input, None)))"

definition split_reference ::
  "string \<Rightarrow> (string \<times> string option \<times> string option, reference_error) result" where
  "split_reference input =
    (case (case str_rfind CHR ''@'' input of
             Some at_pos \<Rightarrow>
               (let d = drop (at_pos + 1) input in
                if d = [] then Err EmptyDigest else Ok (take at_pos input, Some d))
           | None \<Rightarrow> Ok (input, None)) of
       Err e \<Rightarrow> Err e
     | Ok (before_digest, d) \<Rightarrow>
         (case split_name_and_tag before_digest of
            Err e \<Rightarrow> Err e
          | Ok (name, t) \<Rightarrow> Ok (name, t, d)))"

definition is_registry :: "string \<Rightarrow> bool" where
  "is_registry component \<longleftrightarrow>
     CHR ''.'' \<in> set component \<or> CHR '':'' \<in> set component \<or> component = ''localhost''"

definition split_name :: "string \<Rightarrow> (string \<times> string, reference_error) result" where
  "split_name name = (case str_find CHR ''/'' name of
     Some slash_pos \<Rightarrow>
       (let first_component = take slash_pos name; rest = drop (slash_pos + 1) name in
        if is_registry first_component then
          (if rest = [] then Err EmptyRepository else Ok (first_component, rest))
        else Ok (DEFAULT_REGISTRY, name))
   | None \<Rightarrow> Ok (DEFAULT_REGISTRY, LIBRARY_PREFIX @ name))"

definition parse_reference :: "string \<Rightarrow> (image_reference, reference_error) result" where
  "parse_reference input =
    (if input = [] then Err EmptyReference
     else case validate_characters input of
       Err e \<Rightarrow> Err e
     | Ok _ \<Rightarrow> (case split_reference input of
         Err e \<Rightarrow> Err e
       | Ok (name_part, t, d) \<Rightarrow> (case split_name name_part of
           Err e \<Rightarrow> Err e
         | Ok (reg, repo) \<Rightarrow>
             Ok \<lparr> registry = reg, repository = repo,
                  tag = (if t = None \<and> d = None then Some DEFAULT_TAG else t), digest = d \<rparr>)))"

definition display_reference :: "image_reference \<Rightarrow> string" where
  "display_reference r = registry r @ ''/'' @ repository r @
     (case tag r of Some t \<Rightarrow> '':'' @ t | None \<Rightarrow> []) @
     (case digest r of Some d \<Rightarrow> ''@'' @ d | None \<Rightarrow> [])"

section \<open>What the parser returns\<close>

lemma validate_characters_iff: "validate_characters s = Ok () \<longleftrightarrow> list_all allowed_char s"
  by (induction s) auto

text \<open>The part of a path after its last slash.\<close>

definition last_component :: "string \<Rightarrow> string" where
  "last_component s = rev (takeWhile (\<lambda>c. c \<noteq> CHR ''/'') (rev s))"

lemma last_component_plain: "CHR ''/'' \<notin> set q \<Longrightarrow> last_component q = q"
proof -
  assume "CHR ''/'' \<notin> set q"
  then have "takeWhile (\<lambda>c. c \<noteq> CHR ''/'') (rev q) = rev q" by (auto simp: takeWhile_eq_all_conv)
  then show ?thesis unfolding last_component_def by (simp only: rev_rev_ident)
qed

lemma last_component_slash: "CHR ''/'' \<notin> set q \<Longrightarrow> last_component (p @ CHR ''/'' # q) = q"
  using last_component_plain[of q] by (simp add: last_component_def takeWhile_append)

lemma split_name_and_tag_None:
  "CHR '':'' \<notin> set (last_component s) \<Longrightarrow> split_name_and_tag s = Ok (s, None)"
proof (cases "CHR ''/'' \<in> set s")
  case True
  assume colon: "CHR '':'' \<notin> set (last_component s)"
  obtain p q where s: "s = p @ CHR ''/'' # q" "CHR ''/'' \<notin> set q"
    using split_list_last[OF True] by blast
  then show ?thesis using colon by (simp add: split_name_and_tag_def last_component_slash)
next
  case False
  assume "CHR '':'' \<notin> set (last_component s)"
  then show ?thesis
    using False by (simp add: split_name_and_tag_def last_component_plain split: option.split)
qed

lemma split_name_and_tag_Some:
  assumes "t \<noteq> []" "CHR '':'' \<notin> set t" "CHR ''/'' \<notin> set t"
  shows "split_name_and_tag (name @ CHR '':'' # t) = Ok (name, Some t)"
proof (cases "CHR ''/'' \<in> set name")
  case True
  then obtain p q where n: "name = p @ CHR ''/'' # q" "CHR ''/'' \<notin> set q"
    using split_list_last by metis
  then have "str_rfind CHR ''/'' (p @ CHR ''/'' # (q @ CHR '':'' # t)) = Some (length p)"
    using assms(3) by (intro str_rfind_append) simp
  then show ?thesis using n assms by (simp add: split_name_and_tag_def Let_def)
next
  case False
  then have "str_rfind CHR ''/'' (name @ CHR '':'' # t) = None"
    using assms(3) by simp
  then show ?thesis using assms by (simp add: split_name_and_tag_def Let_def)
qed

text \<open>The converse: how the input is composed of what was split off.\<close>

lemma split_name_and_tag_cases:
  assumes "split_name_and_tag s = Ok (name, t)"
  obtains (none) "t = None" "name = s" "CHR '':'' \<notin> set (last_component s)"
  | (some) u where "t = Some u" "s = name @ CHR '':'' # u" "u \<noteq> []"
      "CHR '':'' \<notin> set u" "CHR ''/'' \<notin> set u"
proof (cases "CHR '':'' \<in> set (last_component s)")
  case False
  then show ?thesis using none assms by (simp add: split_name_and_tag_None)
next
  case True
  define q where "q = last_component s"
  have q: "CHR ''/'' \<notin> set q" "\<exists>p. s = p @ q"
    unfolding q_def last_component_def
    by (auto dest: set_takeWhileD)
      (metis rev_append rev_rev_ident takeWhile_dropWhile_id)
  then obtain p where p: "s = p @ q" by blast
  obtain a u where u: "q = a @ CHR '':'' # u" "CHR '':'' \<notin> set u"
    using True split_list_last unfolding q_def by metis
  have s: "s = (p @ a) @ CHR '':'' # u" "CHR ''/'' \<notin> set u" using p u q(1) by auto
  show ?thesis
  proof (cases "u = []")
    case True
    have "split_name_and_tag s = Err EmptyTag"
    proof (cases "CHR ''/'' \<in> set s")
      case slash: True
      then obtain p' q' where s': "s = p' @ CHR ''/'' # q'" "CHR ''/'' \<notin> set q'"
        using split_list_last by metis
      then have "q' = q" by (simp add: q_def last_component_slash)
      then show ?thesis using s' u True by (simp add: split_name_and_tag_def)
    next
      case False
      then have "s = q" by (simp add: q_def last_component_plain)
      then show ?thesis using False u True by (simp add: split_name_and_tag_def)
    qed
    then show ?thesis using assms by simp
  next
    case False
    then have "split_name_and_tag s = Ok (p @ a, Some u)"
      unfolding s(1) using u(2) s(2) by (rule split_name_and_tag_Some)
    then show ?thesis using some[of u] assms s u(2) False by simp
  qed
qed

section \<open>Well-formed references\<close>

definition ref_chars :: "image_reference \<Rightarrow> string" where
  "ref_chars r = registry r @ repository r @ (case tag r of Some t \<Rightarrow> t | None \<Rightarrow> []) @
     (case digest r of Some d \<Rightarrow> d | None \<Rightarrow> [])"

definition ref_wf :: "image_reference \<Rightarrow> bool" where
  "ref_wf r \<longleftrightarrow>
    is_registry (registry r) \<and> CHR ''/'' \<notin> set (registry r) \<and> repository r \<noteq> [] \<and>
    (case tag r of
       Some t \<Rightarrow> t \<noteq> [] \<and> CHR '':'' \<notin> set t \<and> CHR ''/'' \<notin> set t
     | None \<Rightarrow> digest r \<noteq> None \<and> CHR '':'' \<notin> set (last_component (repository r))) \<and>
    (case digest r of
       Some d \<Rightarrow> d \<noteq> [] \<and> CHR ''@'' \<notin> set d
     | None \<Rightarrow> CHR ''@'' \<notin> set (ref_chars r)) \<and>
    list_all allowed_char (ref_chars r)"

lemma last_component_prefix:
  "last_component (p @ CHR ''/'' # q) = last_component q"
proof (cases "CHR ''/'' \<in> set q")
  case True
  then obtain a b where q: "q = a @ CHR ''/'' # b" "CHR ''/'' \<notin> set b"
    using split_list_last by metis
  then show ?thesis
    using last_component_slash[of b "p @ CHR ''/'' # a"] by (simp add: last_component_slash)
next
  case False
  then show ?thesis by (simp add: last_component_slash last_component_plain)
qed

lemma split_name_registry:
  "is_registry reg \<Longrightarrow> CHR ''/'' \<notin> set reg \<Longrightarrow> repo \<noteq> [] \<Longrightarrow>
   split_name (reg @ CHR ''/'' # repo) = Ok (reg, repo)"
  by (simp add: split_name_def Let_def)

lemma default_registry:
  "is_registry DEFAULT_REGISTRY" "CHR ''/'' \<notin> set DEFAULT_REGISTRY"
  "CHR ''@'' \<notin> set DEFAULT_REGISTRY" "list_all allowed_char DEFAULT_REGISTRY"
  "list_all allowed_char LIBRARY_PREFIX" "CHR ''@'' \<notin> set LIBRARY_PREFIX"
  by (auto simp: DEFAULT_REGISTRY_def LIBRARY_PREFIX_def is_registry_def allowed_char_def
      ascii_alphanumeric_def ascii_alphabetic_def code_of_def)

lemma default_tag:
  "DEFAULT_TAG \<noteq> []" "CHR '':'' \<notin> set DEFAULT_TAG" "CHR ''/'' \<notin> set DEFAULT_TAG"
  "CHR ''@'' \<notin> set DEFAULT_TAG" "list_all allowed_char DEFAULT_TAG"
  by (auto simp: DEFAULT_TAG_def allowed_char_def ascii_alphanumeric_def ascii_alphabetic_def
      code_of_def)

text \<open>Splitting a name gives a registry and a repository made of the name's own characters.\<close>

lemma split_name_result:
  assumes "split_name name = Ok (reg, repo)"
  shows "is_registry reg \<and> CHR ''/'' \<notin> set reg \<and> repo \<noteq> [] \<and>
    last_component repo = last_component name \<and>
    set reg \<union> set repo \<subseteq> set name \<union> set DEFAULT_REGISTRY \<union> set LIBRARY_PREFIX"
proof (cases "str_find CHR ''/'' name")
  case None
  have "last_component (LIBRARY_PREFIX @ name) = last_component name"
    using last_component_prefix[of "''library''" name] by (simp add: LIBRARY_PREFIX_def)
  then show ?thesis
    using assms None default_registry by (auto simp: split_name_def LIBRARY_PREFIX_def)
next
  case (Some i)
  then obtain p q where name: "name = p @ CHR ''/'' # q" "CHR ''/'' \<notin> set p"
    by (rule str_find_SomeE)
  show ?thesis
  proof (cases "is_registry p")
    case True
    then show ?thesis
      using assms name by (auto simp: split_name_def Let_def last_component_prefix split: if_splits)
  next
    case False
    then show ?thesis
      using assms name default_registry by (auto simp: split_name_def Let_def)
  qed
qed

text \<open>Splitting off the digest.\<close>

lemma split_reference_digest:
  assumes "d \<noteq> []" "CHR ''@'' \<notin> set d" "split_name_and_tag b = Ok (name, t)"
  shows "split_reference (b @ CHR ''@'' # d) = Ok (name, t, Some d)"
  using assms by (simp add: split_reference_def Let_def)

lemma split_reference_plain:
  assumes "CHR ''@'' \<notin> set b" "split_name_and_tag b = Ok (name, t)"
  shows "split_reference b = Ok (name, t, None)"
  using assms by (simp add: split_reference_def)

lemma split_reference_cases:
  assumes "split_reference s = Ok (name, t, d)"
  obtains (plain) "d = None" "CHR ''@'' \<notin> set s" "split_name_and_tag s = Ok (name, t)"
  | (digest) b u where "d = Some u" "s = b @ CHR ''@'' # u" "u \<noteq> []" "CHR ''@'' \<notin> set u"
      "split_name_and_tag b = Ok (name, t)"
proof (cases "str_rfind CHR ''@'' s")
  case None
  then show ?thesis
    using plain assms by (auto simp: split_reference_def split: result.splits)
next
  case (Some i)
  then obtain b u where s: "s = b @ CHR ''@'' # u" "CHR ''@'' \<notin> set u" "length b = i"
    by (rule str_rfind_SomeE)
  then show ?thesis
    using digest[of u b] assms by (auto simp: split_reference_def Let_def split: if_splits result.splits)
qed

lemma display_parse:
  assumes "ref_wf r"
  shows "parse_reference (display_reference r) = Ok r"
proof -
  let ?name = "registry r @ CHR ''/'' # repository r"
  let ?b = "?name @ (case tag r of Some t \<Rightarrow> '':'' @ t | None \<Rightarrow> [])"
  have wf: "is_registry (registry r)" "CHR ''/'' \<notin> set (registry r)" "repository r \<noteq> []"
    "list_all allowed_char (ref_chars r)"
    using assms by (simp_all add: ref_wf_def)
  have tag: "split_name_and_tag ?b = Ok (?name, tag r)"
  proof (cases "tag r")
    case None
    then have "CHR '':'' \<notin> set (last_component ?name)"
      using assms by (simp add: ref_wf_def last_component_prefix)
    then show ?thesis using None by (simp add: split_name_and_tag_None)
  next
    case (Some t)
    then show ?thesis
      using assms split_name_and_tag_Some[of t ?name] by (simp add: ref_wf_def)
  qed
  have split: "split_reference (display_reference r) = Ok (?name, tag r, digest r)"
  proof (cases "digest r")
    case None
    then have "CHR ''@'' \<notin> set ?b"
      using assms by (auto simp: ref_wf_def ref_chars_def split: option.splits)
    from split_reference_plain[OF this tag] None show ?thesis by (simp add: display_reference_def)
  next
    case (Some d)
    then have "d \<noteq> []" "CHR ''@'' \<notin> set d" using assms by (simp_all add: ref_wf_def)
    from split_reference_digest[OF this tag] Some show ?thesis by (simp add: display_reference_def)
  qed
  have "list_all allowed_char (display_reference r)"
    using wf(4) by (auto simp: display_reference_def ref_chars_def allowed_char_def split: option.splits)
  moreover have "tag r \<noteq> None \<or> digest r \<noteq> None"
    using assms by (auto simp: ref_wf_def split: option.splits)
  ultimately show ?thesis
    using split split_name_registry[OF wf(1-3)]
    by (auto simp: parse_reference_def validate_characters_iff[THEN iffD2] display_reference_def)
qed

lemma parse_wf:
  assumes "parse_reference s = Ok r"
  shows "ref_wf r"
proof -
  have chars: "list_all allowed_char s"
    using assms validate_characters_iff[of s]
    by (auto simp: parse_reference_def split: if_splits result.splits)
  obtain name t d where sp: "split_reference s = Ok (name, t, d)"
    and nm: "split_name name = Ok (registry r, repository r)"
    and r: "tag r = (if t = None \<and> d = None then Some DEFAULT_TAG else t)" "digest r = d"
    using assms by (auto simp: parse_reference_def split: if_splits result.splits)
  note name = split_name_result[OF nm]
  have parts: "set name \<union> (case t of Some u \<Rightarrow> set u | None \<Rightarrow> {}) \<union> (case d of Some u \<Rightarrow> set u | None \<Rightarrow> {}) \<subseteq> set s
      \<and> (case t of Some u \<Rightarrow> u \<noteq> [] \<and> CHR '':'' \<notin> set u \<and> CHR ''/'' \<notin> set u
         | None \<Rightarrow> CHR '':'' \<notin> set (last_component name))
      \<and> (case d of Some u \<Rightarrow> u \<noteq> [] \<and> CHR ''@'' \<notin> set u | None \<Rightarrow> CHR ''@'' \<notin> set s)"
    using sp
  proof (cases rule: split_reference_cases)
    case plain
    from plain(3) show ?thesis
      by (cases rule: split_name_and_tag_cases) (use plain in auto)
  next
    case (digest b u)
    from digest(5) show ?thesis
      by (cases rule: split_name_and_tag_cases) (use digest in auto)
  qed
  have all: "set (ref_chars r) \<subseteq> set s \<union> set DEFAULT_REGISTRY \<union> set LIBRARY_PREFIX \<union> set DEFAULT_TAG"
    using name parts r by (auto simp: ref_chars_def split: option.splits if_splits)
  then have "list_all allowed_char (ref_chars r)"
    using chars default_registry default_tag by (auto simp: list_all_iff)
  moreover have "CHR ''@'' \<notin> set (ref_chars r)" if "d = None"
    using all parts that default_registry default_tag by auto
  ultimately show ?thesis
    using name parts r default_tag by (auto simp: ref_wf_def split: option.splits)
qed

text \<open>
  C26. Parsing and printing image references are inverse to each other.  The references the
  parser can return are exactly the well-formed ones (a registry host, a repository, a tag
  or a digest, with no separator where it would be read back differently); printing one in
  full and parsing it again gives it back, with no default added a second time; and two
  references that print alike are the same.
\<close>

theorem image_reference_roundtrip:
  "(ref_wf r \<longleftrightarrow> (\<exists>s. parse_reference s = Ok r)) \<and>
   (ref_wf r \<longrightarrow> parse_reference (display_reference r) = Ok r) \<and>
   (ref_wf r \<and> ref_wf r' \<and> display_reference r = display_reference r' \<longrightarrow> r = r')"
proof (intro conjI impI iffI)
  assume eq: "ref_wf r \<and> ref_wf r' \<and> display_reference r = display_reference r'"
  have "parse_reference (display_reference r) = Ok r" by (rule display_parse) (use eq in blast)
  moreover have "parse_reference (display_reference r') = Ok r'"
    by (rule display_parse) (use eq in blast)
  moreover have "display_reference r = display_reference r'" using eq by blast
  ultimately show "r = r'" by (metis result.inject(1))
next
  assume "ref_wf r"
  then show "parse_reference (display_reference r) = Ok r" by (rule display_parse)
  then show "\<exists>s. parse_reference s = Ok r" by (rule exI)
next
  assume "\<exists>s. parse_reference s = Ok r"
  then show "ref_wf r" by (elim exE) (rule parse_wf)
qed

definition alpine :: image_reference where
  "alpine = \<lparr> registry = ''docker.io'', repository = ''library/alpine'', tag = Some ''3.20'',
             digest = None \<rparr>"

lemma parse_alpine: "parse_reference ''alpine:3.20'' = Ok alpine"
  by code_simp

theorem image_reference_roundtrip_witness:
  "ref_wf alpine \<and> parse_reference (display_reference alpine) = Ok alpine \<and>
   display_reference alpine = ''docker.io/library/alpine:3.20''"
proof -
  have "display_reference alpine = ''docker.io/library/alpine:3.20''"
    by (simp add: display_reference_def alpine_def)
  moreover have wf: "ref_wf alpine"
    using parse_alpine by (intro image_reference_roundtrip[THEN conjunct1, THEN iffD2] exI)
  moreover have "parse_reference (display_reference alpine) = Ok alpine"
    using wf by (rule image_reference_roundtrip[THEN conjunct2, THEN conjunct1, THEN mp])
  ultimately show ?thesis by (intro conjI)
qed

text \<open>
  The name itself may be empty: a reference that is only a tag or only a digest is taken for
  a repository of the default registry.
\<close>

lemma empty_name_accepted:
  "\<exists>r. parse_reference '':3'' = Ok r \<and> repository r = ''library/''"
  "\<exists>r. parse_reference ''@sha256:0'' = Ok r \<and> repository r = ''library/''"
  by (simp_all add: parse_reference_def split_reference_def split_name_and_tag_def split_name_def
      allowed_char_def ascii_alphanumeric_def ascii_alphabetic_def ascii_digit_def code_of_def
      LIBRARY_PREFIX_def)

end
