(* ===== verification/Dependency_Sort.thy ===== *)
theory Dependency_Sort
  imports Rust_Str "HOL-Library.List_Lexorder" "HOL-Library.Char_ord"
begin

text \<open>
  The start order of the services of a compose project
  (\<^verbatim>\<open>dependency_sort\<close> of
  \<^verbatim>\<open>visor-runtime/src/compose/orchestrator.rs\<close>, over the types of
  \<^verbatim>\<open>compose/types.rs\<close>).  A hash map that is iterated over is an association list
  in the order of the iteration, with distinct keys; a hash map that is only looked up is a
  partial map.  The loop of Kahn's algorithm is a partial function; that it ends is part of
  the theorem.
\<close>

section \<open>Services\<close>

datatype compose_environment = EnvEmpty | EnvList "string list" | EnvMap "(string \<times> string) list"

datatype compose_port = PortShort string | PortLong u16 "u16 option" "string option"

record depends_on_condition =
  condition :: "string option"

datatype compose_depends_on =
    DepsEmpty
  | DepsSimple "string list"
  | DepsExtended "(string \<times> depends_on_condition) list"

text \<open>The CPU limit is a 64-bit float that nothing computes with; it is kept as its bits.\<close>

record compose_service =
  cs_image :: string
  cs_command :: "string list option"
  cs_environment :: compose_environment
  cs_ports :: "compose_port list"
  cs_volumes :: "string list"
  cs_depends_on :: compose_depends_on
  cs_networks :: "string list"
  cs_mem_limit :: "string option"
  cs_cpus :: "u64 option"
  cs_hostname :: "string option"
  cs_working_dir :: "string option"
  cs_labels :: "(string \<times> string) list"

type_synonym services = "(string \<times> compose_service) list"

definition extract_dependency_names :: "compose_depends_on \<Rightarrow> string list" where
  "extract_dependency_names d = (case d of
     DepsEmpty \<Rightarrow> [] | DepsSimple names \<Rightarrow> names | DepsExtended m \<Rightarrow> map fst m)"

section \<open>Kahn's algorithm\<close>

datatype compose_error =
    UndefinedDependency string string
  | DependencyCycle

primrec add_deps ::
  "string list \<Rightarrow> string \<Rightarrow> string list \<Rightarrow> (string \<rightharpoonup> nat) \<Rightarrow> (string \<rightharpoonup> string list) \<Rightarrow>
     ((string \<rightharpoonup> nat) \<times> (string \<rightharpoonup> string list), compose_error) result" where
  "add_deps names name [] in_degree dependents = Ok (in_degree, dependents)"
| "add_deps names name (dep # deps) in_degree dependents =
    (if dep \<notin> set names then Err (UndefinedDependency name dep)
     else add_deps names name deps
       (in_degree(name \<mapsto> (case in_degree name of None \<Rightarrow> 0 | Some n \<Rightarrow> n) + 1))
       (dependents(dep \<mapsto> (case dependents dep of None \<Rightarrow> [] | Some l \<Rightarrow> l) @ [name])))"

primrec add_services ::
  "string list \<Rightarrow> services \<Rightarrow> (string \<rightharpoonup> nat) \<Rightarrow> (string \<rightharpoonup> string list) \<Rightarrow>
     ((string \<rightharpoonup> nat) \<times> (string \<rightharpoonup> string list), compose_error) result" where
  "add_services names [] in_degree dependents = Ok (in_degree, dependents)"
| "add_services names (s # ss) in_degree dependents =
    (case add_deps names (fst s) (extract_dependency_names (cs_depends_on (snd s))) in_degree dependents of
       Err e \<Rightarrow> Err e
     | Ok (in_degree', dependents') \<Rightarrow> add_services names ss in_degree' dependents')"

primrec release_dependents ::
  "string list \<Rightarrow> (string \<rightharpoonup> nat) \<Rightarrow> string list \<Rightarrow> (string \<rightharpoonup> nat) \<times> string list" where
  "release_dependents [] in_degree next_ready = (in_degree, next_ready)"
| "release_dependents (dep # deps) in_degree next_ready = (case in_degree dep of
     None \<Rightarrow> release_dependents deps in_degree next_ready
   | Some deg \<Rightarrow> release_dependents deps (in_degree(dep \<mapsto> deg - 1))
       (if deg - 1 = 0 then next_ready @ [dep] else next_ready))"

partial_function (option) kahn_loop ::
  "(string \<rightharpoonup> string list) \<Rightarrow> string list \<Rightarrow> (string \<rightharpoonup> nat) \<Rightarrow> string list \<Rightarrow> string list option" where
  "kahn_loop dependents queue in_degree result = (case queue of
     [] \<Rightarrow> Some result
   | name # rest \<Rightarrow>
       (case dependents name of
          None \<Rightarrow> kahn_loop dependents rest in_degree (result @ [name])
        | Some deps \<Rightarrow>
            (case release_dependents deps in_degree [] of
               (in_degree', next_ready) \<Rightarrow>
                 kahn_loop dependents (rest @ sort next_ready) in_degree' (result @ [name]))))"

definition dependency_sort :: "services \<Rightarrow> (string list, compose_error) result option" where
  "dependency_sort services =
    (if services = [] then Some (Ok [])
     else let names = map fst services in
       case add_services names services (map_of (map (\<lambda>n. (n, 0)) names)) Map.empty of
         Err e \<Rightarrow> Some (Err e)
       | Ok (in_degree, dependents) \<Rightarrow>
           (let seeds = sort (filter (\<lambda>n. in_degree n = Some 0) names) in
            case kahn_loop dependents seeds in_degree [] of
              None \<Rightarrow> None
            | Some result \<Rightarrow>
                if length result = length services then Some (Ok result)
                else Some (Err DependencyCycle)))"

section \<open>The tables built from the services\<close>

definition dependents_of :: "(string \<rightharpoonup> string list) \<Rightarrow> string \<Rightarrow> string list" where
  "dependents_of D d = (case D d of None \<Rightarrow> [] | Some l \<Rightarrow> l)"

text \<open>The tables record, for each name, the dependencies seen so far.\<close>

definition tables_of :: "string list \<Rightarrow> (string \<Rightarrow> string list) \<Rightarrow> (string \<rightharpoonup> nat) \<Rightarrow> (string \<rightharpoonup> string list) \<Rightarrow> bool" where
  "tables_of names seen G D \<longleftrightarrow>
    (\<forall>n. G n = (if n \<in> set names then Some (length (seen n)) else None)) \<and>
    (\<forall>n. n \<notin> set names \<longrightarrow> seen n = []) \<and>
    (\<forall>d n. count_list (dependents_of D d) n = count_list (seen n) d)"

lemma tables_of_push:
  assumes "tables_of names seen G D" "name \<in> set names"
  shows "tables_of names (seen(name := seen name @ [dep]))
    (G(name \<mapsto> (case G name of None \<Rightarrow> 0 | Some n \<Rightarrow> n) + 1))
    (D(dep \<mapsto> (case D dep of None \<Rightarrow> [] | Some l \<Rightarrow> l) @ [name]))"
  using assms unfolding tables_of_def dependents_of_def
  by (auto split: option.splits)

lemma add_deps_tables:
  assumes "tables_of names seen G D" "name \<in> set names" "set deps \<subseteq> set names"
  shows "\<exists>G' D'. add_deps names name deps G D = Ok (G', D') \<and>
    tables_of names (seen(name := seen name @ deps)) G' D'"
  using assms(1,3)
proof (induction deps arbitrary: seen G D)
  case (Cons dep deps)
  have "set deps \<subseteq> set names" "dep \<in> set names" using Cons.prems(2) by auto
  with Cons.IH[OF tables_of_push[OF Cons.prems(1) assms(2), of dep] this(1)]
  show ?case by (simp only: add_deps.simps fun_upd_upd fun_upd_same append_assoc append.simps if_False simp_thms)
qed simp

lemma add_deps_undefined:
  assumes "\<not> set deps \<subseteq> set names"
  shows "\<exists>dep \<in> set deps. dep \<notin> set names \<and> add_deps names name deps G D = Err (UndefinedDependency name dep)"
  using assms by (induction deps arbitrary: G D) auto

lemma add_deps_defined: "set deps \<subseteq> set names \<Longrightarrow> is_ok (add_deps names name deps G D)"
  by (induction deps arbitrary: G D) auto

definition service_deps :: "services \<Rightarrow> string \<Rightarrow> string list" where
  "service_deps services n = (case map_of services n of
     None \<Rightarrow> [] | Some s \<Rightarrow> extract_dependency_names (cs_depends_on s))"

definition deps_defined :: "services \<Rightarrow> bool" where
  "deps_defined services \<longleftrightarrow>
    (\<forall>n \<in> fst ` set services. set (service_deps services n) \<subseteq> fst ` set services)"

lemma add_services_tables:
  assumes "tables_of names seen G D" "fst ` set ss \<subseteq> set names" "distinct (map fst ss)"
    "\<forall>(n, s) \<in> set ss. set (extract_dependency_names (cs_depends_on s)) \<subseteq> set names"
    "\<forall>n \<in> fst ` set ss. seen n = []"
  shows "\<exists>G' D'. add_services names ss G D = Ok (G', D') \<and>
    tables_of names (\<lambda>n. seen n @ service_deps ss n) G' D'"
  using assms
proof (induction ss arbitrary: seen G D)
  case (Cons s ss)
  obtain n c where s: "s = (n, c)" by (cases s)
  let ?ds = "extract_dependency_names (cs_depends_on c)"
  have "n \<in> set names" "set ?ds \<subseteq> set names" using Cons.prems(2,4) s by auto
  from add_deps_tables[OF Cons.prems(1) this] obtain G1 D1 where
    1: "add_deps names n ?ds G D = Ok (G1, D1)" "tables_of names (seen(n := seen n @ ?ds)) G1 D1"
    by blast
  have "n \<notin> fst ` set ss" using Cons.prems(3) s by simp
  then have "\<forall>m \<in> fst ` set ss. (seen(n := seen n @ ?ds)) m = []" using Cons.prems(5) by auto
  from Cons.IH[OF 1(2) _ _ _ this] Cons.prems(2-4) s obtain G' D' where
    2: "add_services names ss G1 D1 = Ok (G', D')"
      "tables_of names (\<lambda>m. (seen(n := seen n @ ?ds)) m @ service_deps ss m) G' D'"
    by auto
  have "service_deps ss n = []"
    using \<open>n \<notin> fst ` set ss\<close> map_of_eq_None_iff[of ss n] by (simp add: service_deps_def)
  then have "(\<lambda>m. (seen(n := seen n @ ?ds)) m @ service_deps ss m) = (\<lambda>m. seen m @ service_deps (s # ss) m)"
    using s by (auto simp: fun_eq_iff service_deps_def)
  with 1 2 s show ?case by auto
qed (simp add: service_deps_def)

lemma add_services_undefined:
  assumes "\<not> (\<forall>(n, s) \<in> set ss. set (extract_dependency_names (cs_depends_on s)) \<subseteq> set names)"
  shows "\<exists>(n, s) \<in> set ss. \<exists>dep \<in> set (extract_dependency_names (cs_depends_on s)).
    dep \<notin> set names \<and> add_services names ss G D = Err (UndefinedDependency n dep)"
  using assms
proof (induction ss arbitrary: G D)
  case (Cons s ss)
  let ?ds = "extract_dependency_names (cs_depends_on (snd s))"
  show ?case
  proof (cases "set ?ds \<subseteq> set names")
    case False
    from add_deps_undefined[OF this, of "fst s" G D] show ?thesis by (cases s) auto
  next
    case True
    then have rest: "\<not> (\<forall>(n, s) \<in> set ss. set (extract_dependency_names (cs_depends_on s)) \<subseteq> set names)"
      using Cons.prems by (cases s) auto
    show ?thesis
    proof (cases "add_deps names (fst s) ?ds G D")
      case (Ok p)
      then show ?thesis using Cons.IH[OF rest, of "fst p" "snd p"] by (cases p) auto
    next
      case (Err e)
      then show ?thesis using add_deps_defined[OF True, of "fst s" G D] by simp
    qed
  qed
qed simp

section \<open>The loop\<close>

lemma release_dependents_spec:
  assumes "\<forall>n. count_list ds n \<le> (case G n of None \<Rightarrow> 0 | Some k \<Rightarrow> k)"
  shows "\<exists>r. snd (release_dependents ds G ready) = ready @ r \<and> distinct r \<and>
      set r = {n \<in> set ds. G n = Some (count_list ds n)} \<and>
      (\<forall>n. fst (release_dependents ds G ready) n = map_option (\<lambda>k. k - count_list ds n) (G n))"
  using assms
proof (induction ds arbitrary: G ready)
  case Nil
  then show ?case by (auto simp: option.map_id[unfolded id_def])
next
  case (Cons x xs)
  obtain k where k: "G x = Some k" "Suc (count_list xs x) \<le> k"
    using Cons.prems[rule_format, of x] by (auto split: option.splits)
  let ?G = "G(x \<mapsto> k - 1)" and ?ready = "if k - 1 = 0 then ready @ [x] else ready"
  have "\<forall>n. count_list xs n \<le> (case ?G n of None \<Rightarrow> 0 | Some k \<Rightarrow> k)"
  proof
    fix n
    show "count_list xs n \<le> (case ?G n of None \<Rightarrow> 0 | Some k \<Rightarrow> k)"
      using Cons.prems[rule_format, of n] k by (cases "n = x") auto
  qed
  from Cons.IH[OF this, of ?ready] obtain r where r:
    "snd (release_dependents xs ?G ?ready) = ?ready @ r" "distinct r"
    "set r = {n \<in> set xs. ?G n = Some (count_list xs n)}"
    "\<forall>n. fst (release_dependents xs ?G ?ready) n = map_option (\<lambda>k. k - count_list xs n) (?G n)"
    by blast
  have count: "x \<in> set xs \<longleftrightarrow> 0 < count_list xs x" by (simp add: count_list_0_iff zero_less_iff_neq_zero)
  let ?r = "if k - 1 = 0 then x # r else r"
  have "x \<notin> set xs" if "k - 1 = 0" using k(2) count that by linarith
  then have "distinct ?r" using r(2,3) by auto
  moreover have "n \<in> set ?r \<longleftrightarrow> n \<in> set (x # xs) \<and> G n = Some (count_list (x # xs) n)" for n
  proof (cases "n = x")
    case True
    have "x \<in> set ?r \<longleftrightarrow> k - 1 = 0 \<or> x \<in> set xs \<and> k - 1 = count_list xs x"
      using r(3) by simp
    also have "\<dots> \<longleftrightarrow> k = Suc (count_list xs x)" unfolding count using k(2) by linarith
    finally show ?thesis using True k(1) by simp
  next
    case False
    then show ?thesis using r(3) by simp
  qed
  then have "set ?r = {n \<in> set (x # xs). G n = Some (count_list (x # xs) n)}" by blast
  moreover have "snd (release_dependents (x # xs) G ready) = ready @ ?r"
    using r(1) k(1) by simp
  moreover have "\<forall>n. fst (release_dependents (x # xs) G ready) n =
      map_option (\<lambda>k. k - count_list (x # xs) n) (G n)"
  proof
    fix n
    show "fst (release_dependents (x # xs) G ready) n = map_option (\<lambda>k. k - count_list (x # xs) n) (G n)"
      using r(4)[rule_format, of n] k(1) by (cases "n = x") simp_all
  qed
  ultimately show ?case by blast
qed

text \<open>
  What holds whenever the loop looks at its queue: every name is listed once, the counter of
  a name is the number of its dependencies not yet in the result, exactly the names whose
  counter is zero have been listed, and the result so far respects the dependencies.
\<close>

definition dep_ordered :: "(string \<Rightarrow> string list) \<Rightarrow> string list \<Rightarrow> bool" where
  "dep_ordered deps order \<longleftrightarrow> (\<forall>i < length order. set (deps (order ! i)) \<subseteq> set (take i order))"

definition kahn_inv ::
  "string list \<Rightarrow> (string \<Rightarrow> string list) \<Rightarrow> string list \<Rightarrow> (string \<rightharpoonup> nat) \<Rightarrow> string list \<Rightarrow> bool" where
  "kahn_inv names deps queue G res \<longleftrightarrow>
    distinct (res @ queue) \<and> set (res @ queue) \<subseteq> set names \<and>
    (\<forall>n. G n = (if n \<in> set names then Some (length (filter (\<lambda>d. d \<notin> set res) (deps n))) else None)) \<and>
    (\<forall>n \<in> set names. n \<in> set (res @ queue) \<longleftrightarrow> set (deps n) \<subseteq> set res) \<and>
    dep_ordered deps res"

lemma dep_ordered_snoc:
  "dep_ordered deps (order @ [n]) \<longleftrightarrow> dep_ordered deps order \<and> set (deps n) \<subseteq> set order"
  by (auto simp: dep_ordered_def nth_append less_Suc_eq)

lemma length_filter_count:
  "length (filter (\<lambda>d. d \<notin> A) xs) =
   length (filter (\<lambda>d. d \<notin> insert x A) xs) + (if x \<in> A then 0 else count_list xs x)"
  by (induction xs) auto

lemma kahn_loop_Nil: "kahn_loop D [] G res = Some res"
  by (subst kahn_loop.simps) simp

lemma kahn_loop_Cons:
  "kahn_loop D (name # rest) G res =
    (let p = release_dependents (dependents_of D name) G [] in
     kahn_loop D (rest @ sort (snd p)) (fst p) (res @ [name]))"
  by (subst kahn_loop.simps) (simp add: dependents_of_def case_prod_beta Let_def split: option.split)

lemma kahn_step:
  assumes inv: "kahn_inv names deps (name # rest) G res"
    and dependents: "\<forall>n. count_list (dependents_of D name) n = (if n \<in> set names then count_list (deps n) name else 0)"
  shows "let p = release_dependents (dependents_of D name) G [] in
    kahn_inv names deps (rest @ sort (snd p)) (fst p) (res @ [name])"
proof -
  let ?ds = "dependents_of D name"
  have dist: "distinct (res @ name # rest)" and sub: "set (res @ name # rest) \<subseteq> set names"
    and G: "G n = (if n \<in> set names then Some (length (filter (\<lambda>d. d \<notin> set res) (deps n))) else None)"
    and listed: "n \<in> set names \<Longrightarrow> n \<in> set (res @ name # rest) \<longleftrightarrow> set (deps n) \<subseteq> set res"
    and ord: "dep_ordered deps res" for n
    using inv by (simp_all add: kahn_inv_def)
  have new: "name \<notin> set res" "name \<in> set names" using dist sub by auto
  have len: "length (filter (\<lambda>d. d \<notin> set res) (deps n)) =
      length (filter (\<lambda>d. d \<notin> set (res @ [name])) (deps n)) + count_list (deps n) name" for n
    using length_filter_count[of "set res" "deps n" name] new(1) by (simp add: insert_commute Un_commute)
  have "\<forall>n. count_list ?ds n \<le> (case G n of None \<Rightarrow> 0 | Some k \<Rightarrow> k)"
    using dependents G len by simp
  from release_dependents_spec[OF this, of "[]"] obtain r where r:
    "snd (release_dependents ?ds G []) = r" "distinct r" "set r = {n \<in> set ?ds. G n = Some (count_list ?ds n)}"
    "\<forall>n. fst (release_dependents ?ds G []) n = map_option (\<lambda>k. k - count_list ?ds n) (G n)"
    by auto
  have in_ds: "n \<in> set ?ds \<longleftrightarrow> n \<in> set names \<and> name \<in> set (deps n)" for n
    using dependents count_list_0_iff[of ?ds n] count_list_0_iff[of "deps n" name] by (metis)
  have "n \<in> set r \<longleftrightarrow> n \<in> set names \<and> name \<in> set (deps n) \<and> set (deps n) \<subseteq> set (res @ [name])" for n
  proof -
    have "length (filter (\<lambda>d. d \<notin> set (res @ [name])) (deps n)) = 0 \<longleftrightarrow> set (deps n) \<subseteq> set (res @ [name])"
      by (auto simp: filter_empty_conv)
    then show ?thesis using r(3) in_ds[of n] G[of n] len[of n] dependents[rule_format, of n] by auto
  qed
  note ready = this
  have notready: "n \<notin> set (res @ name # rest)" if "n \<in> set r" for n
    using ready[of n] listed[of n] that new(1) by blast
  have "distinct ((res @ [name]) @ rest @ sort r)" using dist r(2) notready by auto
  moreover have "set ((res @ [name]) @ rest @ sort r) \<subseteq> set names" using sub ready by auto
  moreover have "\<forall>n. fst (release_dependents ?ds G []) n =
      (if n \<in> set names then Some (length (filter (\<lambda>d. d \<notin> set (res @ [name])) (deps n))) else None)"
    using r(4) G len dependents by simp
  moreover have "\<forall>n \<in> set names. n \<in> set ((res @ [name]) @ rest @ sort r) \<longleftrightarrow> set (deps n) \<subseteq> set (res @ [name])"
  proof
    fix n assume n: "n \<in> set names"
    have "n \<in> set ((res @ [name]) @ rest @ sort r) \<longleftrightarrow> n \<in> set (res @ name # rest) \<or> n \<in> set r" by auto
    also have "\<dots> \<longleftrightarrow> set (deps n) \<subseteq> set res \<or> name \<in> set (deps n) \<and> set (deps n) \<subseteq> set (res @ [name])"
      using listed[OF n] ready[of n] n by blast
    also have "\<dots> \<longleftrightarrow> set (deps n) \<subseteq> set (res @ [name])" by auto
    finally show "n \<in> set ((res @ [name]) @ rest @ sort r) \<longleftrightarrow> set (deps n) \<subseteq> set (res @ [name])" .
  qed
  moreover have "dep_ordered deps (res @ [name])"
    using ord listed[OF new(2)] by (simp add: dep_ordered_snoc)
  ultimately show ?thesis unfolding Let_def r(1) kahn_inv_def by (intro conjI)
qed

lemma kahn_loop_returns:
  assumes "kahn_inv names deps queue G res"
    and "\<forall>d n. count_list (dependents_of D d) n = (if n \<in> set names then count_list (deps n) d else 0)"
  shows "\<exists>res' G'. kahn_loop D queue G res = Some res' \<and> kahn_inv names deps [] G' res'"
  using assms(1)
proof (induction "card (set names) - length res" arbitrary: queue G res rule: less_induct)
  case less
  show ?case
  proof (cases queue)
    case Nil
    then show ?thesis using less.prems by (auto simp: kahn_loop_Nil)
  next
    case (Cons name rest)
    let ?p = "release_dependents (dependents_of D name) G []"
    have inv: "kahn_inv names deps (rest @ sort (snd ?p)) (fst ?p) (res @ [name])"
      using kahn_step[OF less.prems[unfolded Cons], of D] assms(2) by (simp add: Let_def)
    have "length (res @ queue) \<le> card (set names)"
      using less.prems distinct_card[of "res @ queue"] card_mono[of "set names" "set (res @ queue)"]
      by (simp add: kahn_inv_def)
    then have "card (set names) - length (res @ [name]) < card (set names) - length res"
      using Cons by simp
    from less.hyps[OF this inv] show ?thesis
      unfolding Cons kahn_loop_Cons Let_def .
  qed
qed

section \<open>Orders and cycles\<close>

definition dep_rel :: "services \<Rightarrow> (string \<times> string) set" where
  "dep_rel services = {(d, n). n \<in> fst ` set services \<and> d \<in> set (service_deps services n)}"

definition start_order :: "services \<Rightarrow> string list \<Rightarrow> bool" where
  "start_order services order \<longleftrightarrow>
    distinct order \<and> set order = fst ` set services \<and> dep_ordered (service_deps services) order"

lemma dep_ordered_acyclic:
  assumes "distinct order" "dep_ordered deps order"
    and "\<And>d n. (d, n) \<in> R \<Longrightarrow> n \<in> set order \<and> d \<in> set (deps n)"
  shows "acyclic R"
proof (rule acyclicI_order[where f = "\<lambda>n. - int (LEAST i. order ! i = n)"])
  fix d n assume "(d, n) \<in> R"
  then obtain i where i: "i < length order" "order ! i = n" "d \<in> set (deps n)"
    using assms(3) by (metis in_set_conv_nth)
  then have "d \<in> set (take i order)" using assms(2) by (auto simp: dep_ordered_def)
  then obtain j where j: "j < i" "order ! j = d" by (auto simp: in_set_conv_nth)
  have "(LEAST i. order ! i = n) = i"
    using assms(1) i by (intro Least_equality) (auto simp: nth_eq_iff_index_eq not_le dest: nth_eq_iff_index_eq[THEN iffD1, rotated 3])
  moreover have "(LEAST i. order ! i = d) \<le> j" using j by (simp add: Least_le)
  ultimately show "- int (LEAST i. order ! i = n) < - int (LEAST i. order ! i = d)" using j(1) by simp
qed

text \<open>When the queue has run dry, either everything is listed or what is left contains a cycle.\<close>

lemma kahn_end:
  assumes "kahn_inv names deps [] G res"
    "\<And>n. n \<in> set names \<Longrightarrow> set (deps n) \<subseteq> set names"
    "R = {(d, n). n \<in> set names \<and> d \<in> set (deps n)}"
  shows "set res = set names \<longleftrightarrow> acyclic R"
proof
  assume "set res = set names"
  then show "acyclic R"
    using assms(1,3) by (intro dep_ordered_acyclic[of res deps]) (auto simp: kahn_inv_def)
next
  assume acyc: "acyclic R"
  let ?U = "set names - set res"
  have sub: "set res \<subseteq> set names" using assms(1) by (simp add: kahn_inv_def)
  have "finite R"
    by (rule finite_subset[of _ "(\<Union>n \<in> set names. set (deps n)) \<times> set names"]) (auto simp: assms(3))
  then have "wf R" using acyc by (rule finite_acyclic_wf)
  have "?U = {}"
  proof (rule ccontr)
    assume "?U \<noteq> {}"
    then obtain n where n: "n \<in> ?U" "\<And>d. (d, n) \<in> R \<Longrightarrow> d \<notin> ?U"
      using wfE_min'[OF \<open>wf R\<close>] by metis
    then have "set (deps n) \<subseteq> set res" using assms(2)[of n] by (auto simp: assms(3))
    then show False using assms(1) n(1) by (auto simp: kahn_inv_def)
  qed
  then show "set res = set names" using sub by blast
qed

lemma kahn_start:
  assumes "tables_of names deps G D" "distinct names"
  shows "kahn_inv names deps (sort (filter (\<lambda>n. G n = Some 0) names)) G []"
  using assms by (auto simp: kahn_inv_def tables_of_def dep_ordered_def split: if_splits)

lemma service_deps_outside: "n \<notin> fst ` set services \<Longrightarrow> service_deps services n = []"
  using map_of_eq_None_iff[of services n] by (simp add: service_deps_def)

lemma deps_defined_pairs:
  assumes "distinct (map fst services)"
  shows "deps_defined services \<longleftrightarrow>
    (\<forall>(n, s) \<in> set services. set (extract_dependency_names (cs_depends_on s)) \<subseteq> fst ` set services)"
proof -
  have "service_deps services n = extract_dependency_names (cs_depends_on s)" if "(n, s) \<in> set services" for n s
    using map_of_is_SomeI[OF assms that] by (simp add: service_deps_def)
  then show ?thesis by (force simp: deps_defined_def)
qed

lemma dependency_sort_defined:
  assumes "distinct (map fst services)" "deps_defined services" "services \<noteq> []"
  shows "\<exists>res G. dependency_sort services =
      Some (if length res = length services then Ok res else Err DependencyCycle) \<and>
    kahn_inv (map fst services) (service_deps services) [] G res"
proof -
  let ?names = "map fst services"
  have "map_of (map (\<lambda>n. (n, 0 :: nat)) ns) n = (if n \<in> set ns then Some 0 else None)" for ns :: "string list" and n
    by (induction ns) auto
  then have init: "tables_of ?names (\<lambda>_. []) (map_of (map (\<lambda>n. (n, 0)) ?names)) Map.empty"
    unfolding tables_of_def dependents_of_def by (simp del: map_map)
  have "\<forall>(n, s) \<in> set services. set (extract_dependency_names (cs_depends_on s)) \<subseteq> set ?names"
    using deps_defined_pairs[OF assms(1)] assms(2) by simp
  from add_services_tables[OF init _ assms(1) this] obtain G D where
    add: "add_services ?names services (map_of (map (\<lambda>n. (n, 0)) ?names)) Map.empty = Ok (G, D)"
      "tables_of ?names (service_deps services) G D"
    by auto
  have "\<forall>d n. count_list (dependents_of D d) n = (if n \<in> set ?names then count_list (service_deps services n) d else 0)"
    using add(2) by (simp add: tables_of_def)
  from kahn_loop_returns[OF kahn_start[OF add(2) assms(1)] this] obtain res G' where
    "kahn_loop D (sort (filter (\<lambda>n. G n = Some 0) ?names)) G [] = Some res"
    "kahn_inv ?names (service_deps services) [] G' res"
    by blast
  then show ?thesis using add(1) assms(3) by (auto simp: dependency_sort_def Let_def)
qed

lemma dependency_sort_undefined:
  assumes "distinct (map fst services)" "\<not> deps_defined services"
  shows "\<exists>n d. (d, n) \<in> dep_rel services \<and> d \<notin> fst ` set services \<and>
    dependency_sort services = Some (Err (UndefinedDependency n d))"
proof -
  have "\<not> (\<forall>(n, s) \<in> set services. set (extract_dependency_names (cs_depends_on s)) \<subseteq> set (map fst services))"
    using deps_defined_pairs[OF assms(1)] assms(2) by simp
  from add_services_undefined[OF this] obtain n s d where
    *: "(n, s) \<in> set services" "d \<in> set (extract_dependency_names (cs_depends_on s))" "d \<notin> fst ` set services"
      "add_services (map fst services) services (map_of (map (\<lambda>n. (n, 0)) (map fst services))) Map.empty =
       Err (UndefinedDependency n d)"
    by fastforce
  then have "(d, n) \<in> dep_rel services"
    using map_of_is_SomeI[OF assms(1) *(1)] by (force simp: dep_rel_def service_deps_def)
  moreover have "services \<noteq> []" using *(1) by auto
  ultimately show ?thesis using * by (auto simp: dependency_sort_def Let_def)
qed

text \<open>
  C5. Services are started in dependency order, and a project is refused exactly when there
  is no such order.  The computation always returns.  It returns an order exactly when every
  dependency is defined and no service depends on itself through others; that order lists
  every service once and every service after all it depends on.  Otherwise the error names a
  dependency that is really missing, or there is really a cycle.
\<close>

theorem dependency_sort_correct:
  assumes "distinct (map fst services)"
  shows "(deps_defined services \<and> acyclic (dep_rel services) \<longrightarrow>
      (\<exists>order. dependency_sort services = Some (Ok order) \<and> start_order services order)) \<and>
    (deps_defined services \<and> \<not> acyclic (dep_rel services) \<longrightarrow>
      dependency_sort services = Some (Err DependencyCycle)) \<and>
    (\<not> deps_defined services \<longrightarrow> (\<exists>n d. (d, n) \<in> dep_rel services \<and> d \<notin> fst ` set services \<and>
      dependency_sort services = Some (Err (UndefinedDependency n d))))"
proof (cases "services = []")
  case True
  then show ?thesis
    by (simp add: dependency_sort_def start_order_def dep_ordered_def deps_defined_def dep_rel_def acyclic_def)
next
  case False
  show ?thesis
  proof (cases "deps_defined services")
    case undef: False
    then show ?thesis using dependency_sort_undefined[OF assms] by blast
  next
    case True
    from dependency_sort_defined[OF assms True False] obtain res G where
      ds: "dependency_sort services = Some (if length res = length services then Ok res else Err DependencyCycle)"
      and inv: "kahn_inv (map fst services) (service_deps services) [] G res"
      by blast
    have closed: "n \<in> set (map fst services) \<Longrightarrow> set (service_deps services n) \<subseteq> set (map fst services)" for n
      using True unfolding deps_defined_def set_map by blast
    have cyc: "set res = fst ` set services \<longleftrightarrow> acyclic (dep_rel services)"
      using kahn_end[OF inv closed, of "dep_rel services"] by (simp add: dep_rel_def)
    have "distinct res" "set res \<subseteq> fst ` set services" "dep_ordered (service_deps services) res"
      using inv by (simp_all add: kahn_inv_def)
    moreover from this have "length res = length services \<longleftrightarrow> set res = fst ` set services"
      using distinct_card[of res] distinct_card[OF assms] card_subset_eq[of "fst ` set services" "set res"] by auto
    ultimately show ?thesis using ds cyc True by (auto simp: start_order_def)
  qed
qed

definition demo_service :: "compose_depends_on \<Rightarrow> compose_service" where
  "demo_service deps = \<lparr> cs_image = ''alpine'', cs_command = None, cs_environment = EnvEmpty,
     cs_ports = [], cs_volumes = [], cs_depends_on = deps, cs_networks = [], cs_mem_limit = None, cs_cpus = None,
     cs_hostname = None, cs_working_dir = None, cs_labels = [] \<rparr>"

theorem dependency_sort_correct_witness:
  "let ss = [(''web'', demo_service (DepsSimple [''db'', ''db''])), (''db'', demo_service DepsEmpty)] in
   \<exists>order. dependency_sort ss = Some (Ok order) \<and> start_order ss order \<and> order = [''db'', ''web'']"
proof -
  let ?ss = "[(''web'', demo_service (DepsSimple [''db'', ''db''])), (''db'', demo_service DepsEmpty)]"
  have def: "deps_defined ?ss"
    by (simp add: deps_defined_def service_deps_def extract_dependency_names_def demo_service_def)
  have rel: "dep_rel ?ss = {(''db'', ''web'')}"
    by (auto simp: dep_rel_def service_deps_def extract_dependency_names_def demo_service_def split: if_splits)
  have "acyclic (dep_rel ?ss)"
    unfolding rel by (rule acyclicI) (auto simp: trancl_insert)
  then obtain order where o: "dependency_sort ?ss = Some (Ok order)" "start_order ?ss order"
    using dependency_sort_correct[of ?ss] def by auto
  then have two: "distinct order" "set order = {''db'', ''web''}" by (auto simp: start_order_def)
  then have "length order = 2" using distinct_card[of order] by simp
  then obtain x y where xy: "order = [x, y]" by (auto simp: length_Suc_conv numeral_2_eq_2)
  have "set (service_deps ?ss x) \<subseteq> {}"
    using o(2) unfolding start_order_def dep_ordered_def xy by force
  then have "x \<noteq> ''web''" by (auto simp: service_deps_def extract_dependency_names_def demo_service_def)
  then have "order = [''db'', ''web'']" using two xy by (auto simp: doubleton_eq_iff)
  then show ?thesis using o by auto
qed

end
