(* ===== verification/Network_Manager.thy ===== *)
theory Network_Manager
  imports Rust_Str
begin

text \<open>
  The registry of user-defined networks
  (\<^verbatim>\<open>visor-runtime/src/api/routes/networks.rs\<close>).  Hash maps are partial maps.
  The random identifier that \<^verbatim>\<open>create\<close> draws is an argument.
\<close>

section \<open>State and operations\<close>

datatype network_state = NetActive | NetRemoving

record network_config =
  nc_name :: string
  nc_subnet :: "string option"
  nc_gateway :: "string option"

record network_info =
  ni_id :: string
  ni_name :: string
  ni_subnet :: string
  ni_gateway :: string
  ni_state :: network_state
  ni_connected_vms :: "string list"

record network_manager =
  networks :: "string \<rightharpoonup> network_info"
  name_index :: "string \<rightharpoonup> string"
  next_subnet_index :: u8

datatype network_error = NetworkExists string | NetworkNotFound string

definition manager_new :: network_manager where
  "manager_new = \<lparr> networks = Map.empty, name_index = Map.empty, next_subnet_index = 0 \<rparr>"

definition auto_prefix :: "u8 \<Rightarrow> string" where
  "auto_prefix idx = dec 172 @ ''.'' @ dec 21 @ ''.'' @ dec (unat idx)"

definition derive_gateway :: "string \<Rightarrow> string option" where
  "derive_gateway subnet =
    (let octets = split_on CHR ''.'' (hd (split_on CHR ''/'' subnet)) in
     if length octets = 4 then Some (join_with ''.'' (octets[3 := ''1''])) else None)"

definition choose_subnet :: "network_config \<Rightarrow> u8 \<Rightarrow> string \<times> string \<times> u8" where
  "choose_subnet config idx = (case (nc_subnet config, nc_gateway config) of
     (Some s, Some g) \<Rightarrow> (s, g, idx)
   | (Some s, None) \<Rightarrow>
       (s, (case derive_gateway s of Some gw \<Rightarrow> gw | None \<Rightarrow> auto_prefix idx @ ''.1''), idx)
   | (None, _) \<Rightarrow> (auto_prefix idx @ ''.0/24'', auto_prefix idx @ ''.1'', idx + 1))"

definition net_create ::
  "string \<Rightarrow> network_config \<Rightarrow> network_manager \<Rightarrow>
     (network_info, network_error) result \<times> network_manager" where
  "net_create uuid config nm =
    (if name_index nm (nc_name config) \<noteq> None then (Err (NetworkExists (nc_name config)), nm)
     else case choose_subnet config (next_subnet_index nm) of
       (subnet, gateway, idx) \<Rightarrow>
         (let info = \<lparr> ni_id = uuid, ni_name = nc_name config, ni_subnet = subnet,
                       ni_gateway = gateway, ni_state = NetActive, ni_connected_vms = [] \<rparr>
          in (Ok info, \<lparr> networks = (networks nm)(uuid \<mapsto> info),
                         name_index = (name_index nm)(nc_name config \<mapsto> uuid),
                         next_subnet_index = idx \<rparr>)))"

definition net_get :: "string \<Rightarrow> network_manager \<Rightarrow> (network_info, network_error) result" where
  "net_get i nm = (case networks nm i of None \<Rightarrow> Err (NetworkNotFound i) | Some info \<Rightarrow> Ok info)"

definition net_delete ::
  "string \<Rightarrow> network_manager \<Rightarrow> (network_info, network_error) result \<times> network_manager" where
  "net_delete i nm = (case networks nm i of
     None \<Rightarrow> (Err (NetworkNotFound i), nm)
   | Some info \<Rightarrow> (Ok info, nm\<lparr> networks := (networks nm)(i := None),
                               name_index := (name_index nm)(ni_name info := None) \<rparr>))"

definition net_connect_vm ::
  "string \<Rightarrow> string \<Rightarrow> network_manager \<Rightarrow> (unit, network_error) result \<times> network_manager" where
  "net_connect_vm i vm nm = (case networks nm i of
     None \<Rightarrow> (Err (NetworkNotFound i), nm)
   | Some info \<Rightarrow>
       (Ok (), if vm \<in> set (ni_connected_vms info) then nm
               else nm\<lparr>networks := (networks nm)
                      (i \<mapsto> info\<lparr>ni_connected_vms := ni_connected_vms info @ [vm]\<rparr>)\<rparr>))"

definition net_disconnect_vm ::
  "string \<Rightarrow> string \<Rightarrow> network_manager \<Rightarrow> (unit, network_error) result \<times> network_manager" where
  "net_disconnect_vm i vm nm = (case networks nm i of
     None \<Rightarrow> (Err (NetworkNotFound i), nm)
   | Some info \<Rightarrow>
       (Ok (), nm\<lparr>networks := (networks nm)
          (i \<mapsto> info\<lparr>ni_connected_vms := filter (\<lambda>v. v \<noteq> vm) (ni_connected_vms info)\<rparr>)\<rparr>))"

section \<open>Derived gateways\<close>

lemma derive_gateway_ipv4:
  assumes "\<forall>p \<in> {a, b, c, d}. CHR ''.'' \<notin> set p \<and> CHR ''/'' \<notin> set p"
  shows "derive_gateway (join_with ''.'' [a, b, c, d] @ CHR ''/'' # len) =
         Some (join_with ''.'' [a, b, c, ''1''])"
proof -
  have "CHR ''/'' \<notin> set (join_with ''.'' [a, b, c, d])" using assms by auto
  then have "hd (split_on CHR ''/'' (join_with ''.'' [a, b, c, d] @ CHR ''/'' # len)) =
      join_with ''.'' [a, b, c, d]"
    by (simp add: split_on_append del: join_with.simps)
  moreover have "split_on CHR ''.'' (join_with ''.'' [a, b, c, d]) = [a, b, c, d]"
    using assms by (intro split_join) auto
  ultimately show ?thesis
    unfolding derive_gateway_def Let_def
    by (simp only: list.size list_update.simps numeral_3_eq_3) simp
qed

section \<open>The index and the table agree\<close>

definition manager_inv :: "network_manager \<Rightarrow> bool" where
  "manager_inv nm \<longleftrightarrow>
    (\<forall>i info. networks nm i = Some info \<longrightarrow>
       ni_id info = i \<and> name_index nm (ni_name info) = Some i \<and> distinct (ni_connected_vms info)) \<and>
    (\<forall>n i. name_index nm n = Some i \<longrightarrow> (\<exists>info. networks nm i = Some info \<and> ni_name info = n))"

text \<open>
  The registry under any sequence of requests.  Identifiers are random 128-bit numbers; a
  drawn identifier is taken not to be in use.
\<close>

inductive manager_run :: "network_manager \<Rightarrow> bool" where
  mrun_new: "manager_run manager_new"
| mrun_create: "manager_run nm \<Longrightarrow> networks nm uuid = None \<Longrightarrow>
    manager_run (snd (net_create uuid config nm))"
| mrun_delete: "manager_run nm \<Longrightarrow> manager_run (snd (net_delete i nm))"
| mrun_connect: "manager_run nm \<Longrightarrow> manager_run (snd (net_connect_vm i vm nm))"
| mrun_disconnect: "manager_run nm \<Longrightarrow> manager_run (snd (net_disconnect_vm i vm nm))"

lemma manager_new_inv: "manager_inv manager_new"
  by (simp add: manager_inv_def manager_new_def)

lemma net_create_inv:
  assumes "manager_inv nm" "networks nm uuid = None"
  shows "manager_inv (snd (net_create uuid config nm))"
proof (cases "name_index nm (nc_name config)")
  case (Some i)
  then show ?thesis using assms by (simp add: net_create_def)
next
  case None
  obtain s g idx where c: "choose_subnet config (next_subnet_index nm) = (s, g, idx)"
    by (metis prod_cases3)
  have "name_index nm n \<noteq> Some uuid" for n
    using assms unfolding manager_inv_def by (metis option.distinct(1))
  moreover have "ni_name info \<noteq> nc_name config" if "networks nm i = Some info" for i info
    using assms(1) that None unfolding manager_inv_def by (metis option.distinct(1))
  ultimately show ?thesis
    using assms None unfolding manager_inv_def by (auto simp: net_create_def c Let_def)
qed

lemma net_delete_inv:
  assumes "manager_inv nm"
  shows "manager_inv (snd (net_delete i nm))"
proof (cases "networks nm i")
  case None
  then show ?thesis using assms by (simp add: net_delete_def)
next
  case (Some info)
  have "ni_name info' \<noteq> ni_name info" if "networks nm j = Some info'" "j \<noteq> i" for j info'
    using assms that Some unfolding manager_inv_def by (metis option.inject)
  then show ?thesis
    using assms Some unfolding manager_inv_def net_delete_def by (auto; fastforce)
qed

lemma manager_inv_update:
  assumes "manager_inv nm" "networks nm i = Some info" "ni_id info' = ni_id info"
    "ni_name info' = ni_name info" "distinct (ni_connected_vms info')"
  shows "manager_inv (nm\<lparr>networks := (networks nm)(i \<mapsto> info')\<rparr>)"
proof -
  have "ni_name info = n" if "name_index nm n = Some i" for n
    using assms(1,2) that unfolding manager_inv_def by (metis option.inject)
  then show ?thesis using assms unfolding manager_inv_def by auto
qed

lemma manager_inv_distinct:
  "manager_inv nm \<Longrightarrow> networks nm i = Some info \<Longrightarrow> distinct (ni_connected_vms info)"
  by (simp add: manager_inv_def)

lemma net_connect_inv:
  assumes "manager_inv nm"
  shows "manager_inv (snd (net_connect_vm i vm nm))"
  using assms manager_inv_distinct[OF assms, of i]
  by (auto simp: net_connect_vm_def intro!: manager_inv_update split: option.split)

lemma net_disconnect_inv:
  assumes "manager_inv nm"
  shows "manager_inv (snd (net_disconnect_vm i vm nm))"
  using assms manager_inv_distinct[OF assms, of i]
  by (auto simp: net_disconnect_vm_def intro!: manager_inv_update split: option.split)

lemma manager_run_inv: "manager_run nm \<Longrightarrow> manager_inv nm"
  by (induction rule: manager_run.induct)
    (auto intro: manager_new_inv net_create_inv net_delete_inv net_connect_inv net_disconnect_inv)

text \<open>
  C27. The network registry stays consistent under any sequence of requests.  Every stored
  network is found by its identifier and, exactly, by its name, so no two networks share a
  name; a machine is never listed twice on a network; a network can be created exactly when
  its name is free; and after a connection request the machine is on the network, after a
  disconnection it is not.
\<close>

theorem network_registry_consistent:
  assumes "manager_run nm"
  shows "(\<forall>i info. net_get i nm = Ok info \<longleftrightarrow>
       ni_id info = i \<and> networks nm i = Some info) \<and>
    (\<forall>i info. net_get i nm = Ok info \<longrightarrow> name_index nm (ni_name info) = Some i \<and>
       distinct (ni_connected_vms info)) \<and>
    (\<forall>uuid config. is_ok (fst (net_create uuid config nm)) \<longleftrightarrow>
       (\<forall>i info. net_get i nm = Ok info \<longrightarrow> ni_name info \<noteq> nc_name config)) \<and>
    (\<forall>i vm info. net_get i nm = Ok info \<longrightarrow>
       (\<exists>on. net_get i (snd (net_connect_vm i vm nm)) = Ok on \<and>
             set (ni_connected_vms on) = insert vm (set (ni_connected_vms info))) \<and>
       (\<exists>off. net_get i (snd (net_disconnect_vm i vm nm)) = Ok off \<and>
             set (ni_connected_vms off) = set (ni_connected_vms info) - {vm}))"
proof -
  have inv: "manager_inv nm" by (rule manager_run_inv[OF assms])
  have get: "net_get i nm = Ok info \<longleftrightarrow> networks nm i = Some info" for i info
    by (auto simp: net_get_def split: option.splits)
  have create: "is_ok (fst (net_create uuid config nm)) \<longleftrightarrow> name_index nm (nc_name config) = None" for uuid config
    by (auto simp: net_create_def Let_def split: prod.splits)
  have free: "name_index nm n = None \<longleftrightarrow> (\<forall>i info. networks nm i = Some info \<longrightarrow> ni_name info \<noteq> n)" for n
    using inv unfolding manager_inv_def by (metis not_None_eq option.distinct(1))
  have on: "\<exists>on. net_get i (snd (net_connect_vm i vm nm)) = Ok on \<and>
      set (ni_connected_vms on) = insert vm (set (ni_connected_vms info))"
    if "networks nm i = Some info" for i vm info
    using that by (auto simp: net_connect_vm_def net_get_def)
  have off: "\<exists>off. net_get i (snd (net_disconnect_vm i vm nm)) = Ok off \<and>
      set (ni_connected_vms off) = set (ni_connected_vms info) - {vm}"
    if "networks nm i = Some info" for i vm info
    using that by (auto simp: net_disconnect_vm_def net_get_def)
  have entry: "ni_id info = i \<and> name_index nm (ni_name info) = Some i \<and> distinct (ni_connected_vms info)"
    if "networks nm i = Some info" for i info
    using inv that by (simp add: manager_inv_def)
  show ?thesis
    unfolding get create free using entry on off by (intro conjI) (blast+)
qed

definition demo_config :: network_config where
  "demo_config = \<lparr> nc_name = ''web'', nc_subnet = None, nc_gateway = None \<rparr>"

theorem network_registry_consistent_witness:
  "\<exists>nm info. manager_run nm \<and> net_get ''id1'' nm = Ok info \<and> ni_subnet info = ''172.21.0.0/24'' \<and>
     \<not> is_ok (fst (net_create ''id2'' demo_config nm))"
proof -
  let ?nm = "snd (net_create ''id1'' demo_config manager_new)"
  have run: "manager_run ?nm"
    by (intro mrun_create mrun_new) (simp add: manager_new_def)
  have "auto_prefix 0 = ''172.21.0''"
    by code_simp
  then obtain info where info: "net_get ''id1'' ?nm = Ok info" "ni_subnet info = ''172.21.0.0/24''"
    "ni_name info = nc_name demo_config"
    by (auto simp: net_create_def net_get_def manager_new_def choose_subnet_def demo_config_def Let_def)
  then have "\<not> is_ok (fst (net_create ''id2'' demo_config ?nm))"
    using network_registry_consistent[OF run] by metis
  then show ?thesis using run info by blast
qed

text \<open>
  The counter of automatic subnets wraps after 256 networks and is not checked against the
  networks that exist: the next network gets the subnet of the first one.
\<close>

lemma auto_subnet_wraps:
  assumes "next_subnet_index nm = 255" "name_index nm (nc_name c) = None" "nc_subnet c = None"
  shows "next_subnet_index (snd (net_create u c nm)) = next_subnet_index manager_new"
  using assms by (simp add: net_create_def choose_subnet_def manager_new_def Let_def)

end
