(* ===== verification/Health_Check.thy ===== *)
theory Health_Check
  imports Visor_Prelude
begin

text \<open>
  Health checking of running machines (\<^verbatim>\<open>visor-runtime/src/pool/health.rs\<close>).
  The pinger is a parameter: what it answers for a guest within a timeout.  Locks and the
  timer of the surrounding task are not part of the model; a sweep is one call of
  \<^verbatim>\<open>check_all\<close>.
\<close>

section \<open>Probing one machine\<close>

datatype health_status = VmHealthy | VmUnhealthy string | VmUnknown

definition is_healthy :: "health_status \<Rightarrow> bool" where
  "is_healthy s \<longleftrightarrow> s = VmHealthy"

record health_check_config =
  ping_timeout :: nat
  check_interval :: nat
  failure_threshold :: u32

text \<open>Durations are in milliseconds.\<close>

definition default_health_config :: health_check_config where
  "default_health_config = \<lparr> ping_timeout = 2000, check_interval = 30000, failure_threshold = 3 \<rparr>"

type_synonym pinger = "u32 \<Rightarrow> nat \<Rightarrow> (unit, string) result"

definition check_vm :: "pinger \<Rightarrow> health_check_config \<Rightarrow> u32 \<Rightarrow> health_status" where
  "check_vm ping config cid = (case ping cid (ping_timeout config) of
     Ok _ \<Rightarrow> VmHealthy | Err e \<Rightarrow> VmUnhealthy e)"

section \<open>Sweeps\<close>

record vm_health_state =
  hs_status :: health_status
  consecutive_failures :: u32
  notified_unhealthy :: bool

definition vm_health_new :: vm_health_state where
  "vm_health_new = \<lparr> hs_status = VmUnknown, consecutive_failures = 0, notified_unhealthy = False \<rparr>"

datatype vm_event = HealthRecovered string | HealthUnhealthy string string u32

primrec event_vm :: "vm_event \<Rightarrow> string" where
  "event_vm (HealthRecovered vm) = vm"
| "event_vm (HealthUnhealthy vm reason n) = vm"

definition health_update ::
  "health_check_config \<Rightarrow> string \<Rightarrow> health_status \<Rightarrow> vm_health_state \<Rightarrow> vm_health_state \<times> vm_event list" where
  "health_update config vm result e = (case result of
     VmHealthy \<Rightarrow>
       (let e1 = e\<lparr>consecutive_failures := 0, hs_status := VmHealthy\<rparr> in
        if notified_unhealthy e then (e1\<lparr>notified_unhealthy := False\<rparr>, [HealthRecovered vm])
        else (e1, []))
   | VmUnhealthy reason \<Rightarrow>
       (let e1 = e\<lparr>consecutive_failures := consecutive_failures e + 1, hs_status := VmUnhealthy reason\<rparr> in
        if consecutive_failures e1 \<ge> failure_threshold config \<and> \<not> notified_unhealthy e1
        then (e1\<lparr>notified_unhealthy := True\<rparr>, [HealthUnhealthy vm reason (consecutive_failures e1)])
        else (e1, []))
   | VmUnknown \<Rightarrow> (e\<lparr>hs_status := VmUnknown\<rparr>, []))"

type_synonym health_states = "string \<rightharpoonup> vm_health_state"

definition health_entry :: "health_states \<Rightarrow> string \<Rightarrow> vm_health_state" where
  "health_entry states vm = (case states vm of None \<Rightarrow> vm_health_new | Some e \<Rightarrow> e)"

primrec check_each ::
  "pinger \<Rightarrow> health_check_config \<Rightarrow> (string \<times> u32) list \<Rightarrow> health_states \<Rightarrow> health_states \<times> vm_event list" where
  "check_each ping config [] states = (states, [])"
| "check_each ping config (v # vs) states =
    (case health_update config (fst v) (check_vm ping config (snd v)) (health_entry states (fst v)) of
       (e, evs) \<Rightarrow> (case check_each ping config vs (states(fst v \<mapsto> e)) of
         (states', evs') \<Rightarrow> (states', evs @ evs')))"

definition check_all ::
  "pinger \<Rightarrow> health_check_config \<Rightarrow> (string \<times> u32) list \<Rightarrow> health_states \<Rightarrow> health_states \<times> vm_event list" where
  "check_all ping config running states =
    check_each ping config running (\<lambda>vm. if vm \<in> fst ` set running then states vm else None)"

record vm_health_report =
  hr_vm_id :: string
  hr_status :: health_status
  hr_consecutive_failures :: u32

definition health_report :: "health_states \<Rightarrow> string \<Rightarrow> vm_health_report option" where
  "health_report states vm = map_option (\<lambda>e. \<lparr> hr_vm_id = vm, hr_status = hs_status e,
     hr_consecutive_failures = consecutive_failures e \<rparr>) (states vm)"

text \<open>A run of sweeps; each has its own list of running machines and its own answers.\<close>

primrec run_sweeps ::
  "health_check_config \<Rightarrow> ((string \<times> u32) list \<times> pinger) list \<Rightarrow> health_states \<Rightarrow>
     health_states \<times> vm_event list" where
  "run_sweeps config [] states = (states, [])"
| "run_sweeps config (w # ws) states =
    (case check_all (snd w) config (fst w) states of (states', evs) \<Rightarrow>
       (case run_sweeps config ws states' of (states'', evs') \<Rightarrow> (states'', evs @ evs')))"

section \<open>One machine among the others\<close>

lemma health_update_vm: "e \<in> set (snd (health_update config vm r s)) \<Longrightarrow> event_vm e = vm"
  by (auto simp: health_update_def Let_def split: health_status.splits if_splits)

lemma check_each_other:
  assumes "vm \<notin> fst ` set vs"
  shows "fst (check_each ping config vs states) vm = states vm \<and>
    filter (\<lambda>e. event_vm e = vm) (snd (check_each ping config vs states)) = []"
  using assms
proof (induction vs arbitrary: states)
  case (Cons v vs)
  then show ?case
    using health_update_vm[of _ config "fst v" "check_vm ping config (snd v)" "health_entry states (fst v)"]
    by (auto simp: case_prod_beta filter_empty_conv)
qed simp

text \<open>A sweep updates the state of a running machine once, from its own answer.\<close>

lemma check_each_own:
  assumes "distinct (map fst vs)" "(vm, cid) \<in> set vs"
  shows "let u = health_update config vm (check_vm ping config cid) (health_entry states vm) in
    fst (check_each ping config vs states) vm = Some (fst u) \<and>
    filter (\<lambda>e. event_vm e = vm) (snd (check_each ping config vs states)) = snd u"
  using assms
proof (induction vs arbitrary: states)
  case (Cons v vs)
  show ?case
  proof (cases "v = (vm, cid)")
    case True
    have "filter (\<lambda>e. event_vm e = vm) (snd (health_update config vm r s)) =
        snd (health_update config vm r s)" for r s
      using health_update_vm by (auto simp: filter_id_conv)
    then show ?thesis
      using True Cons.prems check_each_other[of vm vs] by (simp add: case_prod_beta Let_def)
  next
    case False
    then have own: "(vm, cid) \<in> set vs" "distinct (map fst vs)" using Cons.prems by auto
    then have ne: "fst v \<noteq> vm" using Cons.prems(1) image_eqI[of vm fst "(vm, cid)" "set vs"] by auto
    have "filter (\<lambda>e. event_vm e = vm) (snd (health_update config (fst v) r s)) = []" for r s
      using ne health_update_vm by (fastforce simp: filter_empty_conv)
    moreover let ?s = "states(fst v \<mapsto>
      fst (health_update config (fst v) (check_vm ping config (snd v)) (health_entry states (fst v))))"
    have "health_entry ?s vm = health_entry states vm" using ne by (simp add: health_entry_def)
    ultimately show ?thesis
      using Cons.IH[OF own(2,1), of ?s] by (simp only: check_each.simps case_prod_beta Let_def) simp
  qed
qed simp

lemma check_all_own:
  assumes "distinct (map fst vs)" "(vm, cid) \<in> set vs"
  shows "let u = health_update config vm (check_vm ping config cid) (health_entry states vm) in
    fst (check_all ping config vs states) vm = Some (fst u) \<and>
    filter (\<lambda>e. event_vm e = vm) (snd (check_all ping config vs states)) = snd u"
proof -
  have "vm \<in> fst ` set vs" using assms(2) by force
  then show ?thesis
    using check_each_own[OF assms, of config ping "\<lambda>v. if v \<in> fst ` set vs then states v else None"]
    by (simp add: check_all_def health_entry_def)
qed

section \<open>Notifications against the history of answers\<close>

text \<open>
  The number of failures at the end of a history, and the events a history calls for: one
  notification when the failures in a row reach the threshold, one recovery at the first
  success after that.
\<close>

definition failures_in_a_row :: "bool list \<Rightarrow> nat" where
  "failures_in_a_row fails = length (takeWhile id (rev fails))"

datatype notice = Down | Up

primrec event_notice :: "vm_event \<Rightarrow> notice" where
  "event_notice (HealthRecovered vm) = Up"
| "event_notice (HealthUnhealthy vm reason n) = Down"

definition notice_at :: "nat \<Rightarrow> bool list \<Rightarrow> bool \<Rightarrow> notice list" where
  "notice_at threshold before fail =
    (if fail then if Suc (failures_in_a_row before) = max 1 threshold then [Down] else []
     else if failures_in_a_row before \<ge> max 1 threshold then [Up] else [])"

fun notices :: "nat \<Rightarrow> bool list \<Rightarrow> bool list \<Rightarrow> notice list" where
  "notices threshold before [] = []"
| "notices threshold before (f # fs) =
    notice_at threshold before f @ notices threshold (before @ [f]) fs"

lemma failures_in_a_row_snoc [simp]:
  "failures_in_a_row (fs @ [f]) = (if f then Suc (failures_in_a_row fs) else 0)"
  by (simp add: failures_in_a_row_def)

lemma failures_le: "failures_in_a_row fs \<le> length fs"
  unfolding failures_in_a_row_def using length_takeWhile_le[of id "rev fs"] by simp

definition follows_history :: "health_check_config \<Rightarrow> bool list \<Rightarrow> vm_health_state \<Rightarrow> bool" where
  "follows_history config fails e \<longleftrightarrow>
    unat (consecutive_failures e) = failures_in_a_row fails \<and>
    (notified_unhealthy e \<longleftrightarrow> max 1 (unat (failure_threshold config)) \<le> failures_in_a_row fails)"

lemma vm_health_new_history: "follows_history config [] vm_health_new"
  by (simp add: follows_history_def vm_health_new_def failures_in_a_row_def)

lemma health_update_history:
  assumes "follows_history config fails e" "Suc (length fails) < 2 ^ 32"
  shows "follows_history config (fails @ [\<not> is_healthy (check_vm ping config cid)])
      (fst (health_update config vm (check_vm ping config cid) e)) \<and>
    map event_notice (snd (health_update config vm (check_vm ping config cid) e)) =
      notice_at (unat (failure_threshold config)) fails (\<not> is_healthy (check_vm ping config cid))"
proof (cases "ping cid (ping_timeout config)")
  case (Ok u)
  then show ?thesis
    using assms(1)
    by (auto simp: check_vm_def is_healthy_def health_update_def follows_history_def notice_at_def Let_def)
next
  case (Err r)
  have "unat (consecutive_failures e + 1) = Suc (failures_in_a_row fails)"
    using assms failures_le[of fails] unat_add_lem[of "consecutive_failures e" 1]
    by (simp add: follows_history_def)
  then show ?thesis
    using Err assms(1)
    by (auto simp: check_vm_def is_healthy_def health_update_def follows_history_def notice_at_def
        Let_def word_le_nat_alt)
qed

lemma run_sweeps_history:
  assumes "\<forall>w \<in> set ws. distinct (map fst (fst w)) \<and> (vm, cid) \<in> set (fst w)"
    "follows_history config before (health_entry states vm)" "length before + length ws < 2 ^ 32"
  shows "let fails = map (\<lambda>w. \<not> is_healthy (check_vm (snd w) config cid)) ws;
             r = run_sweeps config ws states in
    follows_history config (before @ fails) (health_entry (fst r) vm) \<and>
    map event_notice (filter (\<lambda>e. event_vm e = vm) (snd r)) =
      notices (unat (failure_threshold config)) before fails"
  using assms
proof (induction ws arbitrary: before states)
  case (Cons w ws)
  let ?f = "\<not> is_healthy (check_vm (snd w) config cid)"
  let ?c = "check_all (snd w) config (fst w) states"
  have own: "fst ?c vm = Some (fst (health_update config vm (check_vm (snd w) config cid) (health_entry states vm)))"
    "filter (\<lambda>e. event_vm e = vm) (snd ?c) =
     snd (health_update config vm (check_vm (snd w) config cid) (health_entry states vm))"
    using check_all_own[of "fst w" vm cid config "snd w" states] Cons.prems(1) by (simp_all add: Let_def)
  note step = health_update_history[OF Cons.prems(2), of "snd w" cid vm]
  have hist: "follows_history config (before @ [?f]) (health_entry (fst ?c) vm)"
    using step Cons.prems(3) own(1) by (simp add: health_entry_def)
  have "\<forall>w \<in> set ws. distinct (map fst (fst w)) \<and> (vm, cid) \<in> set (fst w)"
    "length (before @ [?f]) + length ws < 2 ^ 32"
    using Cons.prems(1,3) by simp_all
  from Cons.IH[OF this(1) hist this(2)] show ?case
    using step Cons.prems(3) own(2) by (simp add: case_prod_beta Let_def)
qed simp

text \<open>
  C28. Notifications about a machine follow its history of answers exactly.  Over any number
  of sweeps in which the machine is running, whatever else is running and however the others
  answer, the events about it are one ``unhealthy'' each time its failures in a row reach
  the threshold and one ``recovered'' at the first success after that, and nothing else; the
  failure count reported is the number of failures at the end of the history.
\<close>

theorem health_notifications_exact:
  assumes "\<forall>w \<in> set ws. distinct (map fst (fst w)) \<and> (vm, cid) \<in> set (fst w)"
    "ws \<noteq> []" "length ws < 2 ^ 32"
  shows "let fails = map (\<lambda>w. \<not> is_healthy (check_vm (snd w) config cid)) ws;
             (states, evs) = run_sweeps config ws Map.empty in
    map event_notice (filter (\<lambda>e. event_vm e = vm) evs) =
      notices (unat (failure_threshold config)) [] fails \<and>
    (\<exists>r. health_report states vm = Some r \<and>
       unat (hr_consecutive_failures r) = failures_in_a_row fails)"
proof -
  have "follows_history config [] (health_entry Map.empty vm)"
    by (simp add: health_entry_def vm_health_new_history)
  note hist = run_sweeps_history[OF assms(1) this]
  have "fst (run_sweeps config ws states) vm \<noteq> None" for states
    using assms(1,2)
  proof (induction ws arbitrary: states)
    case (Cons w ws)
    have "fst (check_all (snd w) config (fst w) states) vm \<noteq> None"
      using check_all_own[of "fst w" vm cid config "snd w" states] Cons.prems(1) by (simp add: Let_def)
    then show ?case using Cons by (cases "ws = []") (simp_all add: case_prod_beta)
  qed simp
  then obtain e where "fst (run_sweeps config ws Map.empty) vm = Some e" by blast
  then show ?thesis
    using hist assms(3) by (simp add: case_prod_beta Let_def health_report_def health_entry_def follows_history_def)
qed

theorem health_notifications_exact_witness:
  "let up = (\<lambda>cid t. Ok ()); down = (\<lambda>cid t. Err ''timeout''); w = (\<lambda>p. ([(''db'', 3)], p)) in
   map event_notice (filter (\<lambda>e. event_vm e = ''db'')
     (snd (run_sweeps default_health_config [w down, w down, w down, w down, w up] Map.empty))) = [Down, Up]"
proof -
  let ?ws = "[([(''db'', 3)], \<lambda>cid t. Err ''timeout''), ([(''db'', 3)], \<lambda>cid t. Err ''timeout''),
    ([(''db'', 3)], \<lambda>cid t. Err ''timeout''), ([(''db'', 3)], \<lambda>cid t. Err ''timeout''),
    ([(''db'', 3)], \<lambda>cid t. Ok ())] :: ((string \<times> u32) list \<times> pinger) list"
  have "map event_notice (filter (\<lambda>e. event_vm e = ''db'') (snd (run_sweeps default_health_config ?ws Map.empty))) =
      notices 3 [] [True, True, True, True, False]"
    using health_notifications_exact[of ?ws "''db''" 3 default_health_config]
    by (simp add: case_prod_beta Let_def check_vm_def is_healthy_def default_health_config_def)
  also have "\<dots> = [Down, Up]"
    by (simp add: notice_at_def failures_in_a_row_def)
  finally show ?thesis by (simp only: Let_def)
qed

end
