(* ===== verification/Vm_Types.thy ===== *)
theory Vm_Types
  imports Rust_Str
begin

text \<open>
  The data exchanged between the parts of the runtime
  (\<^verbatim>\<open>visor-types/src/lib.rs\<close>): machine configurations and machine information,
  with their constructors, and the port and volume specifications the command line parses
  into them (\<^verbatim>\<open>visor-runtime/src/cli/mod.rs\<close>).  A hash map of labels is an
  association list in iteration order.
\<close>

section \<open>Configuration\<close>

datatype guest_virtualization_mode = VirtStandard | VirtNested

record host_entry =
  he_hostname :: string
  he_address :: string

record service_port =
  sp_port :: u16
  sp_protocol :: string

record port_mapping =
  pm_host_port :: u16
  pm_guest_port :: u16
  pm_protocol :: string

definition default_protocol :: string where
  "default_protocol = ''tcp''"

definition port_mapping_new :: "u16 \<Rightarrow> u16 \<Rightarrow> port_mapping" where
  "port_mapping_new h g = \<lparr> pm_host_port = h, pm_guest_port = g, pm_protocol = default_protocol \<rparr>"

record volume_mount =
  vo_host_path :: string
  vo_guest_path :: string
  vo_read_only :: bool

definition volume_mount_new :: "string \<Rightarrow> string \<Rightarrow> volume_mount" where
  "volume_mount_new h g = \<lparr> vo_host_path = h, vo_guest_path = g, vo_read_only = False \<rparr>"

definition volume_mount_read_only :: "string \<Rightarrow> string \<Rightarrow> volume_mount" where
  "volume_mount_read_only h g = \<lparr> vo_host_path = h, vo_guest_path = g, vo_read_only = True \<rparr>"

record vm_config =
  vc_image :: string
  vc_entrypoint :: "string list"
  vc_cmd :: "string list"
  vc_env :: "string list"
  vc_working_dir :: "string option"
  vc_memory_mib :: u32
  vc_vcpus :: u32
  vc_process_limit :: "u64 option"
  vc_rootfs_extra_size_mib :: "u64 option"
  vc_name :: "string option"
  vc_labels :: "(string \<times> string) list"
  vc_ports :: "port_mapping list"
  vc_volumes :: "volume_mount list"
  vc_extra_hosts :: "host_entry list"
  vc_networks :: "string list"
  vc_service_names :: "string list"
  vc_service_ports :: "service_port list"
  vc_network_enabled :: bool
  vc_guest_virtualization :: guest_virtualization_mode
  vc_detach :: bool
  vc_mode :: "string option"

definition vm_config_new :: "string \<Rightarrow> vm_config" where
  "vm_config_new img = \<lparr> vc_image = img, vc_entrypoint = [], vc_cmd = [], vc_env = [],
     vc_working_dir = None, vc_memory_mib = 512, vc_vcpus = 1, vc_process_limit = None,
     vc_rootfs_extra_size_mib = None, vc_name = None, vc_labels = [], vc_ports = [],
     vc_volumes = [], vc_extra_hosts = [], vc_networks = [], vc_service_names = [],
     vc_service_ports = [], vc_network_enabled = True, vc_guest_virtualization = VirtStandard,
     vc_detach = False, vc_mode = None \<rparr>"

section \<open>Machines\<close>

datatype vm_state = Creating | Running | Stopped | Failed

record vm_info =
  vi_id :: string
  vi_name :: "string option"
  vi_image :: string
  vi_state :: vm_state
  vi_created_at :: string
  vi_memory_mib :: u32
  vi_vcpus :: u32
  vi_ports :: "port_mapping list"
  vi_exit_code :: "int option"
  vi_stdout :: "string option"
  vi_stderr :: "string option"
  vi_cid :: "u32 option"
  vi_initial_cmd :: "string list option"
  vi_initial_env :: "string list option"
  vi_initial_working_dir :: "string option"

definition vm_info_new ::
  "string \<Rightarrow> string \<Rightarrow> vm_state \<Rightarrow> string \<Rightarrow> u32 \<Rightarrow> u32 \<Rightarrow> vm_info" where
  "vm_info_new i img st created mem cpus = \<lparr> vi_id = i, vi_name = None, vi_image = img,
     vi_state = st, vi_created_at = created, vi_memory_mib = mem, vi_vcpus = cpus, vi_ports = [],
     vi_exit_code = None, vi_stdout = None, vi_stderr = None, vi_cid = None,
     vi_initial_cmd = None, vi_initial_env = None, vi_initial_working_dir = None \<rparr>"

definition FIRST_GUEST_CID :: u32 where
  "FIRST_GUEST_CID = 3"

section \<open>Specifications on the command line\<close>

datatype spec_error =
    NotHostGuest string
  | InvalidHostPort string
  | InvalidGuestPort string
  | VolumeEmpty
  | VolumeFormat string
  | EmptyHostPath string
  | EmptyGuestPath string
  | RelativeGuestPath string

definition parse_port_mapping :: "string \<Rightarrow> (port_mapping, spec_error) result" where
  "parse_port_mapping s = (case split_on CHR '':'' s of
     [h, g] \<Rightarrow>
       (case parse_uint 16 h of
          None \<Rightarrow> Err (InvalidHostPort h)
        | Some hp \<Rightarrow>
            (case parse_uint 16 g of
               None \<Rightarrow> Err (InvalidGuestPort g)
             | Some gp \<Rightarrow> Ok (port_mapping_new (of_nat hp) (of_nat gp))))
   | _ \<Rightarrow> Err (NotHostGuest s))"

text \<open>The first two colons split; what follows is one piece.\<close>

definition splitn3 :: "char \<Rightarrow> string \<Rightarrow> string list" where
  "splitn3 c s = (case split_on c s of
     a # b # r # rs \<Rightarrow> [a, b, join_with [c] (r # rs)] | ps \<Rightarrow> ps)"

definition parse_volume_mount :: "string \<Rightarrow> (volume_mount, spec_error) result" where
  "parse_volume_mount s =
    (if s = [] then Err VolumeEmpty
     else case splitn3 CHR '':'' s of
       host_path # guest_path # opts \<Rightarrow>
         if host_path = [] then Err (EmptyHostPath s)
         else if guest_path = [] then Err (EmptyGuestPath s)
         else if hd guest_path \<noteq> CHR ''/'' then Err (RelativeGuestPath guest_path)
         else if opts = [''ro''] then Ok (volume_mount_read_only host_path guest_path)
         else Ok (volume_mount_new host_path guest_path)
     | _ \<Rightarrow> Err (VolumeFormat s))"

text \<open>Every mapping of two ports is what its printed form parses to.\<close>

lemma parse_port_mapping_print:
  "parse_port_mapping (dec (unat h) @ '':'' @ dec (unat g)) = Ok (port_mapping_new h g)"
proof -
  have colon: "CHR '':'' \<notin> set (dec n)" for n
  proof -
    have "\<not> ascii_digit CHR '':''" by (simp add: ascii_digit_def code_of_def)
    then show ?thesis using dec_props[of n] by (auto simp: list_all_iff)
  qed
  have "split_on CHR '':'' (dec (unat h) @ '':'' @ dec (unat g)) = [dec (unat h), dec (unat g)]"
    using split_on_append[OF colon, of "unat h" "dec (unat g)"] split_on_no_sep[OF colon] by simp
  moreover have "parse_uint 16 (dec (unat w)) = Some (unat w)" for w :: u16
    using unsigned_less[of w] by (intro parse_dec) simp
  ultimately show ?thesis by (simp add: parse_port_mapping_def)
qed

text \<open>
  An accepted volume has a host path and an absolute guest path without a colon; it is
  read-only exactly when the option is \<^verbatim>\<open>ro\<close>, and any other option is ignored.
\<close>

lemma parse_volume_mount_sound:
  assumes "parse_volume_mount s = Ok v"
  shows "vo_host_path v \<noteq> [] \<and> (\<exists>p. vo_guest_path v = CHR ''/'' # p) \<and>
    CHR '':'' \<notin> set (vo_host_path v) \<and> CHR '':'' \<notin> set (vo_guest_path v) \<and>
    (vo_read_only v \<longleftrightarrow> s = vo_host_path v @ '':'' @ vo_guest_path v @ '':ro'')"
proof -
  obtain h g r where sp: "split_on CHR '':'' s = h # g # r" and h: "h \<noteq> []" and g: "g \<noteq> []" "hd g = CHR ''/''"
    and v: "v = (if r \<noteq> [] \<and> join_with '':'' r = ''ro'' then volume_mount_read_only h g else volume_mount_new h g)"
    using assms
    by (auto simp: parse_volume_mount_def splitn3_def split: list.splits if_splits)
  have s: "s = h @ '':'' @ join_with '':'' (g # r)"
    using join_split[of "CHR '':''" s] sp by (cases r) auto
  have "CHR '':'' \<notin> set h" "CHR '':'' \<notin> set g"
    using split_on_parts[of _ "CHR '':''" s] sp by auto
  moreover have "(r \<noteq> [] \<and> join_with '':'' r = ''ro'') \<longleftrightarrow> s = h @ '':'' @ g @ '':ro''"
    using s by (cases r) auto
  ultimately show ?thesis
    using h g v by (cases g) (auto simp: volume_mount_read_only_def volume_mount_new_def)
qed

end
