(* ===== verification/Compose.thy ===== *)
theory Compose
  imports Dependency_Sort Network_Manager Health_Check Dns_Registry Vm_Types
begin

text \<open>
  The compose orchestrator (\<^verbatim>\<open>visor-runtime/src/compose/orchestrator.rs\<close>):
  bringing a project up and down over the network registry, the name registry, the address
  allocator, the health checker and the execution backend.  The backend is a record of
  operations on a state of its own, the pinger answers by attempt, and the clock gives the
  instant after each attempt.  Hash maps are association lists, in an order the code leaves
  open.  The \<^verbatim>\<open>trace\<close> is a history of what was brought up; the code has no
  such field.
\<close>

section \<open>Configuration of one machine\<close>

definition parse_mem_limit :: "string \<Rightarrow> u32" where
  "parse_mem_limit limit =
    (let trimmed = to_lowercase (trim limit) in
     case strip_suffix ''g'' trimmed of
       Some v \<Rightarrow> (case parse_uint 32 v of Some n \<Rightarrow> u32_sat (n * 1024) | None \<Rightarrow> 512)
     | None \<Rightarrow>
         (case strip_suffix ''m'' trimmed of
            Some v \<Rightarrow> (case parse_uint 32 v of Some n \<Rightarrow> of_nat n | None \<Rightarrow> 512)
          | None \<Rightarrow>
              (case parse_uint 64 trimmed of
                 Some bytes \<Rightarrow>
                   (let mib = bytes div (1024 * 1024) in if mib < 2 ^ 32 then of_nat mib else 512)
               | None \<Rightarrow> 512)))"

definition compose_port_to_port_mapping :: "compose_port \<Rightarrow> (port_mapping, spec_error) result" where
  "compose_port_to_port_mapping p = (case p of
     PortShort s \<Rightarrow> parse_port_mapping (hd (split_on CHR ''/'' s))
   | PortLong target published protocol \<Rightarrow>
       (case published of
          None \<Rightarrow> Err (NotHostGuest [])
        | Some host_port \<Rightarrow> Ok (port_mapping_new host_port target)))"

fun oks :: "('a, 'e) result list \<Rightarrow> 'a list" where
  "oks [] = []"
| "oks (Ok a # rs) = a # oks rs"
| "oks (Err e # rs) = oks rs"

definition build_vm_config :: "string \<Rightarrow> compose_service \<Rightarrow> vm_config" where
  "build_vm_config name svc =
    (vm_config_new (cs_image svc))
      \<lparr> vc_cmd := (case cs_command svc of None \<Rightarrow> [] | Some c \<Rightarrow> c),
        vc_env := (case cs_environment svc of
           EnvEmpty \<Rightarrow> [] | EnvList items \<Rightarrow> items
         | EnvMap m \<Rightarrow> map (\<lambda>(k, v). k @ ''='' @ v) m),
        vc_working_dir := cs_working_dir svc,
        vc_memory_mib := (case cs_mem_limit svc of None \<Rightarrow> 512 | Some l \<Rightarrow> parse_mem_limit l),
        vc_name := Some name,
        vc_detach := True,
        vc_networks := cs_networks svc,
        vc_ports := oks (map compose_port_to_port_mapping (cs_ports svc)) \<rparr>"

definition needs_health_wait :: "string \<Rightarrow> services \<Rightarrow> bool" where
  "needs_health_wait service_name services \<longleftrightarrow>
    list_ex (\<lambda>(n, svc). case cs_depends_on svc of
       DepsExtended m \<Rightarrow>
         (case map_of m service_name of
            None \<Rightarrow> False | Some c \<Rightarrow> condition c = Some ''service_healthy'')
     | _ \<Rightarrow> False) services"

section \<open>The orchestrator\<close>

record compose_ipam_config =
  ipam_subnet :: "string option"
  ipam_gateway :: "string option"

record compose_ipam =
  ipam_driver :: "string option"
  ipam_config :: "compose_ipam_config list"

record compose_network =
  cn_driver :: "string option"
  cn_ipam :: "compose_ipam option"
  cn_external :: bool

record compose_volume_config =
  cv_driver :: "string option"
  cv_external :: bool

record compose_project =
  cp_name :: "string option"
  cp_services :: services
  cp_networks :: "(string \<times> compose_network) list"
  cp_volumes :: "(string \<times> compose_volume_config) list"

datatype project_error = MissingImage string | MissingDependency string string

primrec check_dep_names :: "services \<Rightarrow> string \<Rightarrow> string list \<Rightarrow> (unit, project_error) result" where
  "check_dep_names all name [] = Ok ()"
| "check_dep_names all name (d # ds) =
    (if d \<notin> fst ` set all then Err (MissingDependency name d) else check_dep_names all name ds)"

primrec validate_services :: "services \<Rightarrow> services \<Rightarrow> (unit, project_error) result" where
  "validate_services all [] = Ok ()"
| "validate_services all (s # ss) =
    (if cs_image (snd s) = [] then Err (MissingImage (fst s))
     else case check_dep_names all (fst s) (extract_dependency_names (cs_depends_on (snd s))) of
       Err e \<Rightarrow> Err e | Ok _ \<Rightarrow> validate_services all ss)"

definition validate_project :: "compose_project \<Rightarrow> (unit, project_error) result" where
  "validate_project p = validate_services (cp_services p) (cp_services p)"

record compose_instance =
  in_name :: string
  in_services :: "(string \<times> vm_info) list"
  in_networks :: "(string \<times> string) list"

record ('b, 'e) backend_ops =
  be_create :: "vm_config \<Rightarrow> 'b \<Rightarrow> (vm_info, 'e) result \<times> 'b"
  be_stop :: "string \<Rightarrow> nat \<Rightarrow> 'b \<Rightarrow> (unit, 'e) result \<times> 'b"
  be_destroy :: "string \<Rightarrow> 'b \<Rightarrow> (unit, 'e) result \<times> 'b"

datatype compose_event = NetworkUp string | VmUp string | VmReady string

record 'b compose_world =
  backend :: 'b
  net_manager :: network_manager
  dns :: dns_registry
  ip_alloc :: subnet_allocator
  uuids :: nat
  pings :: nat
  trace :: "compose_event list"

text \<open>What the orchestrator gets from outside: random identifiers, pings and the clock.\<close>

record compose_env =
  new_uuid :: "nat \<Rightarrow> string"
  ping_at :: "nat \<Rightarrow> pinger"
  clock :: "nat \<Rightarrow> nat"

datatype 'e up_error =
    CreateNetworkFailed string network_error
  | SortFailed compose_error
  | ServiceNotFound string
  | CreateVmFailed string 'e
  | ConnectFailed string string network_error
  | NoCid string
  | NotHealthy string
  | StopFailed string 'e
  | DestroyFailed string 'e
  | DeleteNetworkFailed string network_error

primrec create_networks ::
  "compose_env \<Rightarrow> string \<Rightarrow> (string \<times> compose_network) list \<Rightarrow> (string \<times> string) list \<Rightarrow>
     'b compose_world \<Rightarrow> ((string \<times> string) list, 'e up_error) result \<times> 'b compose_world" where
  "create_networks env project [] ids w = (Ok ids, w)"
| "create_networks env project (n # ns) ids w =
    (let (subnet, gateway) = (case cn_ipam (snd n) of
           None \<Rightarrow> (None, None)
         | Some ipam \<Rightarrow> (case ipam_config ipam of
             [] \<Rightarrow> (None, None) | c # cs \<Rightarrow> (ipam_subnet c, ipam_gateway c)));
         config = \<lparr> nc_name = project @ ''_'' @ fst n, nc_subnet = subnet, nc_gateway = gateway \<rparr>
     in case net_create (new_uuid env (uuids w)) config (net_manager w) of
       (Err e, nm) \<Rightarrow> (Err (CreateNetworkFailed (fst n) e), w\<lparr>net_manager := nm\<rparr>)
     | (Ok info, nm) \<Rightarrow> create_networks env project ns (ids @ [(fst n, ni_id info)])
         (w\<lparr>net_manager := nm, uuids := uuids w + 1, trace := trace w @ [NetworkUp (fst n)]\<rparr>))"

primrec connect_networks ::
  "string \<Rightarrow> string \<Rightarrow> (string \<times> string) list \<Rightarrow> string list \<Rightarrow> network_manager \<Rightarrow>
     (unit, 'e up_error) result \<times> network_manager" where
  "connect_networks svc vm ids [] nm = (Ok (), nm)"
| "connect_networks svc vm ids (n # ns) nm = (case map_of ids n of
     None \<Rightarrow> connect_networks svc vm ids ns nm
   | Some net_id \<Rightarrow> (case net_connect_vm net_id vm nm of
       (Err e, nm') \<Rightarrow> (Err (ConnectFailed svc n e), nm')
     | (Ok _, nm') \<Rightarrow> connect_networks svc vm ids ns nm'))"

definition compose_health_config :: health_check_config where
  "compose_health_config = default_health_config\<lparr>ping_timeout := 2000\<rparr>"

partial_function (option) wait_for_healthy ::
  "compose_env \<Rightarrow> u32 \<Rightarrow> nat \<Rightarrow> nat \<Rightarrow> (bool \<times> nat) option" where
  "wait_for_healthy env cid deadline k =
    (if is_healthy (check_vm (ping_at env k) compose_health_config cid) then Some (True, k + 1)
     else if clock env (k + 1) \<ge> deadline then Some (False, k + 1)
     else wait_for_healthy env cid deadline (k + 1))"

definition register_name :: "string \<Rightarrow> 'b compose_world \<Rightarrow> 'b compose_world option" where
  "register_name svc w = (case allocate (ip_alloc w) of
     None \<Rightarrow> None
   | Some (Ok ip, a) \<Rightarrow> Some (w\<lparr>ip_alloc := a, dns := dns_register (dns w) svc ip\<rparr>)
   | Some (Err _, a) \<Rightarrow> Some (w\<lparr>ip_alloc := a\<rparr>))"

definition await_service ::
  "compose_env \<Rightarrow> services \<Rightarrow> string \<Rightarrow> vm_info \<Rightarrow> 'b compose_world \<Rightarrow>
     ((unit, 'e up_error) result \<times> 'b compose_world) option" where
  "await_service env services svc vm w =
    (if \<not> needs_health_wait svc services then Some (Ok (), w)
     else case vi_cid vm of
       None \<Rightarrow> Some (Err (NoCid svc), w)
     | Some cid \<Rightarrow>
         (case wait_for_healthy env cid (clock env (pings w) + 60000) (pings w) of
            None \<Rightarrow> None
          | Some (healthy, k) \<Rightarrow>
              if healthy then Some (Ok (), w\<lparr>pings := k, trace := trace w @ [VmReady svc]\<rparr>)
              else Some (Err (NotHealthy svc), w\<lparr>pings := k\<rparr>)))"

definition boot_service ::
  "('b, 'e) backend_ops \<Rightarrow> compose_env \<Rightarrow> services \<Rightarrow> (string \<times> string) list \<Rightarrow> string \<Rightarrow>
     'b compose_world \<Rightarrow> ((vm_info, 'e up_error) result \<times> 'b compose_world) option" where
  "boot_service ops env services ids svc w = (case map_of services svc of
     None \<Rightarrow> Some (Err (ServiceNotFound svc), w)
   | Some s \<Rightarrow> (case be_create ops (build_vm_config svc s) (backend w) of
       (Err e, b) \<Rightarrow> Some (Err (CreateVmFailed svc e), w\<lparr>backend := b\<rparr>)
     | (Ok vm, b) \<Rightarrow>
         (let w1 = w\<lparr>backend := b, trace := trace w @ [VmUp svc]\<rparr> in
          case connect_networks svc (vi_id vm) ids (cs_networks s) (net_manager w1) of
            (Err e, nm) \<Rightarrow> Some (Err e, w1\<lparr>net_manager := nm\<rparr>)
          | (Ok _, nm) \<Rightarrow>
              (case register_name svc (w1\<lparr>net_manager := nm\<rparr>) of
                 None \<Rightarrow> None
               | Some w2 \<Rightarrow> (case await_service env services svc vm w2 of
                   None \<Rightarrow> None
                 | Some (Err e, w3) \<Rightarrow> Some (Err e, w3)
                 | Some (Ok _, w3) \<Rightarrow> Some (Ok vm, w3))))))"

primrec boot_services ::
  "('b, 'e) backend_ops \<Rightarrow> compose_env \<Rightarrow> services \<Rightarrow> (string \<times> string) list \<Rightarrow> string list \<Rightarrow>
     (string \<times> vm_info) list \<Rightarrow> 'b compose_world \<Rightarrow>
     (((string \<times> vm_info) list, 'e up_error) result \<times> 'b compose_world) option" where
  "boot_services ops env services ids [] up w = Some (Ok up, w)"
| "boot_services ops env services ids (svc # rest) up w =
    (case boot_service ops env services ids svc w of
       None \<Rightarrow> None
     | Some (Err e, w') \<Rightarrow> Some (Err e, w')
     | Some (Ok vm, w') \<Rightarrow> boot_services ops env services ids rest (up @ [(svc, vm)]) w')"

definition compose_up ::
  "('b, 'e) backend_ops \<Rightarrow> compose_env \<Rightarrow> compose_project \<Rightarrow> 'b compose_world \<Rightarrow>
     ((compose_instance, 'e up_error) result \<times> 'b compose_world) option" where
  "compose_up ops env project w =
    (let project_name = (case cp_name project of None \<Rightarrow> ''default'' | Some n \<Rightarrow> n) in
     case create_networks env project_name (cp_networks project) [] w of
       (Err e, w1) \<Rightarrow> Some (Err e, w1)
     | (Ok ids, w1) \<Rightarrow> (case dependency_sort (cp_services project) of
         None \<Rightarrow> None
       | Some (Err e) \<Rightarrow> Some (Err (SortFailed e), w1)
       | Some (Ok order) \<Rightarrow> (case boot_services ops env (cp_services project) ids order [] w1 of
           None \<Rightarrow> None
         | Some (Err e, w2) \<Rightarrow> Some (Err e, w2)
         | Some (Ok up, w2) \<Rightarrow>
             Some (Ok \<lparr> in_name = project_name, in_services = up, in_networks = ids \<rparr>, w2))))"

section \<open>Bringing a project down\<close>

primrec stop_services ::
  "('b, 'e) backend_ops \<Rightarrow> (string \<times> vm_info) list \<Rightarrow> 'b \<Rightarrow> (unit, 'e up_error) result \<times> 'b" where
  "stop_services ops [] b = (Ok (), b)"
| "stop_services ops (s # ss) b = (case be_stop ops (vi_id (snd s)) 10 b of
     (Err e, b') \<Rightarrow> (Err (StopFailed (fst s) e), b') | (Ok _, b') \<Rightarrow> stop_services ops ss b')"

primrec destroy_services ::
  "('b, 'e) backend_ops \<Rightarrow> (string \<times> vm_info) list \<Rightarrow> 'b \<Rightarrow> (unit, 'e up_error) result \<times> 'b" where
  "destroy_services ops [] b = (Ok (), b)"
| "destroy_services ops (s # ss) b = (case be_destroy ops (vi_id (snd s)) b of
     (Err e, b') \<Rightarrow> (Err (DestroyFailed (fst s) e), b') | (Ok _, b') \<Rightarrow> destroy_services ops ss b')"

primrec delete_networks ::
  "(string \<times> string) list \<Rightarrow> network_manager \<Rightarrow> (unit, 'e up_error) result \<times> network_manager" where
  "delete_networks [] nm = (Ok (), nm)"
| "delete_networks (n # ns) nm = (case net_delete (snd n) nm of
     (Err e, nm') \<Rightarrow> (Err (DeleteNetworkFailed (fst n) e), nm') | (Ok _, nm') \<Rightarrow> delete_networks ns nm')"

definition compose_down ::
  "('b, 'e) backend_ops \<Rightarrow> compose_instance \<Rightarrow> 'b compose_world \<Rightarrow>
     (unit, 'e up_error) result \<times> 'b compose_world" where
  "compose_down ops inst w =
    (let w0 = w\<lparr>dns := foldl dns_unregister (dns w) (map fst (in_services inst))\<rparr> in
     case stop_services ops (in_services inst) (backend w0) of
       (Err e, b) \<Rightarrow> (Err e, w0\<lparr>backend := b\<rparr>)
     | (Ok _, b) \<Rightarrow> (case destroy_services ops (in_services inst) b of
         (Err e, b') \<Rightarrow> (Err e, w0\<lparr>backend := b'\<rparr>)
       | (Ok _, b') \<Rightarrow> (case delete_networks (in_networks inst) (net_manager w0) of
           (r, nm) \<Rightarrow> (r, w0\<lparr>backend := b', net_manager := nm\<rparr>))))"

record service_status =
  ss_name :: string
  ss_image :: string
  ss_state :: string
  ss_vm_id :: "string option"

definition vm_state_str :: "vm_state \<Rightarrow> string" where
  "vm_state_str st = (case st of
     Creating \<Rightarrow> ''creating'' | Running \<Rightarrow> ''running'' | Stopped \<Rightarrow> ''stopped'' | Failed \<Rightarrow> ''failed'')"

definition compose_ps :: "compose_instance \<Rightarrow> service_status list" where
  "compose_ps inst = map (\<lambda>(name, vm). \<lparr> ss_name = name, ss_image = vi_image vm,
     ss_state = vm_state_str (vi_state vm), ss_vm_id = Some (vi_id vm) \<rparr>) (in_services inst)"

section \<open>Every step returns\<close>

definition ticking :: "compose_env \<Rightarrow> bool" where
  "ticking env \<longleftrightarrow> (\<forall>k. clock env k < clock env (Suc k))"

lemma wait_for_healthy_returns:
  assumes "ticking env"
  shows "\<exists>h k'. wait_for_healthy env cid deadline k = Some (h, k')"
proof (induction "deadline - clock env k" arbitrary: k rule: less_induct)
  case less
  show ?case
  proof (cases "is_healthy (check_vm (ping_at env k) compose_health_config cid) \<or> clock env (k + 1) \<ge> deadline")
    case True
    then show ?thesis by (subst wait_for_healthy.simps) auto
  next
    case False
    then have "deadline - clock env (k + 1) < deadline - clock env k"
      using assms[unfolded ticking_def, rule_format, of k] by (intro diff_less_mono2) auto
    from less.hyps[OF this] show ?thesis using False by (subst wait_for_healthy.simps) simp
  qed
qed

text \<open>The part of the world a service of the project is brought up in.\<close>

definition addresses_ok :: "'b compose_world \<Rightarrow> bool" where
  "addresses_ok w \<longleftrightarrow> alloc_inv (ip_alloc w)"

lemma alloc_inv_healthy: "alloc_inv a \<Longrightarrow> \<exists>s. sa_state a = Healthy s"
  by (cases "sa_state a") (auto simp: alloc_inv_def)

lemma register_name_returns:
  assumes "addresses_ok w"
  shows "\<exists>w'. register_name svc w = Some w' \<and> addresses_ok w' \<and> trace w' = trace w \<and>
    host_count (ip_alloc w') = host_count (ip_alloc w) \<and>
    allocated_count (ip_alloc w') = min (unat (host_count (ip_alloc w)) - 3) (allocated_count (ip_alloc w) + 1)"
proof -
  have inv: "alloc_inv (ip_alloc w)" using assms by (simp add: addresses_ok_def)
  obtain s where s: "sa_state (ip_alloc w) = Healthy s" using alloc_inv_healthy[OF inv] by blast
  have st: "allocated s \<subseteq> usable (host_count (ip_alloc w))" "hosts_ok (host_count (ip_alloc w))"
    using alloc_inv_state[OF inv s] by blast+
  have cap: "card (allocated s) \<le> unat (host_count (ip_alloc w)) - 3"
    using card_mono[OF _ st(1)] card_usable[OF st(2)] by simp
  from inv s show ?thesis
  proof (cases rule: allocate_cases)
    case (found k a')
    have "insert k (allocated s) \<subseteq> usable (host_count (ip_alloc w))" using found(2) st(1) by blast
    from card_mono[OF _ this] have "Suc (card (allocated s)) \<le> unat (host_count (ip_alloc w)) - 3"
      using found(2) card_usable[OF st(2)] by simp
    then show ?thesis
      using found s by (auto simp: register_name_def addresses_ok_def allocated_count_def host_count_def)
  next
    case full
    then show ?thesis
      using inv s card_usable[OF st(2)] by (simp add: register_name_def addresses_ok_def allocated_count_def)
  qed
qed

lemma await_service_returns:
  assumes "ticking env"
  shows "\<exists>r w'. await_service env services svc vm w = Some (r, w') \<and> ip_alloc w' = ip_alloc w"
  using wait_for_healthy_returns[OF assms]
  by (auto simp: await_service_def split: option.splits) (metis not_Some_eq surj_pair)+

section \<open>The trace of a start\<close>

definition boot_events :: "services \<Rightarrow> string \<Rightarrow> compose_event list" where
  "boot_events services svc =
    VmUp svc # (if needs_health_wait svc services then [VmReady svc] else [])"

text \<open>A step that returns, with what it adds to the trace: all of it, or a part when it fails.\<close>

definition adds ::
  "'b compose_world \<Rightarrow> compose_event list \<Rightarrow> (('a, 'x) result \<times> 'b compose_world) option \<Rightarrow> bool" where
  "adds w es out \<longleftrightarrow> (\<exists>r w' part rest. out = Some (r, w') \<and> es = part @ rest \<and> trace w' = trace w @ part \<and>
     addresses_ok w' \<and> host_count (ip_alloc w') = host_count (ip_alloc w) \<and> (is_ok r \<longrightarrow> rest = []))"

lemma addsI:
  "out = Some (r, w') \<Longrightarrow> es = part @ rest \<Longrightarrow> trace w' = trace w @ part \<Longrightarrow> addresses_ok w' \<Longrightarrow>
   host_count (ip_alloc w') = host_count (ip_alloc w) \<Longrightarrow> (is_ok r \<Longrightarrow> rest = []) \<Longrightarrow> adds w es out"
  unfolding adds_def by blast

lemma adds_cases:
  assumes "adds w es out"
  obtains (ok) a w' where "out = Some (Ok a, w')" "trace w' = trace w @ es" "addresses_ok w'"
      "host_count (ip_alloc w') = host_count (ip_alloc w)"
  | (err) e w' part rest where "out = Some (Err e, w')" "es = part @ rest" "trace w' = trace w @ part"
      "addresses_ok w'" "host_count (ip_alloc w') = host_count (ip_alloc w)"
proof -
  obtain r w' part rest where a: "out = Some (r, w')" "es = part @ rest" "trace w' = trace w @ part"
    "addresses_ok w'" "host_count (ip_alloc w') = host_count (ip_alloc w)" "is_ok r \<longrightarrow> rest = []"
    using assms unfolding adds_def by blast
  show ?thesis
  proof (cases r)
    case (Ok x)
    then show ?thesis using a by (intro ok[of x w']) auto
  next
    case (Err e)
    then show ?thesis using a by (intro err[of e w' part rest]) auto
  qed
qed

lemma await_service_adds:
  assumes "ticking env" "addresses_ok w"
  shows "adds w (if needs_health_wait svc services then [VmReady svc] else [])
    (await_service env services svc vm w)"
proof (cases "needs_health_wait svc services")
  case False
  then show ?thesis
    using assms(2) by (intro addsI[where part = "[]" and rest = "[]"]) (auto simp: await_service_def)
next
  case needs: True
  show ?thesis
  proof (cases "vi_cid vm")
    case None
    then show ?thesis
      using needs assms(2)
      by (intro addsI[where part = "[]" and rest = "[VmReady svc]" and r = "Err (NoCid svc)"])
        (auto simp: await_service_def)
  next
    case (Some cid)
    obtain h k where w: "wait_for_healthy env cid (clock env (pings w) + 60000) (pings w) = Some (h, k)"
      using wait_for_healthy_returns[OF assms(1)] by blast
    show ?thesis
    proof (cases h)
      case True
      then show ?thesis
        using needs Some w assms(2)
        by (intro addsI[where part = "[VmReady svc]" and rest = "[]" and r = "Ok ()"
          and w' = "w\<lparr>pings := k, trace := trace w @ [VmReady svc]\<rparr>"])
          (auto simp: await_service_def addresses_ok_def)
    next
      case False
      then show ?thesis
        using needs Some w assms(2)
        by (intro addsI[where part = "[]" and rest = "[VmReady svc]" and r = "Err (NotHealthy svc)"
          and w' = "w\<lparr>pings := k\<rparr>"])
          (auto simp: await_service_def addresses_ok_def)
    qed
  qed
qed

lemma boot_service_adds:
  fixes ops :: "('b, 'e) backend_ops"
  assumes "ticking env" "addresses_ok w"
  shows "adds w (boot_events services svc) (boot_service ops env services ids svc w)"
proof (cases "map_of services svc")
  case None
  then show ?thesis
    using assms(2)
    by (intro addsI[where part = "[]" and rest = "boot_events services svc" and r = "Err (ServiceNotFound svc)"])
      (auto simp: boot_service_def)
next
  case (Some s)
  obtain r b where create: "be_create ops (build_vm_config svc s) (backend w) = (r, b)" by fastforce
  show ?thesis
  proof (cases r)
    case (Err e)
    then show ?thesis
      using Some create assms(2)
      by (intro addsI[where part = "[]" and rest = "boot_events services svc" and r = "Err (CreateVmFailed svc e)"
          and w' = "w\<lparr>backend := b\<rparr>"])
        (auto simp: boot_service_def addresses_ok_def)
  next
    case vm: (Ok vm)
    let ?w1 = "w\<lparr>backend := b, trace := trace w @ [VmUp svc]\<rparr>"
    obtain c :: "(unit, 'e up_error) result" and nm where conn: "connect_networks svc (vi_id vm) ids (cs_networks s) (net_manager ?w1) = (c, nm)"
      by fastforce
    show ?thesis
    proof (cases c)
      case (Err e)
      then show ?thesis
        using Some create vm conn assms(2)
        by (intro addsI[where part = "[VmUp svc]" and rest = "tl (boot_events services svc)" and r = "Err e"
          and w' = "?w1\<lparr>net_manager := nm\<rparr>"])
          (auto simp: boot_service_def addresses_ok_def boot_events_def)
    next
      case (Ok u)
      have "addresses_ok (?w1\<lparr>net_manager := nm\<rparr>)" using assms(2) by (simp add: addresses_ok_def)
      from register_name_returns[OF this, of svc] obtain w2 where
        w2: "register_name svc (?w1\<lparr>net_manager := nm\<rparr>) = Some w2" "addresses_ok w2"
          "trace w2 = trace w @ [VmUp svc]" "host_count (ip_alloc w2) = host_count (ip_alloc w)"
        by auto
      let ?more = "if needs_health_wait svc services then [VmReady svc] else []"
      have out: "boot_service ops env services ids svc w = (case await_service env services svc vm w2 of
          None \<Rightarrow> None | Some (Err e, w3) \<Rightarrow> Some (Err e, w3) | Some (Ok _, w3) \<Rightarrow> Some (Ok vm, w3))"
        using Some create vm conn Ok w2(1) by (simp add: boot_service_def Let_def)
      have "adds w2 ?more (await_service env services svc vm w2 :: ((unit, 'e up_error) result \<times> 'b compose_world) option)"
        by (rule await_service_adds[OF assms(1) w2(2)])
      then show ?thesis
      proof (cases rule: adds_cases)
        case (ok a w3)
        then show ?thesis
          using w2 out by (intro addsI[where part = "boot_events services svc" and rest = "[]" and r = "Ok vm" and w' = w3])
            (auto simp: boot_events_def)
      next
        case (err e w3 part rest)
        then show ?thesis
          using w2 out by (intro addsI[where part = "VmUp svc # part" and rest = rest and r = "Err e" and w' = w3])
            (auto simp: boot_events_def)
      qed
    qed
  qed
qed

lemma boot_services_adds:
  assumes "ticking env" "addresses_ok w"
  shows "adds w (concat (map (boot_events services) order)) (boot_services ops env services ids order up w)"
  using assms(2)
proof (induction order arbitrary: up w)
  case Nil
  then show ?case by (intro addsI[where part = "[]" and rest = "[]"]) auto
next
  case (Cons svc order)
  let ?more = "concat (map (boot_events services) order)"
  from boot_service_adds[OF assms(1) Cons.prems, of services svc ops ids] show ?case
  proof (cases rule: adds_cases)
    case (err e w' part rest)
    then show ?thesis
      by (intro addsI[where part = part and rest = "rest @ ?more" and r = "Err e" and w' = w']) auto
  next
    case (ok vm w')
    from Cons.IH[OF ok(3), of "up @ [(svc, vm)]"] show ?thesis
    proof (cases rule: adds_cases)
      case ok2: (ok a w2)
      then show ?thesis
        using ok by (intro addsI[where part = "boot_events services svc @ ?more" and rest = "[]" and r = "Ok a"
          and w' = w2]) auto
    next
      case err2: (err e w2 part rest)
      then show ?thesis
        using ok by (intro addsI[where part = "boot_events services svc @ part" and rest = rest and r = "Err e"
          and w' = w2]) auto
    qed
  qed
qed

lemma create_networks_adds:
  assumes "addresses_ok w"
  shows "adds w (map (\<lambda>n. NetworkUp (fst n)) ns) (Some (create_networks env project ns ids w))"
  using assms
proof (induction ns arbitrary: ids w)
  case Nil
  then show ?case by (intro addsI[where part = "[]" and rest = "[]"]) auto
next
  case (Cons n ns)
  let ?sg = "case cn_ipam (snd n) of None \<Rightarrow> (None, None)
    | Some ipam \<Rightarrow> (case ipam_config ipam of [] \<Rightarrow> (None, None) | c # cs \<Rightarrow> (ipam_subnet c, ipam_gateway c))"
  obtain sub gw where sg: "?sg = (sub, gw)" by (cases ?sg)
  let ?config = "\<lparr> nc_name = project @ ''_'' @ fst n, nc_subnet = sub, nc_gateway = gw \<rparr>"
  obtain r nm where c: "net_create (new_uuid env (uuids w)) ?config (net_manager w) = (r, nm)" by fastforce
  show ?case
  proof (cases r)
    case (Err e)
    have out: "create_networks env project (n # ns) ids w = (Err (CreateNetworkFailed (fst n) e), w\<lparr>net_manager := nm\<rparr>)"
      using c Err sg by simp
    show ?thesis
      unfolding out using Cons.prems
      by (intro addsI[where part = "[]" and rest = "map (\<lambda>n. NetworkUp (fst n)) (n # ns)"
        and r = "Err (CreateNetworkFailed (fst n) e)" and w' = "w\<lparr>net_manager := nm\<rparr>"])
        (auto simp: addresses_ok_def)
  next
    case (Ok info)
    let ?w = "w\<lparr>net_manager := nm, uuids := uuids w + 1, trace := trace w @ [NetworkUp (fst n)]\<rparr>"
    have out: "create_networks env project (n # ns) ids w =
        create_networks env project ns (ids @ [(fst n, ni_id info)]) ?w"
      using c Ok sg by simp
    have "addresses_ok ?w" using Cons.prems by (simp add: addresses_ok_def)
    from Cons.IH[OF this, of "ids @ [(fst n, ni_id info)]"] show ?thesis
    proof (cases rule: adds_cases)
      case (ok a w')
      then show ?thesis unfolding out
        by (intro addsI[where part = "map (\<lambda>n. NetworkUp (fst n)) (n # ns)" and rest = "[]" and r = "Ok a"
          and w' = w']) auto
    next
      case (err e w' part rest)
      then show ?thesis unfolding out
        by (intro addsI[where part = "NetworkUp (fst n) # part" and rest = rest and r = "Err e"
          and w' = w']) auto
    qed
  qed
qed

section \<open>Dependencies first\<close>

definition ordered_trace :: "services \<Rightarrow> compose_event list \<Rightarrow> bool" where
  "ordered_trace services es \<longleftrightarrow> (\<forall>pre svc post. es = pre @ VmUp svc # post \<longrightarrow>
     (\<forall>d \<in> set (service_deps services svc).
        VmUp d \<in> set pre \<and> (needs_health_wait d services \<longrightarrow> VmReady d \<in> set pre)))"

lemma ordered_trace_prefix: "ordered_trace services (es @ es') \<Longrightarrow> ordered_trace services es"
  by (simp add: ordered_trace_def)

lemma ordered_trace_Nil [simp]: "ordered_trace services []"
  by (simp add: ordered_trace_def)

lemma ordered_trace_snoc:
  "ordered_trace services (es @ [e]) \<longleftrightarrow> ordered_trace services es \<and>
    (\<forall>svc. e = VmUp svc \<longrightarrow> (\<forall>d \<in> set (service_deps services svc).
        VmUp d \<in> set es \<and> (needs_health_wait d services \<longrightarrow> VmReady d \<in> set es)))"
    (is "?L \<longleftrightarrow> ?R")
proof
  assume l: ?L
  then show ?R
    using ordered_trace_prefix[OF l] by (auto simp: ordered_trace_def)
next
  assume r: ?R
  show ?L
    unfolding ordered_trace_def
  proof (intro allI impI)
    fix pre svc post
    assume es: "es @ [e] = pre @ VmUp svc # post"
    show "\<forall>d \<in> set (service_deps services svc).
        VmUp d \<in> set pre \<and> (needs_health_wait d services \<longrightarrow> VmReady d \<in> set pre)"
    proof (cases post rule: rev_cases)
      case Nil
      then show ?thesis using es r by auto
    next
      case (snoc post' x)
      then have "es = pre @ VmUp svc # post'" using es by simp
      then show ?thesis using r by (auto simp: ordered_trace_def)
    qed
  qed
qed

lemma ordered_trace_networks: "ordered_trace services (map (\<lambda>n. NetworkUp (fst n)) ns)"
  by (induction ns rule: rev_induct) (auto simp: ordered_trace_snoc)

lemma ordered_trace_boot:
  assumes "ordered_trace services es"
    and "\<forall>d \<in> set (service_deps services svc). set (boot_events services d) \<subseteq> set es"
  shows "ordered_trace services (es @ boot_events services svc)"
proof -
  have "ordered_trace services (es @ [VmUp svc])"
    using assms by (auto simp: ordered_trace_snoc boot_events_def)
  then show ?thesis
    using ordered_trace_snoc[of services "es @ [VmUp svc]" "VmReady svc"] by (auto simp: boot_events_def)
qed

lemma ordered_trace_services:
  assumes "dep_ordered (service_deps services) order"
  shows "ordered_trace services
    (map (\<lambda>n. NetworkUp (fst n)) ns @ concat (map (boot_events services) order))"
  using assms
proof (induction order rule: rev_induct)
  case Nil
  then show ?case by (simp add: ordered_trace_networks)
next
  case (snoc svc order)
  then have "dep_ordered (service_deps services) order" "set (service_deps services svc) \<subseteq> set order"
    by (simp_all add: dep_ordered_snoc)
  then show ?case
    using ordered_trace_boot[OF snoc.IH, of svc] by fastforce
qed

lemma boot_services_names:
  "boot_services ops env services ids order up w = Some (Ok up', w') \<Longrightarrow> map fst up' = map fst up @ order"
  by (induction order arbitrary: up w) (auto split: option.splits prod.splits result.splits)

lemma dependency_sort_total:
  assumes "distinct (map fst services)"
  shows "(\<exists>order. dependency_sort services = Some (Ok order) \<and> start_order services order) \<or>
    (\<exists>e. dependency_sort services = Some (Err e))"
proof (cases "services = [] \<or> \<not> deps_defined services")
  case True
  then show ?thesis
    using dependency_sort_undefined[OF assms]
    by (auto simp: dependency_sort_def start_order_def dep_ordered_def)
next
  case False
  then obtain res G where *: "dependency_sort services =
      Some (if length res = length services then Ok res else Err DependencyCycle)"
    "kahn_inv (map fst services) (service_deps services) [] G res"
    using dependency_sort_defined[OF assms] by blast
  have inv: "distinct res" "set res \<subseteq> fst ` set services" "dep_ordered (service_deps services) res"
    using *(2) by (auto simp: kahn_inv_def)
  show ?thesis
  proof (cases "length res = length services")
    case True
    have "card (set res) = card (fst ` set services)"
      using distinct_card[OF inv(1)] distinct_card[OF assms] True by simp
    then have "set res = fst ` set services" using inv(2) by (intro card_subset_eq) auto
    then show ?thesis using * inv True by (simp add: start_order_def)
  next
    case False
    then show ?thesis using * by simp
  qed
qed

section \<open>Healthy means a ping was answered\<close>

lemma wait_for_healthy_pings:
  assumes "wait_for_healthy env cid deadline k = Some y"
  shows "k < snd y \<and> (fst y \<longrightarrow>
    (\<exists>j \<ge> k. j < snd y \<and> is_healthy (check_vm (ping_at env j) compose_health_config cid)))"
proof (rule wait_for_healthy.raw_induct[OF _ assms])
  fix f :: "compose_env \<Rightarrow> u32 \<Rightarrow> nat \<Rightarrow> nat \<Rightarrow> (bool \<times> nat) option" and env cid deadline k y
  assume IH: "\<And>env cid deadline k y. f env cid deadline k = Some y \<Longrightarrow> k < snd y \<and> (fst y \<longrightarrow>
      (\<exists>j \<ge> k. j < snd y \<and> is_healthy (check_vm (ping_at env j) compose_health_config cid)))"
  assume body: "(if is_healthy (check_vm (ping_at env k) compose_health_config cid) then Some (True, k + 1)
     else if clock env (k + 1) \<ge> deadline then Some (False, k + 1)
     else f env cid deadline (k + 1)) = Some y"
  show "k < snd y \<and> (fst y \<longrightarrow>
      (\<exists>j \<ge> k. j < snd y \<and> is_healthy (check_vm (ping_at env j) compose_health_config cid)))"
    using body by (auto split: if_splits dest!: IH dest: Suc_leD)
qed

text \<open>
  The machine the backend created for the service answered one of the pings of this period.
\<close>

definition ping_answered ::
  "('b, 'e) backend_ops \<Rightarrow> compose_env \<Rightarrow> services \<Rightarrow> nat \<Rightarrow> nat \<Rightarrow> string \<Rightarrow> bool" where
  "ping_answered ops env services k0 k1 svc \<longleftrightarrow>
    (\<exists>s b b' vm cid k. map_of services svc = Some s \<and>
       be_create ops (build_vm_config svc s) b = (Ok vm, b') \<and> vi_cid vm = Some cid \<and>
       k0 \<le> k \<and> k < k1 \<and> is_healthy (check_vm (ping_at env k) compose_health_config cid))"

definition justified ::
  "('b, 'e) backend_ops \<Rightarrow> compose_env \<Rightarrow> services \<Rightarrow> 'b compose_world \<Rightarrow> 'b compose_world \<Rightarrow> bool" where
  "justified ops env services w w' \<longleftrightarrow> pings w \<le> pings w' \<and> (\<exists>es. trace w' = trace w @ es \<and>
     (\<forall>svc. VmReady svc \<in> set es \<longrightarrow> ping_answered ops env services (pings w) (pings w') svc))"

lemma ping_answered_mono:
  "ping_answered ops env services a b svc \<Longrightarrow> a' \<le> a \<Longrightarrow> b \<le> b' \<Longrightarrow> ping_answered ops env services a' b' svc"
  unfolding ping_answered_def by (meson le_trans less_le_trans)

lemma justified_trans [trans]:
  assumes "justified ops env services w w1" "justified ops env services w1 w2"
  shows "justified ops env services w w2"
proof -
  obtain es es' where "trace w1 = trace w @ es" "trace w2 = trace w1 @ es'"
    "\<forall>svc. VmReady svc \<in> set es \<longrightarrow> ping_answered ops env services (pings w) (pings w1) svc"
    "\<forall>svc. VmReady svc \<in> set es' \<longrightarrow> ping_answered ops env services (pings w1) (pings w2) svc"
    "pings w \<le> pings w1" "pings w1 \<le> pings w2"
    using assms unfolding justified_def by blast
  then show ?thesis
    unfolding justified_def by (auto intro!: exI[of _ "es @ es'"] intro: ping_answered_mono)
qed

lemma justified_quiet:
  "pings w' = pings w \<Longrightarrow> trace w' = trace w @ es \<Longrightarrow> \<forall>svc. VmReady svc \<notin> set es \<Longrightarrow>
   justified ops env services w w'"
  by (simp add: justified_def)

lemma register_name_ghosts: "register_name svc w = Some w' \<Longrightarrow> pings w' = pings w \<and> trace w' = trace w"
  by (auto simp: register_name_def split: option.splits prod.splits result.splits)

lemma await_service_justified:
  assumes "map_of services svc = Some s" "be_create ops (build_vm_config svc s) b = (Ok vm, b')"
    "await_service env services svc vm w = Some (r, w')"
  shows "justified ops env services w w'"
proof (cases "w' = w")
  case True
  then show ?thesis by (intro justified_quiet[where es = "[]"]) auto
next
  case False
  then obtain cid h k where *: "vi_cid vm = Some cid" "pings w' = k" "trace w' = trace w @ (if h then [VmReady svc] else [])"
    "wait_for_healthy env cid (clock env (pings w) + 60000) (pings w) = Some (h, k)"
    using assms(3) by (auto simp: await_service_def split: if_splits option.splits prod.splits)
  from wait_for_healthy_pings[OF *(4)] show ?thesis
    using * assms(1,2) unfolding justified_def ping_answered_def
    by (intro conjI exI[of _ "if h then [VmReady svc] else []"]) (auto split: if_splits, blast)
qed

lemma boot_service_justified:
  fixes ops :: "('b, 'e) backend_ops"
  assumes "boot_service ops env services ids svc w = Some (r, w')"
  shows "justified ops env services w w'"
proof (cases "map_of services svc")
  case None
  then show ?thesis using assms by (intro justified_quiet[where es = "[]"]) (auto simp: boot_service_def)
next
  case (Some s)
  obtain rc b where create: "be_create ops (build_vm_config svc s) (backend w) = (rc, b)" by fastforce
  show ?thesis
  proof (cases rc)
    case (Err e)
    then show ?thesis
      using assms Some create by (intro justified_quiet[where es = "[]"]) (auto simp: boot_service_def)
  next
    case vm: (Ok vm)
    let ?w1 = "w\<lparr>backend := b, trace := trace w @ [VmUp svc]\<rparr>"
    obtain c :: "(unit, 'e up_error) result" and nm where
      conn: "connect_networks svc (vi_id vm) ids (cs_networks s) (net_manager ?w1) = (c, nm)" by fastforce
    let ?w2 = "?w1\<lparr>net_manager := nm\<rparr>"
    have up: "justified ops env services w ?w2" by (intro justified_quiet[where es = "[VmUp svc]"]) auto
    show ?thesis
    proof (cases c)
      case (Err e)
      then have "w' = ?w2" using assms Some create vm conn by (auto simp: boot_service_def)
      then show ?thesis using up by simp
    next
      case (Ok u)
      then obtain w3 ra where w3: "register_name svc ?w2 = Some w3"
        "(await_service env services svc vm w3 :: ((unit, 'e up_error) result \<times> 'b compose_world) option) = Some (ra, w')"
        using assms Some create vm conn
        by (auto simp: boot_service_def Let_def split: option.splits prod.splits result.splits)
      have "justified ops env services ?w2 w3"
        using register_name_ghosts[OF w3(1)] by (intro justified_quiet[where es = "[]"]) auto
      with up have "justified ops env services w w3" by (rule justified_trans)
      moreover have "justified ops env services w3 w'"
        using await_service_justified[OF Some create[unfolded vm] w3(2)] .
      ultimately show ?thesis by (rule justified_trans)
    qed
  qed
qed

lemma boot_services_justified:
  "boot_services ops env services ids order up w = Some (r, w') \<Longrightarrow> justified ops env services w w'"
proof (induction order arbitrary: up w)
  case Nil
  then show ?case by (auto simp: justified_def)
next
  case (Cons svc order)
  then show ?case
    by (auto split: option.splits prod.splits result.splits
        intro: justified_trans boot_service_justified)
qed

lemma create_networks_justified:
  "create_networks env project ns ids w = (r, w') \<Longrightarrow> justified ops env services w w'"
proof (induction ns arbitrary: ids w)
  case Nil
  then show ?case by (auto simp: justified_def)
next
  case (Cons n ns)
  have quiet: "justified ops env services w (w\<lparr>net_manager := nm, uuids := u, trace := trace w @ [NetworkUp m]\<rparr>)"
    "justified ops env services w (w\<lparr>net_manager := nm\<rparr>)" for nm u m
    by (simp_all add: justified_def)
  show ?case
    using Cons.prems
    by (auto simp: Let_def split: prod.splits result.splits intro: quiet justified_trans[OF quiet(1) Cons.IH])
qed

lemma compose_up_justified:
  fixes ops :: "('b, 'e) backend_ops"
  assumes "compose_up ops env project w = Some (r, w')"
  shows "justified ops env (cp_services project) w w'"
proof -
  let ?name = "case cp_name project of None \<Rightarrow> ''default'' | Some n \<Rightarrow> n"
  obtain rn w1 where c: "create_networks env ?name (cp_networks project) [] w
      = ((rn, w1) :: ((string \<times> string) list, 'e up_error) result \<times> 'b compose_world)"
    by fastforce
  have "w' = w1 \<or> (\<exists>ids order rb. boot_services ops env (cp_services project) ids order [] w1 = Some (rb, w'))"
    using assms c by (auto simp: compose_up_def Let_def split: option.splits prod.splits result.splits)
  then show ?thesis
    using create_networks_justified[OF c] by (blast intro: justified_trans boot_services_justified)
qed

lemma up_outcome_Ok:
  assumes "out = Some (Ok inst, w')" "trace w' = t @ es" "P es" "Q order" "map fst (in_services inst) = order"
    "es = f order"
  shows "\<exists>r w' es. out = Some (r, w') \<and> trace w' = t @ es \<and> P es \<and>
    (\<forall>inst. r = Ok inst \<longrightarrow> (\<exists>order. Q order \<and> map fst (in_services inst) = order \<and> es = f order))"
  by (rule exI[of _ "Ok inst"], rule exI[of _ w'], rule exI[of _ es]) (use assms in simp)

lemma up_outcome_Err:
  assumes "out = Some (Err e, w')" "trace w' = t @ es" "P es"
  shows "\<exists>r w' es. out = Some (r, w') \<and> trace w' = t @ es \<and> P es \<and> (\<forall>inst. r = Ok inst \<longrightarrow> Q es inst)"
  by (rule exI[of _ "Err e"], rule exI[of _ w'], rule exI[of _ es]) (use assms in simp)

lemma compose_up_trace:
  fixes ops :: "('b, 'e) backend_ops"
  assumes "distinct (map fst (cp_services project))" "addresses_ok w" "ticking env"
  shows "\<exists>r w' es. compose_up ops env project w = Some (r, w') \<and> trace w' = trace w @ es \<and>
    ordered_trace (cp_services project) es \<and>
    (\<forall>inst. r = Ok inst \<longrightarrow> (\<exists>order. start_order (cp_services project) order \<and>
       map fst (in_services inst) = order \<and>
       es = map (\<lambda>n. NetworkUp (fst n)) (cp_networks project) @
            concat (map (boot_events (cp_services project)) order)))"
proof -
  let ?services = "cp_services project" and ?nets = "map (\<lambda>n. NetworkUp (fst n)) (cp_networks project)"
  let ?name = "case cp_name project of None \<Rightarrow> ''default'' | Some n \<Rightarrow> n"
  let ?nets_out = "create_networks env ?name (cp_networks project) [] w
    :: ((string \<times> string) list, 'e up_error) result \<times> 'b compose_world"
  have "adds w ?nets (Some ?nets_out)" by (rule create_networks_adds[OF assms(2)])
  then show ?thesis
  proof (cases rule: adds_cases)
    case (err e w1 part rest)
    have "ordered_trace ?services ?nets" by (rule ordered_trace_networks)
    then have "ordered_trace ?services part"
      unfolding err(2) by (rule ordered_trace_prefix)
    moreover have "compose_up ops env project w = Some (Err e, w1)"
      using err(1) by (simp add: compose_up_def)
    ultimately show ?thesis using err(3) by (intro up_outcome_Err)
  next
    case (ok ids w1)
    from dependency_sort_total[OF assms(1)] show ?thesis
    proof (elim disjE exE conjE)
      fix e assume "dependency_sort ?services = Some (Err e)"
      then have "compose_up ops env project w = Some (Err (SortFailed e), w1)"
        using ok(1) by (simp add: compose_up_def)
      then show ?thesis using ok(2) ordered_trace_networks by (rule up_outcome_Err)
    next
      fix order assume o: "dependency_sort ?services = Some (Ok order)" "start_order ?services order"
      let ?boots = "concat (map (boot_events ?services) order)"
      have ord: "ordered_trace ?services (?nets @ ?boots)"
        using o(2) by (intro ordered_trace_services) (simp add: start_order_def)
      from boot_services_adds[OF assms(3) ok(3), of ?services order ops ids "[]"] show ?thesis
      proof (cases rule: adds_cases)
        case up: (ok up w2)
        have names: "map fst up = order" using boot_services_names[OF up(1)] by simp
        have out: "compose_up ops env project w =
            Some (Ok \<lparr> in_name = ?name, in_services = up, in_networks = ids \<rparr>, w2)"
          using ok(1) up(1) o(1) by (simp add: compose_up_def)
        have tr: "trace w2 = trace w @ ?nets @ ?boots" using ok(2) up(2) by simp
        have names': "map fst (in_services \<lparr> in_name = ?name, in_services = up, in_networks = ids \<rparr>) = order"
          using names by simp
        show ?thesis
          by (rule up_outcome_Ok[where P = "ordered_trace ?services" and Q = "start_order ?services"
                and f = "\<lambda>order. ?nets @ concat (map (boot_events ?services) order)",
                OF out tr ord o(2) names' refl])
      next
        case stop: (err e w2 part rest)
        have "ordered_trace ?services (?nets @ part)"
          using ord stop(2) by (auto intro: ordered_trace_prefix[where es' = rest])
        moreover have "compose_up ops env project w = Some (Err e, w2)"
          using ok(1) stop(1) o(1) by (simp add: compose_up_def)
        moreover have "trace w2 = trace w @ ?nets @ part" using ok(2) stop(3) by simp
        ultimately show ?thesis by (intro up_outcome_Err)
      qed
    qed
  qed
qed

text \<open>
  C4. A project comes up in dependency order, and bringing it up always ends.  Whatever the
  machine backend, the pings and the random identifiers answer, as long as time passes between
  two pings: when a machine is created, every service its service depends on already has its
  machine, and each of those that some service wants healthy is healthy; this holds up to the
  point of the failure when the start fails.  A service counts as healthy only if the machine
  the backend created for it answered one of the pings sent during the start.  A start that
  succeeds has created every network of the file and then exactly one machine per service, and
  the instance it returns holds exactly these services, entered in that order.
\<close>

theorem compose_up_in_order:
  fixes ops :: "('b, 'e) backend_ops"
  assumes "distinct (map fst (cp_services project))" "addresses_ok w" "ticking env"
  shows "\<exists>r w' es. compose_up ops env project w = Some (r, w') \<and> trace w' = trace w @ es \<and>
    ordered_trace (cp_services project) es \<and>
    (\<forall>svc. VmReady svc \<in> set es \<longrightarrow>
       ping_answered ops env (cp_services project) (pings w) (pings w') svc) \<and>
    (\<forall>inst. r = Ok inst \<longrightarrow> (\<exists>order. start_order (cp_services project) order \<and>
       map fst (in_services inst) = order \<and>
       es = map (\<lambda>n. NetworkUp (fst n)) (cp_networks project) @
            concat (map (boot_events (cp_services project)) order)))"
proof -
  obtain r w' es where up: "compose_up ops env project w = Some (r, w')" "trace w' = trace w @ es"
    "ordered_trace (cp_services project) es"
    "\<forall>inst. r = Ok inst \<longrightarrow> (\<exists>order. start_order (cp_services project) order \<and>
       map fst (in_services inst) = order \<and>
       es = map (\<lambda>n. NetworkUp (fst n)) (cp_networks project) @
            concat (map (boot_events (cp_services project)) order))"
    using compose_up_trace[OF assms] by blast
  have "\<forall>svc. VmReady svc \<in> set es \<longrightarrow> ping_answered ops env (cp_services project) (pings w) (pings w') svc"
    using compose_up_justified[OF up(1)] up(2) by (auto simp: justified_def)
  with up show ?thesis by blast
qed

definition demo_project :: compose_project where
  "demo_project = \<lparr> cp_name = Some ''shop'', cp_services =
     [(''web'', demo_service (DepsExtended [(''db'', \<lparr> condition = Some ''service_healthy'' \<rparr>)])),
      (''db'', demo_service DepsEmpty)],
     cp_networks = [], cp_volumes = [] \<rparr>"

definition demo_backend :: "(nat, string) backend_ops" where
  "demo_backend = \<lparr> be_create = \<lambda>config n. (Ok ((vm_info_new (replicate n CHR ''x'') (vc_image config) Running [] 512 1)\<lparr>vi_cid := Some 3\<rparr>), n + 1),
     be_stop = \<lambda>vm t n. (Ok (), n), be_destroy = \<lambda>vm n. (Ok (), n) \<rparr>"

definition demo_env :: compose_env where
  "demo_env = \<lparr> new_uuid = \<lambda>k. replicate k CHR ''u'', ping_at = \<lambda>k cid t. Ok (), clock = \<lambda>k. k \<rparr>"

definition demo_world :: "nat compose_world" where
  "demo_world = \<lparr> backend = 0, net_manager = manager_new, dns = dns_new,
     ip_alloc = demo_net DEFAULT_GATEWAY {} 2, uuids = 0, pings = 0, trace = [] \<rparr>"

lemma demo_world_ok: "addresses_ok demo_world"
  using subnet_new_inv[OF demo_net_new] by (simp add: addresses_ok_def demo_world_def)

lemma demo_project_names: "distinct (map fst (cp_services demo_project))"
  by (simp add: demo_project_def)

theorem compose_up_in_order_witness:
  "\<exists>r w' es. compose_up demo_backend demo_env demo_project demo_world = Some (r, w') \<and>
    trace w' = es \<and> ordered_trace (cp_services demo_project) es"
proof -
  have "ticking demo_env" by (simp add: ticking_def demo_env_def)
  from compose_up_in_order[OF demo_project_names demo_world_ok this, of demo_backend] show ?thesis
    by (auto simp: demo_world_def)
qed

section \<open>What a start and a stop leave behind\<close>

lemma await_service_frame:
  "await_service env services svc vm w = Some (r, w') \<Longrightarrow> ip_alloc w' = ip_alloc w \<and> dns w' = dns w"
  by (auto simp: await_service_def split: if_splits option.splits prod.splits)

lemma boot_service_Ok:
  fixes ops :: "('b, 'e) backend_ops"
  assumes "boot_service ops env services ids svc w = Some (Ok vm, w')"
  shows "\<exists>b nm w2. register_name svc (w\<lparr>backend := b, trace := trace w @ [VmUp svc], net_manager := nm\<rparr>) = Some w2 \<and>
    ip_alloc w' = ip_alloc w2 \<and> dns w' = dns w2"
proof -
  obtain b nm w2 r where
    *: "register_name svc (w\<lparr>backend := b, trace := trace w @ [VmUp svc], net_manager := nm\<rparr>) = Some w2"
      "(await_service env services svc vm w2 :: ((unit, 'e up_error) result \<times> 'b compose_world) option) = Some (r, w')"
    using assms
    by (simp add: boot_service_def Let_def split: option.split_asm prod.split_asm result.split_asm)
  show ?thesis using *(1) await_service_frame[OF *(2)] by blast
qed

lemma boot_service_count:
  fixes ops :: "('b, 'e) backend_ops"
  assumes "addresses_ok w" "boot_service ops env services ids svc w = Some (Ok vm, w')"
  shows "allocated_count (ip_alloc w') =
      min (unat (host_count (ip_alloc w)) - 3) (allocated_count (ip_alloc w) + 1) \<and>
    addresses_ok w' \<and> host_count (ip_alloc w') = host_count (ip_alloc w)"
proof -
  obtain b nm w2 where *:
    "register_name svc (w\<lparr>backend := b, trace := trace w @ [VmUp svc], net_manager := nm\<rparr>) = Some w2"
    "ip_alloc w' = ip_alloc w2"
    using boot_service_Ok[OF assms(2)] by blast
  have "addresses_ok (w\<lparr>backend := b, trace := trace w @ [VmUp svc], net_manager := nm\<rparr>)"
    using assms(1) by (simp add: addresses_ok_def)
  from register_name_returns[OF this, of svc] show ?thesis
    using * by (simp add: addresses_ok_def)
qed

lemma allocated_count_le:
  assumes "addresses_ok w"
  shows "allocated_count (ip_alloc w) \<le> unat (host_count (ip_alloc w)) - 3"
proof -
  have inv: "alloc_inv (ip_alloc w)" using assms by (simp add: addresses_ok_def)
  obtain s where s: "sa_state (ip_alloc w) = Healthy s" using alloc_inv_healthy[OF inv] by blast
  have "allocated s \<subseteq> usable (host_count (ip_alloc w))" "hosts_ok (host_count (ip_alloc w))"
    using alloc_inv_state[OF inv s] by blast+
  note st = this
  from card_mono[OF _ st(1)] show ?thesis
    using s card_usable[OF st(2)] by (simp add: allocated_count_def)
qed

lemma boot_services_count:
  fixes ops :: "('b, 'e) backend_ops"
  assumes "addresses_ok w" "boot_services ops env services ids order up w = Some (Ok up', w')"
  shows "allocated_count (ip_alloc w') =
      min (unat (host_count (ip_alloc w)) - 3) (allocated_count (ip_alloc w) + length order) \<and>
    addresses_ok w' \<and> host_count (ip_alloc w') = host_count (ip_alloc w)"
  using assms
proof (induction order arbitrary: up w)
  case Nil
  then show ?case using allocated_count_le[OF Nil(1)] by simp
next
  case (Cons svc order)
  then obtain vm w1 where 1: "boot_service ops env services ids svc w = Some (Ok vm, w1)"
    "boot_services ops env services ids order (up @ [(svc, vm)]) w1 = Some (Ok up', w')"
    by (auto split: option.splits prod.splits result.splits)
  note step = boot_service_count[OF Cons.prems(1) 1(1)]
  show ?case using Cons.IH[OF _ 1(2)] step by auto
qed

lemma create_networks_frame:
  "create_networks env project ns ids w = (r, w') \<Longrightarrow> ip_alloc w' = ip_alloc w \<and> dns w' = dns w"
  by (induction ns arbitrary: ids w) (auto simp: Let_def split: prod.splits result.splits)

lemma compose_up_Ok:
  fixes ops :: "('b, 'e) backend_ops"
  assumes "distinct (map fst (cp_services project))" "compose_up ops env project w = Some (Ok inst, w')"
  obtains ids w1 order where
    "create_networks env (case cp_name project of None \<Rightarrow> ''default'' | Some n \<Rightarrow> n) (cp_networks project) [] w
      = ((Ok ids, w1) :: ((string \<times> string) list, 'e up_error) result \<times> 'b compose_world)"
    "start_order (cp_services project) order"
    "boot_services ops env (cp_services project) ids order [] w1 = Some (Ok (in_services inst), w')"
    "in_networks inst = ids" "map fst (in_services inst) = order"
proof -
  obtain ids w1 order up where *:
    "create_networks env (case cp_name project of None \<Rightarrow> ''default'' | Some n \<Rightarrow> n) (cp_networks project) [] w
      = ((Ok ids, w1) :: ((string \<times> string) list, 'e up_error) result \<times> 'b compose_world)"
    "dependency_sort (cp_services project) = Some (Ok order)"
    "boot_services ops env (cp_services project) ids order [] w1 = Some (Ok up, w')"
    "in_networks inst = ids" "in_services inst = up"
    using assms(2) by (auto simp: compose_up_def Let_def split: option.splits prod.splits result.splits)
  have "start_order (cp_services project) order" using dependency_sort_total[OF assms(1)] *(2) by auto
  moreover have "map fst up = order" using boot_services_names[OF *(3)] by simp
  ultimately show ?thesis using * that by blast
qed

lemma compose_down_frame:
  fixes ops :: "('b, 'e) backend_ops"
  shows "compose_down ops inst w = (r, w') \<Longrightarrow> ip_alloc w' = ip_alloc w \<and>
    dns w' = foldl dns_unregister (dns w) (map fst (in_services inst))"
  by (auto simp: compose_down_def Let_def split: prod.splits result.splits)

lemma dns_unregister_forward:
  "forward (dns_unregister d name) m = (if m = to_lowercase name then None else forward d m)"
  by (auto simp: dns_unregister_def Let_def split: option.splits)

lemma dns_unregister_all:
  "forward (foldl dns_unregister d names) m = (if m \<in> to_lowercase ` set names then None else forward d m)"
  by (induction names arbitrary: d) (auto simp: dns_unregister_forward)

text \<open>Each of the names has an address of its own, one the allocator counts as handed out.\<close>

definition held_ips :: "subnet_allocator \<Rightarrow> u32 set" where
  "held_ips a = (case sa_state a of Healthy s \<Rightarrow> (+) (sa_base a) ` allocated s | Poisoned \<Rightarrow> {})"

definition names_ok :: "string set \<Rightarrow> 'b compose_world \<Rightarrow> bool" where
  "names_ok N w \<longleftrightarrow> inj_on (forward (dns w)) N \<and>
    (\<forall>n \<in> N. \<exists>ip \<in> held_ips (ip_alloc w). forward (dns w) n = Some ip)"

lemma dns_register_forward:
  "forward (dns_register d name ip) = (forward d)(to_lowercase name \<mapsto> ip)"
  by (simp add: dns_register_def Let_def)

lemma names_ok_register:
  assumes "names_ok N w" "to_lowercase svc \<notin> N" "ip \<notin> held_ips (ip_alloc w)"
    "held_ips a = insert ip (held_ips (ip_alloc w))"
  shows "names_ok (insert (to_lowercase svc) N) (w\<lparr>ip_alloc := a, dns := dns_register (dns w) svc ip\<rparr>)"
proof -
  have old: "\<forall>n \<in> N. forward (dns w) n \<noteq> Some ip" using assms(1,3) by (fastforce simp: names_ok_def)
  have "inj_on ((forward (dns w))(to_lowercase svc \<mapsto> ip)) N"
    using assms(1,2) by (subst inj_on_cong[where g = "forward (dns w)"]) (auto simp: names_ok_def)
  then show ?thesis
    using assms old by (auto simp: names_ok_def dns_register_forward inj_on_insert)
qed

lemma register_name_names:
  assumes "addresses_ok w" "names_ok N w" "to_lowercase svc \<notin> N"
    "allocated_count (ip_alloc w) < unat (host_count (ip_alloc w)) - 3" "register_name svc w = Some w'"
  shows "names_ok (insert (to_lowercase svc) N) w'"
proof -
  have inv: "alloc_inv (ip_alloc w)" using assms(1) by (simp add: addresses_ok_def)
  obtain s where s: "sa_state (ip_alloc w) = Healthy s" using alloc_inv_healthy[OF inv] by blast
  from inv s show ?thesis
  proof (cases rule: allocate_cases)
    case (found k a')
    let ?ip = "sa_base (ip_alloc w) + k"
    have "?ip \<notin> held_ips (ip_alloc w)" "held_ips a' = insert ?ip (held_ips (ip_alloc w))"
      using found(2,4) s by (auto simp: held_ips_def)
    from names_ok_register[OF assms(2,3) this] show ?thesis
      using found(1) assms(5) by (simp add: register_name_def)
  next
    case full
    then show ?thesis
      using assms(4) s card_usable[OF alloc_inv_hosts[OF inv]] by (simp add: allocated_count_def)
  qed
qed

lemma boot_service_names_ok:
  fixes ops :: "('b, 'e) backend_ops"
  assumes "addresses_ok w" "names_ok N w" "to_lowercase svc \<notin> N"
    "allocated_count (ip_alloc w) < unat (host_count (ip_alloc w)) - 3"
    "boot_service ops env services ids svc w = Some (Ok vm, w')"
  shows "names_ok (insert (to_lowercase svc) N) w'"
proof -
  obtain b nm w2 where *:
    "register_name svc (w\<lparr>backend := b, trace := trace w @ [VmUp svc], net_manager := nm\<rparr>) = Some w2"
    "ip_alloc w' = ip_alloc w2" "dns w' = dns w2"
    using boot_service_Ok[OF assms(5)] by blast
  have "names_ok (insert (to_lowercase svc) N) w2"
    using assms(1-4) by (intro register_name_names[OF _ _ _ _ *(1)]) (simp_all add: addresses_ok_def names_ok_def)
  then show ?thesis using *(2,3) by (simp add: names_ok_def)
qed

lemma boot_services_names_ok:
  fixes ops :: "('b, 'e) backend_ops"
  assumes "addresses_ok w" "names_ok N w" "distinct (map to_lowercase order)"
    "to_lowercase ` set order \<inter> N = {}"
    "allocated_count (ip_alloc w) + length order \<le> unat (host_count (ip_alloc w)) - 3"
    "boot_services ops env services ids order up w = Some (Ok up', w')"
  shows "names_ok (to_lowercase ` set order \<union> N) w'"
  using assms
proof (induction order arbitrary: N up w)
  case Nil
  then show ?case by simp
next
  case (Cons svc order)
  then obtain vm w1 where 1: "boot_service ops env services ids svc w = Some (Ok vm, w1)"
    "boot_services ops env services ids order (up @ [(svc, vm)]) w1 = Some (Ok up', w')"
    by (auto split: option.splits prod.splits result.splits)
  have step: "allocated_count (ip_alloc w1) = allocated_count (ip_alloc w) + 1"
    "addresses_ok w1" "host_count (ip_alloc w1) = host_count (ip_alloc w)"
    using boot_service_count[OF Cons.prems(1) 1(1)] Cons.prems(5) by auto
  have "names_ok (insert (to_lowercase svc) N) w1"
    using Cons.prems by (intro boot_service_names_ok[OF Cons.prems(1,2) _ _ 1(1)]) auto
  from Cons.IH[OF step(2) this _ _ _ 1(2)] show ?case
    using Cons.prems step by auto
qed

lemma boot_service_full:
  fixes ops :: "('b, 'e) backend_ops"
  assumes "addresses_ok w" "allocated_count (ip_alloc w) = unat (host_count (ip_alloc w)) - 3"
    "boot_service ops env services ids svc w = Some (Ok vm, w')"
  shows "dns w' = dns w"
proof -
  obtain b nm w2 where *:
    "register_name svc (w\<lparr>backend := b, trace := trace w @ [VmUp svc], net_manager := nm\<rparr>) = Some w2"
    "dns w' = dns w2"
    using boot_service_Ok[OF assms(3)] by blast
  have inv: "alloc_inv (ip_alloc w)" using assms(1) by (simp add: addresses_ok_def)
  obtain s where s: "sa_state (ip_alloc w) = Healthy s" using alloc_inv_healthy[OF inv] by blast
  from inv s show ?thesis
  proof (cases rule: allocate_cases)
    case (found k a')
    have "allocated s = usable (host_count (ip_alloc w))"
      using alloc_inv_state[OF inv s] assms(2) s card_usable[OF alloc_inv_hosts[OF inv]]
      by (intro card_subset_eq) (auto simp: allocated_count_def)
    then show ?thesis using found(2) by simp
  next
    case full
    then show ?thesis using * by (auto simp: register_name_def)
  qed
qed

lemma boot_services_full:
  fixes ops :: "('b, 'e) backend_ops"
  assumes "addresses_ok w" "allocated_count (ip_alloc w) = unat (host_count (ip_alloc w)) - 3"
    "boot_services ops env services ids order up w = Some (Ok up', w')"
  shows "dns w' = dns w"
  using assms
proof (induction order arbitrary: up w)
  case Nil
  then show ?case by simp
next
  case (Cons svc order)
  then obtain vm w1 where 1: "boot_service ops env services ids svc w = Some (Ok vm, w1)"
    "boot_services ops env services ids order (up @ [(svc, vm)]) w1 = Some (Ok up', w')"
    by (auto split: option.splits prod.splits result.splits)
  show ?case
    using Cons.IH[OF _ _ 1(2)] boot_service_count[OF Cons.prems(1) 1(1)] boot_service_full[OF Cons.prems(1,2) 1(1)]
      Cons.prems(2) by auto
qed

lemma names_ok_resolve:
  assumes "names_ok (to_lowercase ` set names) w" "distinct (map to_lowercase names)" "a \<in> set names"
  shows "\<exists>ip. resolve (dns w) a = Some ip \<and> (\<forall>b \<in> set names. b \<noteq> a \<longrightarrow> resolve (dns w) b \<noteq> Some ip)"
proof -
  obtain ip where ip: "forward (dns w) (to_lowercase a) = Some ip"
    using assms(1,3) by (auto simp: names_ok_def)
  have "resolve (dns w) b \<noteq> Some ip" if "b \<in> set names" "b \<noteq> a" for b
  proof -
    have "to_lowercase b \<noteq> to_lowercase a"
      using assms(2,3) that by (auto simp: distinct_map dest: inj_onD)
    then have "forward (dns w) (to_lowercase b) \<noteq> forward (dns w) (to_lowercase a)"
      using assms(1,3) that by (auto simp: names_ok_def dest: inj_onD)
    then show ?thesis using ip by (simp add: resolve_def)
  qed
  then show ?thesis using ip by (auto simp: resolve_def)
qed

text \<open>
  C9. Starting a project gives every service a name of its own, and stopping it takes the names
  back but not the addresses.  When a start succeeds and the address pool had room, every
  service name resolves, to an address that no other service of the project has.  After a stop,
  successful or not, none of the names resolves; but every address the start took is still
  taken, so the pool shrinks by the number of services with each start and stop, and once it is
  empty a start succeeds without giving its services any name.
\<close>

theorem compose_names_and_addresses:
  fixes ops :: "('b, 'e) backend_ops"
  assumes "distinct (map fst (cp_services project))" "addresses_ok w"
    "compose_up ops env project w = Some (Ok inst, w1)" "compose_down ops inst w1 = (r, w2)"
  defines "room \<equiv> unat (host_count (ip_alloc w)) - 3"
    and "names \<equiv> map fst (cp_services project)"
  shows "(distinct (map to_lowercase names) \<and> allocated_count (ip_alloc w) + length names \<le> room \<longrightarrow>
      (\<forall>a \<in> set names. \<exists>ip. resolve (dns w1) a = Some ip \<and>
         (\<forall>b \<in> set names. b \<noteq> a \<longrightarrow> resolve (dns w1) b \<noteq> Some ip))) \<and>
    (allocated_count (ip_alloc w) = room \<longrightarrow> (\<forall>a. resolve (dns w1) a = resolve (dns w) a)) \<and>
    (\<forall>a \<in> set names. resolve (dns w2) a = None) \<and>
    allocated_count (ip_alloc w2) = min room (allocated_count (ip_alloc w) + length names)"
proof -
  obtain ids w0 order where up:
    "create_networks env (case cp_name project of None \<Rightarrow> ''default'' | Some n \<Rightarrow> n) (cp_networks project) [] w
      = ((Ok ids, w0) :: ((string \<times> string) list, 'e up_error) result \<times> 'b compose_world)"
    "start_order (cp_services project) order"
    "boot_services ops env (cp_services project) ids order [] w0 = Some (Ok (in_services inst), w1)"
    "map fst (in_services inst) = order"
    using compose_up_Ok[OF assms(1,3)] by metis
  have w0: "ip_alloc w0 = ip_alloc w" "dns w0 = dns w" using create_networks_frame[OF up(1)] by simp_all
  then have ok0: "addresses_ok w0" using assms(2) by (simp add: addresses_ok_def)
  have order: "distinct order" "set order = set names" "length order = length names"
    using up(2) assms(1) distinct_card[of order] distinct_card[of names]
    by (simp_all add: start_order_def names_def)
  have down: "ip_alloc w2 = ip_alloc w1" "dns w2 = foldl dns_unregister (dns w1) order"
    using compose_down_frame[OF assms(4)] up(4) by simp_all
  show ?thesis
  proof (intro conjI impI)
    show "allocated_count (ip_alloc w2) = min room (allocated_count (ip_alloc w) + length names)"
      using boot_services_count[OF ok0 up(3)] by (simp add: w0 down order room_def)
    show "\<forall>a \<in> set names. resolve (dns w2) a = None"
      by (simp add: resolve_def down dns_unregister_all order)
    show "\<forall>a. resolve (dns w1) a = resolve (dns w) a" if "allocated_count (ip_alloc w) = room"
      using boot_services_full[OF ok0 _ up(3)] that by (simp add: w0 room_def resolve_def)
  next
    assume fits: "distinct (map to_lowercase names) \<and> allocated_count (ip_alloc w) + length names \<le> room"
    have "inj_on to_lowercase (set names)" using fits by (simp add: distinct_map)
    then have "distinct (map to_lowercase order)" using order by (simp add: distinct_map)
    moreover have "names_ok {} w0" by (simp add: names_ok_def)
    ultimately have "names_ok (to_lowercase ` set order \<union> {}) w1"
      using fits by (intro boot_services_names_ok[OF ok0 _ _ _ _ up(3)]) (simp_all add: w0 order room_def)
    then have "names_ok (to_lowercase ` set names) w1" by (simp add: order)
    from names_ok_resolve[OF this] show "\<forall>a \<in> set names. \<exists>ip. resolve (dns w1) a = Some ip \<and>
         (\<forall>b \<in> set names. b \<noteq> a \<longrightarrow> resolve (dns w1) b \<noteq> Some ip)"
      using fits by blast
  qed
qed

lemma demo_project_order: "dependency_sort (cp_services demo_project) = Some (Ok [''db'', ''web''])"
  by (simp add: demo_project_def dependency_sort_def demo_service_def extract_dependency_names_def
      kahn_loop_Nil kahn_loop_Cons dependents_of_def Let_def)

lemma demo_wait: "wait_for_healthy demo_env cid deadline k = Some (True, k + 1)"
  by (subst wait_for_healthy.simps) (simp add: demo_env_def check_vm_def is_healthy_def)

lemma demo_boot:
  assumes "addresses_ok w" "svc \<in> {''db'', ''web''}"
  shows "\<exists>vm w'. boot_service demo_backend demo_env (cp_services demo_project) ids svc w = Some (Ok vm, w') \<and>
    addresses_ok w'"
proof -
  let ?w1 = "w\<lparr>backend := backend w + 1, trace := trace w @ [VmUp svc], net_manager := net_manager w\<rparr>"
  have "addresses_ok ?w1" using assms(1) by (simp add: addresses_ok_def)
  from register_name_returns[OF this, of svc] obtain w2 where
    "register_name svc ?w1 = Some w2" "addresses_ok w2" by blast
  then show ?thesis
    using assms(2)
    by (auto simp: boot_service_def demo_project_def demo_backend_def demo_service_def await_service_def demo_wait
        vm_info_new_def addresses_ok_def)
qed

lemma demo_project_up:
  "\<exists>inst w'. compose_up demo_backend demo_env demo_project demo_world = Some (Ok inst, w')"
proof -
  let ?boot = "boot_service demo_backend demo_env (cp_services demo_project) []"
  obtain vm w1 where 1: "?boot ''db'' demo_world = Some (Ok vm, w1)" "addresses_ok w1"
    using demo_boot[OF demo_world_ok, of "''db''" "[]"] by auto
  obtain vm' w2 where "?boot ''web'' w1 = Some (Ok vm', w2)"
    using demo_boot[OF 1(2), of "''web''" "[]"] by auto
  moreover have "cp_networks demo_project = []" by (simp add: demo_project_def)
  ultimately show ?thesis using 1 demo_project_order by (auto simp: compose_up_def Let_def)
qed

theorem compose_names_and_addresses_witness:
  "\<exists>inst w1. compose_up demo_backend demo_env demo_project demo_world = Some (Ok inst, w1) \<and>
    allocated_count (ip_alloc demo_world) = 0 \<and>
    allocated_count (ip_alloc (snd (compose_down demo_backend inst w1))) = 2 \<and>
    resolve (dns w1) ''db'' \<noteq> None \<and> resolve (dns w1) ''db'' \<noteq> resolve (dns w1) ''web'' \<and>
    resolve (dns (snd (compose_down demo_backend inst w1))) ''db'' = None"
proof -
  obtain inst w1 where up: "compose_up demo_backend demo_env demo_project demo_world = Some (Ok inst, w1)"
    using demo_project_up by blast
  obtain r w2 where down: "compose_down demo_backend inst w1 = (r, w2)" by fastforce
  have names: "map fst (cp_services demo_project) = [''web'', ''db'']" by (simp add: demo_project_def)
  have "allocated_count (ip_alloc demo_world) = 0" "host_count (ip_alloc demo_world) = 256"
    by (simp_all add: demo_world_def demo_net_def allocated_count_def host_count_def)
  moreover have "distinct (map to_lowercase [''web'', ''db''])" by code_simp
  ultimately show ?thesis
    using compose_names_and_addresses[OF demo_project_names demo_world_ok up down, unfolded names] up down
    by auto
qed

section \<open>A failed start is not undone\<close>

abbreviation net_names :: "'b compose_world \<Rightarrow> string set" where
  "net_names w \<equiv> dom (name_index (net_manager w))"

lemma net_create_names: "net_create uuid config nm = (r, nm') \<Longrightarrow>
  dom (name_index nm') = insert (nc_name config) (dom (name_index nm))"
  by (auto simp: net_create_def Let_def split: if_splits prod.splits)

lemma net_connect_names: "net_connect_vm i vm nm = (r, nm') \<Longrightarrow> name_index nm' = name_index nm"
  by (auto simp: net_connect_vm_def split: option.splits)

lemma connect_networks_names:
  "connect_networks svc vm ids ns nm = (r, nm') \<Longrightarrow> name_index nm' = name_index nm"
  by (induction ns arbitrary: nm) (auto split: option.splits prod.splits result.splits dest: net_connect_names)

lemma register_name_frame: "register_name svc w = Some w' \<Longrightarrow> net_manager w' = net_manager w"
  by (auto simp: register_name_def split: option.splits prod.splits result.splits)

lemma await_service_nets: "await_service env services svc vm w = Some (r, w') \<Longrightarrow> net_manager w' = net_manager w"
  by (auto simp: await_service_def split: if_splits option.splits prod.splits)

lemma boot_service_nets:
  "boot_service ops env services ids svc w = Some (r, w') \<Longrightarrow>
   name_index (net_manager w') = name_index (net_manager w)"
  by (simp add: boot_service_def Let_def split: option.split_asm prod.split_asm result.split_asm)
    (auto dest!: register_name_frame await_service_nets connect_networks_names)

lemma boot_services_nets:
  "boot_services ops env services ids order up w = Some (r, w') \<Longrightarrow>
   name_index (net_manager w') = name_index (net_manager w)"
  by (induction order arbitrary: up w)
    (auto split: option.splits prod.splits result.splits dest: boot_service_nets)

lemma create_networks_names:
  fixes r :: "((string \<times> string) list, 'e up_error) result" and w :: "'b compose_world"
  shows "create_networks env project ns ids w = (r, w') \<Longrightarrow>
   net_names w \<subseteq> net_names w' \<and> (ns \<noteq> [] \<longrightarrow> project @ ''_'' @ fst (hd ns) \<in> net_names w')"
proof (induction ns arbitrary: ids w)
  case Nil
  then show ?case by simp
next
  case (Cons n ns)
  obtain sub gw where c: "(create_networks env project (n # ns) ids w
      :: ((string \<times> string) list, 'e up_error) result \<times> 'b compose_world) =
      (case net_create (new_uuid env (uuids w)) \<lparr> nc_name = project @ ''_'' @ fst n, nc_subnet = sub, nc_gateway = gw \<rparr>
         (net_manager w) of
         (Err e, nm) \<Rightarrow> (Err (CreateNetworkFailed (fst n) e), w\<lparr>net_manager := nm\<rparr>)
       | (Ok info, nm) \<Rightarrow> create_networks env project ns (ids @ [(fst n, ni_id info)])
           (w\<lparr>net_manager := nm, uuids := uuids w + 1, trace := trace w @ [NetworkUp (fst n)]\<rparr>))"
    by (simp add: Let_def case_prod_beta)
  let ?config = "\<lparr> nc_name = project @ ''_'' @ fst n, nc_subnet = sub, nc_gateway = gw \<rparr>"
  obtain r1 nm where cr: "net_create (new_uuid env (uuids w)) ?config (net_manager w) = (r1, nm)" by fastforce
  have names: "dom (name_index nm) = insert (project @ ''_'' @ fst n) (net_names w)"
    using net_create_names[OF cr] by simp
  show ?case
  proof (cases r1)
    case (Err e)
    then have "w' = w\<lparr>net_manager := nm\<rparr>"
      using trans[OF sym[OF Cons.prems] c] cr by simp
    then show ?thesis using names by auto
  next
    case (Ok info)
    have "create_networks env project ns (ids @ [(fst n, ni_id info)])
        (w\<lparr>net_manager := nm, uuids := uuids w + 1, trace := trace w @ [NetworkUp (fst n)]\<rparr>) = (r, w')"
      using trans[OF sym[OF Cons.prems] c] cr Ok by simp
    from Cons.IH[OF this] show ?thesis using names by auto
  qed
qed

text \<open>
  After any attempt to start a project that has networks, successful or failed in whatever
  way, another attempt is refused at the first network.  The networks are created before the
  services are sorted, so a dependency cycle is enough.
\<close>

lemma compose_up_twice:
  fixes ops :: "('b, 'e) backend_ops"
  assumes "compose_up ops env project w = Some (r, w')" "cp_networks project = n # ns"
  shows "\<exists>name. compose_up ops env project w' = Some (Err (CreateNetworkFailed (fst n) (NetworkExists name)), w')"
proof -
  let ?name = "case cp_name project of None \<Rightarrow> ''default'' | Some n \<Rightarrow> n"
  obtain r1 w1 where c: "create_networks env ?name (n # ns) [] w
      = ((r1, w1) :: ((string \<times> string) list, 'e up_error) result \<times> 'b compose_world)"
    by fastforce
  have "?name @ ''_'' @ fst n \<in> net_names w1" using create_networks_names[OF c] by simp
  moreover have "name_index (net_manager w') = name_index (net_manager w1)"
    using assms c
    by (simp add: compose_up_def Let_def del: create_networks.simps
        split: option.split_asm prod.split_asm result.split_asm) (auto dest: boot_services_nets)
  ultimately have "name_index (net_manager w') (?name @ ''_'' @ fst n) \<noteq> None" by auto
  then show ?thesis
    using assms(2) by (simp add: compose_up_def net_create_def Let_def case_prod_beta)
qed

section \<open>What validation buys\<close>

lemma check_dep_names_Ok: "is_ok (check_dep_names all svc deps) \<longleftrightarrow> set deps \<subseteq> fst ` set all"
  by (induction deps) auto

lemma validate_services_Ok:
  "is_ok (validate_services all ss) \<longleftrightarrow> (\<forall>(n, s) \<in> set ss. cs_image s \<noteq> [] \<and>
     set (extract_dependency_names (cs_depends_on s)) \<subseteq> fst ` set all)"
proof (induction ss)
  case (Cons s ss)
  have "is_ok (validate_services all (s # ss)) \<longleftrightarrow> cs_image (snd s) \<noteq> [] \<and>
      is_ok (check_dep_names all (fst s) (extract_dependency_names (cs_depends_on (snd s)))) \<and>
      is_ok (validate_services all ss)"
    by (simp split: result.split)
  then show ?case using Cons by (auto simp: check_dep_names_Ok)
qed simp

lemma validate_project_deps:
  assumes "distinct (map fst (cp_services p))" "validate_project p = Ok ()"
  shows "deps_defined (cp_services p)"
proof -
  have "is_ok (validate_services (cp_services p) (cp_services p))"
    using assms(2) by (simp add: validate_project_def)
  then show ?thesis
    using deps_defined_pairs[OF assms(1)] by (auto simp: validate_services_Ok)
qed

end
