(* ===== verification/Guest_Links.thy ===== *)
theory Guest_Links
  imports Vm_Types Ip_Alloc
begin

text \<open>
  The addresses of guests: the point-to-point link derived from a machine's CID and the shared
  networks derived from a name (\<^verbatim>\<open>visor-types/src/lib.rs\<close>,
  \<^verbatim>\<open>GuestNetworkLink\<close> and \<^verbatim>\<open>NamedNetworkSupernet\<close>).  The parser of
  IPv4 addresses is the one of the standard library: four decimal octets of at most three
  digits, without leading zeros.
\<close>

section \<open>Addresses as numbers\<close>

fun le_value :: "u8 list \<Rightarrow> nat" where
  "le_value [] = 0"
| "le_value (b # bs) = unat b + 256 * le_value bs"

lemma le_value_bound: "le_value bs < 256 ^ length bs"
proof (induction bs)
  case (Cons b bs)
  have "unat b < 256" using unsigned_less[of b] by simp
  then show ?case using Cons by simp
qed simp

lemma unat_le_word:
  "8 * length bs \<le> LENGTH('a::len) \<Longrightarrow> unat (le_word bs :: 'a word) = le_value bs"
proof (induction bs)
  case (Cons b bs)
  have len: "8 \<le> LENGTH('a)" using Cons.prems by simp
  have "(le_word (b # bs) :: 'a word) = ucast b + push_bit 8 (le_word bs)"
    by (simp, rule disjunctive_add [symmetric]) (auto simp: bit_simps dest: bit_imp_le_length)
  also have "\<dots> = of_nat (unat b + 256 * le_value bs)"
    using Cons by (simp add: push_bit_eq_mult flip: Cons.IH)
  finally have *: "(le_word (b # bs) :: 'a word) = of_nat (le_value (b # bs))" by simp
  have "le_value (b # bs) < 2 ^ (8 * length (b # bs))"
    using le_value_bound[of "b # bs"] unfolding power_mult by simp
  also have "\<dots> \<le> 2 ^ LENGTH('a)" using Cons.prems by (intro power_increasing) auto
  finally show ?case unfolding * by (simp only: unsigned_of_nat take_bit_nat_eq_self of_nat_id)
qed simp

lemma unat_ipv4: "unat (ipv4 a b c d) = unat a * 2 ^ 24 + unat b * 2 ^ 16 + unat c * 2 ^ 8 + unat d"
  by (simp add: ipv4_def unat_le_word del: le_word.simps)

section \<open>Links by CID\<close>

record guest_network_link =
  guest_ip :: u32
  gateway_ip :: u32
  netmask :: u32

definition cid_index :: "u32 \<Rightarrow> u32" where
  "cid_index cid = (if cid < FIRST_GUEST_CID then 0 else cid - FIRST_GUEST_CID)"

definition for_cid :: "u32 \<Rightarrow> guest_network_link" where
  "for_cid cid =
    (let index = cid_index cid;
         third_octet = ucast (index div 64) :: u8;
         fourth_octet = ucast ((index mod 64) * 4) :: u8
     in \<lparr> guest_ip = ipv4 172 20 third_octet (fourth_octet + 2),
          gateway_ip = ipv4 172 20 third_octet (fourth_octet + 1),
          netmask = ipv4 255 255 255 252 \<rparr>)"

abbreviation link_block :: "u32 \<Rightarrow> nat" where
  "link_block cid \<equiv> unat (cid_index cid) mod 16384"

lemma for_cid_octets:
  "unat (ucast (i div 64) :: u8) = (unat (i :: u32) div 64) mod 256"
  "unat (ucast ((i mod 64) * 4) :: u8) = (unat i mod 64) * 4"
proof -
  show "unat (ucast (i div 64) :: u8) = (unat i div 64) mod 256"
    by (simp add: unsigned_ucast_eq unat_div take_bit_eq_mod)
  have "unat (i mod 64) < 64" using unat_mod_word[of i 64] by simp
  then have "unat ((i mod 64) * 4) = (unat i mod 64) * 4"
    by (subst unat_mult_lem[THEN iffD1]) (simp_all add: unat_mod_word)
  then show "unat (ucast ((i mod 64) * 4) :: u8) = (unat i mod 64) * 4"
    using mod_less_divisor[of 64 "unat i"] by (simp add: unsigned_ucast_eq take_bit_nat_eq_self)
qed

lemma for_cid_addresses:
  "unat (gateway_ip (for_cid cid)) = unat (ipv4 172 20 0 0) + 4 * link_block cid + 1"
  "unat (guest_ip (for_cid cid)) = unat (ipv4 172 20 0 0) + 4 * link_block cid + 2"
proof -
  let ?i = "cid_index cid"
  let ?f = "ucast ((?i mod 64) * 4) :: u8"
  have f: "unat ?f = (unat ?i mod 64) * 4" by (rule for_cid_octets)
  have lt: "unat ?i mod 64 < 64" by simp
  have "unat (?f + 1) = unat ?f + 1" "unat (?f + 2) = unat ?f + 2"
    using f lt by (subst unat_add_lem[THEN iffD1]; simp)+
  moreover have "(unat ?i div 64) mod 256 * 256 + (unat ?i mod 64) * 4 = 4 * (unat ?i mod 16384)"
    using mod_mult2_eq[of "unat ?i" 64 256] by simp
  ultimately show "unat (gateway_ip (for_cid cid)) = unat (ipv4 172 20 0 0) + 4 * link_block cid + 1"
    "unat (guest_ip (for_cid cid)) = unat (ipv4 172 20 0 0) + 4 * link_block cid + 2"
    by (simp_all add: for_cid_def Let_def unat_ipv4 for_cid_octets)
qed

text \<open>The network part of an address.\<close>

lemma unat_network:
  fixes x :: u32
  assumes "n < 32"
  shows "unat (x AND push_bit n (- 1)) = unat x - unat x mod 2 ^ n"
proof -
  have "x AND push_bit n (- 1) = push_bit n (drop_bit n x)"
    by (auto simp: bit_eq_iff bit_simps)
  also have "\<dots> = x - take_bit n x" using bits_ident[of n x] by (simp add: algebra_simps)
  finally have eq: "x AND push_bit n (- 1) = x - take_bit n x" .
  have t: "unat (take_bit n x) = unat x mod 2 ^ n"
    unfolding unsigned_take_bit_eq by (simp add: take_bit_eq_mod)
  then have "take_bit n x \<le> x" by (simp add: word_le_nat_alt)
  then show ?thesis unfolding eq using t by (simp add: unat_sub)
qed

lemma netmasks: "ipv4 255 255 255 252 = push_bit 2 (- 1)" "ipv4 255 255 255 0 = push_bit 8 (- 1)"
  by (simp_all add: ipv4_def mask_eq_exp_minus_1 not_eq_complement)

text \<open>
  C29. The point-to-point links of machines do not overlap.  The gateway and the guest are the
  two usable addresses of one /30 network, and the links of two machines either are the same
  link or lie in different networks.  Machines whose CIDs are fewer than 16384 apart have
  different networks; from there on the third octet wraps around and links are reused.
\<close>

theorem cid_links_disjoint:
  "guest_ip (for_cid a) AND netmask (for_cid a) = gateway_ip (for_cid a) AND netmask (for_cid a) \<and>
   gateway_ip (for_cid a) = (guest_ip (for_cid a) AND netmask (for_cid a)) + 1 \<and>
   guest_ip (for_cid a) = (guest_ip (for_cid a) AND netmask (for_cid a)) + 2 \<and>
   (guest_ip (for_cid a) AND netmask (for_cid a) = guest_ip (for_cid b) AND netmask (for_cid b) \<longleftrightarrow>
      for_cid a = for_cid b) \<and>
   (for_cid a = for_cid b \<longleftrightarrow> unat (cid_index a) mod 16384 = unat (cid_index b) mod 16384)"
    (is "?guest \<and> ?gw1 \<and> ?gw2 \<and> ?blocks \<and> ?index")
proof -
  have mask: "netmask (for_cid c) = push_bit 2 (- 1)" for c
    by (simp add: for_cid_def Let_def netmasks)
  have round: "r < 4 \<Longrightarrow> B mod 4 = 0 \<Longrightarrow> (B + 4 * k + r) - (B + 4 * k + r) mod 4 = B + 4 * k" for r B k :: nat
    by (simp add: mod_add_eq[of "B + 4 * k", symmetric] mod_add_eq[of B, symmetric])
  have four: "unat (ipv4 172 20 0 0) mod 4 = 0" by (simp add: unat_ipv4)
  have net: "unat (guest_ip (for_cid c) AND push_bit 2 (- 1)) = unat (ipv4 172 20 0 0) + 4 * link_block c"
    "unat (gateway_ip (for_cid c) AND push_bit 2 (- 1)) = unat (ipv4 172 20 0 0) + 4 * link_block c" for c
    using round[OF _ four, of 2 "link_block c"] round[OF _ four, of 1 "link_block c"]
    by (simp_all only: unat_network for_cid_addresses) simp_all
  have eq: "for_cid c = for_cid d \<longleftrightarrow> link_block c = link_block d" for c d
  proof
    assume "for_cid c = for_cid d"
    then show "link_block c = link_block d" using for_cid_addresses(1)[of c] for_cid_addresses(1)[of d] by simp
  next
    assume "link_block c = link_block d"
    then have "guest_ip (for_cid c) = guest_ip (for_cid d)" "gateway_ip (for_cid c) = gateway_ip (for_cid d)"
      by (simp_all add: word_unat_eq_iff for_cid_addresses)
    then show "for_cid c = for_cid d" using mask[of c] mask[of d] by (cases "for_cid c", cases "for_cid d") simp
  qed
  show ?thesis
    unfolding mask
  proof (intro conjI)
    show "for_cid a = for_cid b \<longleftrightarrow> unat (cid_index a) mod 16384 = unat (cid_index b) mod 16384" by (rule eq)
    show "guest_ip (for_cid a) AND push_bit 2 (- 1) = guest_ip (for_cid b) AND push_bit 2 (- 1) \<longleftrightarrow> for_cid a = for_cid b"
      unfolding eq word_unat_eq_iff net by simp
    show "guest_ip (for_cid a) AND push_bit 2 (- 1) = gateway_ip (for_cid a) AND push_bit 2 (- 1)"
      unfolding word_unat_eq_iff net ..
    have "of_nat (unat (ipv4 172 20 0 0) + 4 * link_block a) = guest_ip (for_cid a) AND push_bit 2 (- 1)"
      unfolding net(1)[symmetric] by simp
    moreover have "gateway_ip (for_cid a) = of_nat (unat (ipv4 172 20 0 0) + 4 * link_block a) + 1"
      "guest_ip (for_cid a) = of_nat (unat (ipv4 172 20 0 0) + 4 * link_block a) + 2"
      using arg_cong[OF for_cid_addresses(1)[of a], of "of_nat :: nat \<Rightarrow> u32"]
        arg_cong[OF for_cid_addresses(2)[of a], of "of_nat :: nat \<Rightarrow> u32"] by simp_all
    ultimately show "gateway_ip (for_cid a) = (guest_ip (for_cid a) AND push_bit 2 (- 1)) + 1"
      "guest_ip (for_cid a) = (guest_ip (for_cid a) AND push_bit 2 (- 1)) + 2"
      by simp_all
  qed
qed

section \<open>Shared networks by name\<close>

record named_network_supernet =
  ns_base :: u32
  ns_prefix :: u8

datatype supernet_error =
    NotCidr | InvalidAddress string | InvalidPrefix string | PrefixOutside nat | Unaligned

definition parse_octet :: "string \<Rightarrow> u8 option" where
  "parse_octet s =
    (if s = [] \<or> 3 < length s \<or> \<not> list_all ascii_digit s \<or> (hd s = CHR ''0'' \<and> 1 < length s) \<or>
        255 < digits_val s
     then None else Some (of_nat (digits_val s)))"

definition parse_ipv4 :: "string \<Rightarrow> u32 option" where
  "parse_ipv4 s = (case map parse_octet (split_on CHR ''.'' s) of
     [Some a, Some b, Some c, Some d] \<Rightarrow> Some (ipv4 a b c d)
   | _ \<Rightarrow> None)"

definition display_ipv4 :: "u32 \<Rightarrow> string" where
  "display_ipv4 ip = join_with ''.'' (map (\<lambda>b. dec (unat b)) (rev (le_bytes 4 ip)))"

definition supernet_parse :: "string \<Rightarrow> (named_network_supernet, supernet_error) result" where
  "supernet_parse cidr = (case str_find CHR ''/'' cidr of
     None \<Rightarrow> Err NotCidr
   | Some i \<Rightarrow>
       (let address = take i cidr; prefix = drop (i + 1) cidr in
        case parse_ipv4 address of
          None \<Rightarrow> Err (InvalidAddress address)
        | Some base \<Rightarrow>
            (case parse_uint 8 prefix of
               None \<Rightarrow> Err (InvalidPrefix prefix)
             | Some p \<Rightarrow>
                 if \<not> (8 \<le> p \<and> p \<le> 24) then Err (PrefixOutside p)
                 else if base AND push_bit (32 - p) (- 1) \<noteq> base then Err Unaligned
                 else Ok \<lparr> ns_base = base, ns_prefix = of_nat p \<rparr>)))"

definition supernet_cidr :: "named_network_supernet \<Rightarrow> string" where
  "supernet_cidr n = display_ipv4 (ns_base n) @ ''/'' @ dec (unat (ns_prefix n))"

definition supernet_default :: named_network_supernet where
  "supernet_default = \<lparr> ns_base = ipv4 100 64 0 0, ns_prefix = 10 \<rparr>"

definition fnv1a64 :: "u8 list \<Rightarrow> u64" where
  "fnv1a64 bytes = foldl (\<lambda>hash byte. (hash XOR ucast byte) * 0x100000001b3) 0xcbf29ce484222325 bytes"

definition link_for_named_network :: "named_network_supernet \<Rightarrow> u8 list \<Rightarrow> u32 \<Rightarrow> guest_network_link" where
  "link_for_named_network n network_name cid =
    (let hash = fnv1a64 network_name;
         subnet_bits = 24 - unat (ns_prefix n);
         subnet_mask = push_bit subnet_bits 1 - 1 :: u32;
         hash_bytes = le_bytes 8 hash;
         subnet_index = ucast (le_word [hash_bytes ! 0, hash_bytes ! 1] :: u16) AND subnet_mask;
         subnet_base = ns_base n + push_bit 8 subnet_index;
         host_octet = u32_saturating_add 2 (cid_index cid mod 253)
     in \<lparr> guest_ip = subnet_base + host_octet, gateway_ip = subnet_base + 1,
          netmask = ipv4 255 255 255 0 \<rparr>)"

definition supernet_ok :: "named_network_supernet \<Rightarrow> bool" where
  "supernet_ok n \<longleftrightarrow> 8 \<le> unat (ns_prefix n) \<and> unat (ns_prefix n) \<le> 24 \<and>
    unat (ns_base n) mod 2 ^ (32 - unat (ns_prefix n)) = 0"

lemma supernet_parse_ok:
  assumes "supernet_parse s = Ok n"
  shows "supernet_ok n"
proof -
  obtain p base where n: "n = \<lparr> ns_base = base, ns_prefix = of_nat p \<rparr>" and p: "8 \<le> p" "p \<le> 24"
    and al: "base AND push_bit (32 - p) (- 1) = base"
    using assms by (auto simp: supernet_parse_def Let_def split: option.splits if_splits)
  have "unat (of_nat p :: u8) = p" using p by (simp add: unsigned_of_nat take_bit_nat_eq_self)
  moreover have "unat base - unat base mod 2 ^ (32 - p) = unat base"
    using unat_network[of "32 - p" base] al p by simp
  then have "unat base mod 2 ^ (32 - p) = 0"
    using mod_less_eq_dividend[of "unat base" "2 ^ (32 - p)"] by linarith
  ultimately show ?thesis using p by (simp add: supernet_ok_def n)
qed

definition subnet_index :: "named_network_supernet \<Rightarrow> u8 list \<Rightarrow> nat" where
  "subnet_index n name = unat (fnv1a64 name) mod 2 ^ (24 - unat (ns_prefix n))"

lemma low_u16: "unat (le_word [le_bytes 8 (h :: u64) ! 0, le_bytes 8 h ! 1] :: u16) = unat h mod 2 ^ 16"
proof -
  have "[le_bytes 8 h ! 0, le_bytes 8 h ! 1] = le_bytes 2 h"
    by (simp add: le_bytes_numeral numeral_eq_Suc)
  moreover have "le_word (le_bytes 2 h) = (ucast h :: u16)"
    by (rule bit_eqI) (auto simp: bit_le_word nth_le_bytes bit_simps)
  ultimately show ?thesis by (simp add: unsigned_ucast_eq take_bit_eq_mod)
qed

lemma unat_low_bits: "unat (take_bit k (ucast (x :: u16) :: u32)) = unat x mod 2 ^ k"
proof -
  have "unat (ucast x :: u32) = unat x" by (rule unat_ucast_up) simp
  then show ?thesis unfolding unsigned_take_bit_eq by (simp add: take_bit_eq_mod)
qed

lemma unat_add_u32: "unat (x :: u32) + unat y < 2 ^ 32 \<Longrightarrow> unat (x + y) = unat x + unat y"
  using unat_add_lem[of x y] by simp

lemma named_link_addresses:
  assumes "supernet_ok n"
  shows "unat (gateway_ip (link_for_named_network n name cid)) = unat (ns_base n) + 256 * subnet_index n name + 1"
    and "unat (guest_ip (link_for_named_network n name cid)) =
      unat (ns_base n) + 256 * subnet_index n name + 2 + unat (cid_index cid) mod 253"
    and "unat (ns_base n) + 256 * subnet_index n name + 256 \<le> unat (ns_base n) + 2 ^ (32 - unat (ns_prefix n))"
    and "unat (ns_base n) + 2 ^ (32 - unat (ns_prefix n)) \<le> 2 ^ 32"
proof -
  let ?p = "unat (ns_prefix n)" and ?b = "unat (ns_base n)"
  have p: "8 \<le> ?p" "?p \<le> 24" "?b mod 2 ^ (32 - ?p) = 0" using assms by (simp_all add: supernet_ok_def)
  have pow: "(2::nat) ^ (32 - ?p) = 256 * 2 ^ (24 - ?p)"
    using p power_add[of "2::nat" 8 "24 - ?p"] by simp
  show top: "?b + 2 ^ (32 - ?p) \<le> 2 ^ 32"
  proof -
    obtain q where q: "?b = 2 ^ (32 - ?p) * q" using p(3) by auto
    have "?b < 2 ^ 32" using unsigned_less[of "ns_base n"] by simp
    moreover have "(2::nat) ^ 32 = 2 ^ (32 - ?p) * 2 ^ ?p" using p by (simp flip: power_add)
    ultimately have "2 ^ (32 - ?p) * q < 2 ^ (32 - ?p) * 2 ^ ?p" using q by metis
    then have "q < 2 ^ ?p" by simp
    then have "Suc q \<le> 2 ^ ?p" by simp
    then have "2 ^ (32 - ?p) * Suc q \<le> 2 ^ (32 - ?p) * 2 ^ ?p" by (rule mult_le_mono2)
    then show ?thesis using q \<open>(2::nat) ^ 32 = 2 ^ (32 - ?p) * 2 ^ ?p\<close> by simp
  qed
  have idx: "subnet_index n name < 2 ^ (24 - ?p)" by (simp add: subnet_index_def)
  show le: "?b + 256 * subnet_index n name + 256 \<le> ?b + 2 ^ (32 - ?p)" using idx pow by simp
  let ?h = "fnv1a64 name" and ?bits = "24 - ?p"
  let ?i = "ucast (le_word [le_bytes 8 ?h ! 0, le_bytes 8 ?h ! 1] :: u16) AND (push_bit ?bits 1 - 1) :: u32"
  let ?base = "ns_base n + push_bit 8 ?i"
  have "?i = take_bit ?bits (ucast (le_word [le_bytes 8 ?h ! 0, le_bytes 8 ?h ! 1] :: u16))"
    by (simp add: take_bit_eq_mask mask_eq_exp_minus_1 push_bit_eq_mult)
  then have "unat ?i = (unat ?h mod 2 ^ 16) mod 2 ^ ?bits"
    by (simp only: unat_low_bits low_u16)
  also have "\<dots> = subnet_index n name"
    unfolding subnet_index_def by (intro mod_mod_cancel le_imp_power_dvd) (use p in simp)
  finally have i: "unat ?i = subnet_index n name" .
  have small: "?b + 256 * subnet_index n name + 256 \<le> 2 ^ 32" using le top by (rule order_trans)
  have "unat (?i * 256) = unat ?i * 256"
    using small i by (subst unat_mult_lem[THEN iffD1]) simp_all
  then have "unat (push_bit 8 ?i) = 256 * subnet_index n name" using i by (simp add: push_bit_eq_mult)
  then have base: "unat ?base = ?b + 256 * subnet_index n name"
    using small by (subst unat_add_u32) simp_all
  have host: "unat (u32_saturating_add 2 (cid_index cid mod 253)) = 2 + unat (cid_index cid) mod 253"
    using mod_less_divisor[of 253 "unat (cid_index cid)"]
    by (simp add: unat_u32_saturating_add unat_mod_word)
  have lt: "2 + unat (cid_index cid) mod 253 < 256"
    using mod_less_divisor[of 253 "unat (cid_index cid)"] by simp
  have link: "gateway_ip (link_for_named_network n name cid) = ?base + 1"
    "guest_ip (link_for_named_network n name cid) = ?base + u32_saturating_add 2 (cid_index cid mod 253)"
    by (simp_all add: link_for_named_network_def Let_def)
  show "unat (gateway_ip (link_for_named_network n name cid)) = ?b + 256 * subnet_index n name + 1"
    unfolding link using small base by (subst unat_add_u32) simp_all
  show "unat (guest_ip (link_for_named_network n name cid)) =
      ?b + 256 * subnet_index n name + 2 + unat (cid_index cid) mod 253"
    unfolding link using small base host lt by (subst unat_add_u32) simp_all
qed

section \<open>Reading back what is printed\<close>

lemma dec_short:
  assumes "n < 1000"
  shows "length (dec n) \<le> 3 \<and> (hd (dec n) = CHR ''0'' \<longrightarrow> length (dec n) = 1)"
proof -
  have zero: "d = 0" if "digit_char d = CHR ''0''" "d < 10" for d
    using digit_char(1)[OF that(2)] that(1) by (simp add: digit_val_def code_of_def)
  have one: "dec m = [digit_char m]" if "m < 10" for m using that by (simp add: dec.simps)
  have two: "dec m = [digit_char (m div 10), digit_char (m mod 10)]" if "10 \<le> m" "m < 100" for m
    using that one[of "m div 10"] by (simp add: dec.simps[of m])
  have three: "dec m = [digit_char (m div 100), digit_char (m div 10 mod 10), digit_char (m mod 10)]"
    if "100 \<le> m" "m < 1000" for m
    using that two[of "m div 10"] by (simp add: dec.simps[of m] div_mult2_eq[symmetric])
  consider "n < 10" | "10 \<le> n" "n < 100" | "100 \<le> n" by linarith
  then show ?thesis
  proof cases
    case 2
    then have "n div 10 \<noteq> 0" "n div 10 < 10" by (auto simp: div_eq_0_iff)
    then show ?thesis using 2 two zero[of "n div 10"] by auto
  next
    case 3
    then have "n div 100 \<noteq> 0" "n div 100 < 10" using assms by (auto simp: div_eq_0_iff)
    then show ?thesis using 3 assms three zero[of "n div 100"] by auto
  qed (use one in simp)
qed

lemma parse_octet_dec: "parse_octet (dec (unat b)) = Some b"
proof -
  have b: "unat b < 256" using unsigned_less[of b] by simp
  then show ?thesis
    using dec_props[of "unat b"] dec_short[of "unat b"] by (auto simp: parse_octet_def)
qed

lemma dec_no_sep: "c \<notin> set (dec n)" if "\<not> ascii_digit c"
  using dec_props[of n] that by (auto simp: list_all_iff)

lemma parse_display_ipv4: "parse_ipv4 (display_ipv4 ip) = Some ip"
proof -
  let ?parts = "map (\<lambda>b. dec (unat b)) (rev (le_bytes 4 ip))"
  have "split_on CHR ''.'' (display_ipv4 ip) = ?parts"
    unfolding display_ipv4_def by (rule split_join) (auto simp: dec_no_sep ascii_digit_def code_of_def)
  moreover have "le_word (le_bytes 4 ip) = ip" by simp
  ultimately show ?thesis
    by (simp add: parse_ipv4_def parse_octet_dec numeral_eq_Suc ipv4_def)
qed

lemma supernet_roundtrip:
  assumes "supernet_ok n"
  shows "supernet_parse (supernet_cidr n) = Ok n"
proof -
  let ?p = "unat (ns_prefix n)" and ?addr = "display_ipv4 (ns_base n)"
  have p: "8 \<le> ?p" "?p \<le> 24" "unat (ns_base n) mod 2 ^ (32 - ?p) = 0"
    using assms by (simp_all add: supernet_ok_def)
  have "CHR ''/'' \<notin> set ?addr"
    by (auto simp: display_ipv4_def dec_no_sep ascii_digit_def code_of_def numeral_eq_Suc)
  then have "str_find CHR ''/'' (supernet_cidr n) = Some (length ?addr)"
    by (simp add: supernet_cidr_def)
  moreover have "parse_uint 8 (dec ?p) = Some ?p"
    using unsigned_less[of "ns_prefix n"] by (intro parse_dec) simp
  moreover have "ns_base n AND push_bit (32 - ?p) (- 1) = ns_base n"
    using unat_network[of "32 - ?p" "ns_base n"] p by (simp add: word_unat_eq_iff)
  ultimately show ?thesis
    using p by (simp add: supernet_parse_def parse_display_ipv4 Let_def) (simp add: supernet_cidr_def parse_display_ipv4)
qed

text \<open>
  C30. Every supernet that is accepted can be printed and read back, and the links derived from
  it stay inside it.  The gateway is the first address of a /24 network of the supernet that
  depends on the network's name only, the guest's address is in the same network and is neither
  the gateway nor the broadcast address, and no address computation wraps around.  Two machines
  on the same network have different addresses as long as their CIDs are fewer than 253 apart.
\<close>

theorem named_links_contained:
  assumes "supernet_parse s = Ok n"
  shows "supernet_parse (supernet_cidr n) = Ok n \<and>
    (let l = link_for_named_network n name a; l' = link_for_named_network n name b in
     unat (ns_base n) < unat (gateway_ip l) \<and> unat (gateway_ip l) < unat (guest_ip l) \<and>
     unat (guest_ip l) + 1 < unat (ns_base n) + 2 ^ (32 - unat (ns_prefix n)) \<and>
     guest_ip l AND netmask l = gateway_ip l AND netmask l \<and>
     unat (gateway_ip l) mod 256 = 1 \<and> unat (guest_ip l) mod 256 \<in> {2..254} \<and>
     gateway_ip l' = gateway_ip l \<and>
     (guest_ip l = guest_ip l' \<longleftrightarrow> unat (cid_index a) mod 253 = unat (cid_index b) mod 253))"
proof -
  have ok: "supernet_ok n" by (rule supernet_parse_ok[OF assms])
  let ?l = "\<lambda>c. link_for_named_network n name c" and ?h = "\<lambda>c. unat (cid_index c) mod 253"
  let ?net = "unat (ns_base n) + 256 * subnet_index n name"
  note addr = named_link_addresses(1-3)[OF ok, where name = name]
  have "(2::nat) ^ 8 dvd 2 ^ (32 - unat (ns_prefix n))"
    using ok by (intro le_imp_power_dvd) (auto simp: supernet_ok_def)
  then have "256 dvd unat (ns_base n)"
    using ok by (auto simp: supernet_ok_def intro: dvd_trans mod_0_imp_dvd)
  then have net: "?net mod 256 = 0" by simp
  have h: "?h c < 253" for c by simp
  have low: "(?net + k) mod 256 = k" if "k < 256" for k
    using net that by (metis add_0 mod_add_left_eq mod_less)
  have mods: "unat (gateway_ip (?l c)) mod 256 = 1" "unat (guest_ip (?l c)) mod 256 = 2 + ?h c" for c
    using low[of 1] low[of "2 + ?h c"] h[of c] addr(1,2)[of c] by (simp_all add: add.assoc)
  have mask: "netmask (?l c) = push_bit 8 (- 1)" for c
    by (simp add: link_for_named_network_def Let_def netmasks)
  have "unat (guest_ip (?l a) AND push_bit 8 (- 1)) = ?net" "unat (gateway_ip (?l a) AND push_bit 8 (- 1)) = ?net"
    using unat_network[of 8 "guest_ip (?l a)"] unat_network[of 8 "gateway_ip (?l a)"] mods[of a] addr(1,2)[of a]
    by simp_all
  then have same: "guest_ip (?l a) AND netmask (?l a) = gateway_ip (?l a) AND netmask (?l a)"
    by (simp add: word_unat_eq_iff mask)
  have top: "?net + 256 \<le> unat (ns_base n) + 2 ^ (32 - unat (ns_prefix n))" by (rule addr(3))
  have gw: "gateway_ip (?l b) = gateway_ip (?l a)" by (simp add: word_unat_eq_iff addr)
  have eq: "guest_ip (?l a) = guest_ip (?l b) \<longleftrightarrow> ?h a = ?h b" by (simp add: word_unat_eq_iff addr)
  have order: "unat (ns_base n) < unat (gateway_ip (?l a))" "unat (gateway_ip (?l a)) < unat (guest_ip (?l a))"
    "unat (guest_ip (?l a)) + 1 < unat (ns_base n) + 2 ^ (32 - unat (ns_prefix n))"
    using top h[of a] addr(1,2)[of a] by linarith+
  have "unat (guest_ip (?l a)) mod 256 \<in> {2..254}" unfolding mods using h[of a] by simp
  then show ?thesis
    unfolding Let_def using supernet_roundtrip[OF ok] order same mods(1)[of a] gw eq by blast
qed

theorem named_links_contained_witness:
  "\<exists>n. supernet_parse ''100.64.0.0/10'' = Ok n \<and> n = supernet_default \<and>
     guest_ip (link_for_named_network n [100, 98] 3) \<noteq> guest_ip (link_for_named_network n [100, 98] 4)"
proof -
  have "supernet_parse ''100.64.0.0/10'' = Ok supernet_default" by code_simp
  moreover have "unat (cid_index 3) mod 253 \<noteq> unat (cid_index 4) mod 253"
    by (simp add: cid_index_def FIRST_GUEST_CID_def)
  ultimately show ?thesis
    using named_links_contained[of "''100.64.0.0/10''" supernet_default "[100, 98]" 3 4]
    by (auto simp: Let_def)
qed

end
