(* ===== verification/Build_Substitute.thy ===== *)
theory Build_Substitute
  imports Rust_Str
begin

text \<open>
  Variable substitution in build files (\<^verbatim>\<open>visor-build/src/substitute.rs\<close>).  A
  string is the list of its bytes; bytes of a multi-byte character are copied one by one,
  which is what the code does with the whole character, since none of them is a dollar sign.
  The position in the error message is left out.
\<close>

section \<open>The substitution\<close>

type_synonym var_map = "string \<rightharpoonup> string"

datatype subst_error = UnclosedBrace

definition is_var_start :: "char \<Rightarrow> bool" where
  "is_var_start c \<longleftrightarrow> ascii_alphabetic c \<or> c = CHR ''_''"

definition is_var_char :: "char \<Rightarrow> bool" where
  "is_var_char c \<longleftrightarrow> ascii_alphanumeric c \<or> c = CHR ''_''"

fun find_closing_brace :: "nat \<Rightarrow> string \<Rightarrow> nat option" where
  "find_closing_brace depth [] = None"
| "find_closing_brace depth (c # r) =
    (if c = CHR ''{'' then map_option Suc (find_closing_brace (depth + 1) r)
     else if c = CHR ''}'' then
       (if depth - 1 = 0 then Some 0 else map_option Suc (find_closing_brace (depth - 1) r))
     else map_option Suc (find_closing_brace depth r))"

fun find_pair :: "char \<Rightarrow> char \<Rightarrow> string \<Rightarrow> nat option" where
  "find_pair a b (c # d # r) =
    (if c = a \<and> d = b then Some 0 else map_option Suc (find_pair a b (d # r)))"
| "find_pair a b _ = None"

definition value_of :: "var_map \<Rightarrow> string \<Rightarrow> string" where
  "value_of vars name = (case vars name of Some v \<Rightarrow> v | None \<Rightarrow> [])"

definition expand_braced :: "var_map \<Rightarrow> string \<Rightarrow> string" where
  "expand_braced vars inner = (case find_pair CHR '':'' CHR ''-'' inner of
     Some pos \<Rightarrow>
       (let name = take pos inner; default_value = drop (pos + 2) inner in
        case vars name of
          Some v \<Rightarrow> if v \<noteq> [] then v else default_value
        | None \<Rightarrow> default_value)
   | None \<Rightarrow>
       (case find_pair CHR '':'' CHR ''+'' inner of
          Some pos \<Rightarrow>
            (let name = take pos inner; alt = drop (pos + 2) inner in
             case vars name of
               Some v \<Rightarrow> if v \<noteq> [] then alt else []
             | None \<Rightarrow> [])
        | None \<Rightarrow> value_of vars inner))"

definition push_str :: "string \<Rightarrow> (string, 'e) result \<Rightarrow> (string, 'e) result" where
  "push_str s r = (case r of Ok t \<Rightarrow> Ok (s @ t) | Err e \<Rightarrow> Err e)"

lemma find_closing_brace_bound: "find_closing_brace depth s = Some j \<Longrightarrow> j < length s"
  by (induction depth s arbitrary: j rule: find_closing_brace.induct) (auto split: if_splits)

function substitute_vars :: "var_map \<Rightarrow> string \<Rightarrow> (string, subst_error) result" where
  "substitute_vars vars [] = Ok []"
| "substitute_vars vars (c # r) =
    (if c \<noteq> CHR ''$'' then push_str [c] (substitute_vars vars r)
     else case r of
       [] \<Rightarrow> push_str ''$'' (substitute_vars vars r)
     | d # r' \<Rightarrow>
         if d = CHR ''$'' then push_str ''$'' (substitute_vars vars r')
         else if d = CHR ''{'' then
           (case find_closing_brace 1 r' of
              None \<Rightarrow> Err UnclosedBrace
            | Some j \<Rightarrow> push_str (expand_braced vars (take j r')) (substitute_vars vars (drop (j + 1) r')))
         else if is_var_start d then
           push_str (value_of vars (takeWhile is_var_char r)) (substitute_vars vars (dropWhile is_var_char r))
         else push_str ''$'' (substitute_vars vars r))"
  by pat_completeness auto
termination
  by (relation "measure (\<lambda>(vars, s). length s)")
    (auto simp: less_Suc_eq_le length_dropWhile_le intro: le_SucI)

section \<open>A grammar for templates\<close>

text \<open>
  The syntax of a template, independent of how the code finds its parts.  What each piece may
  contain, and what may follow it, makes the reading of a text unique.
\<close>

datatype piece =
    Literal char
  | EscapedDollar
  | LoneDollar
  | Simple string
  | Plain string
  | WithDefault string string
  | WithAlternative string string

primrec print_piece :: "piece \<Rightarrow> string" where
  "print_piece (Literal c) = [c]"
| "print_piece EscapedDollar = ''$$''"
| "print_piece LoneDollar = ''$''"
| "print_piece (Simple name) = CHR ''$'' # name"
| "print_piece (Plain name) = ''${'' @ name @ ''}''"
| "print_piece (WithDefault name d) = ''${'' @ name @ '':-'' @ d @ ''}''"
| "print_piece (WithAlternative name alt) = ''${'' @ name @ '':+'' @ alt @ ''}''"

definition set_and_not_empty :: "var_map \<Rightarrow> string \<Rightarrow> bool" where
  "set_and_not_empty vars name \<longleftrightarrow> (\<exists>v. vars name = Some v \<and> v \<noteq> [])"

primrec eval_piece :: "var_map \<Rightarrow> piece \<Rightarrow> string" where
  "eval_piece vars (Literal c) = [c]"
| "eval_piece vars EscapedDollar = ''$''"
| "eval_piece vars LoneDollar = ''$''"
| "eval_piece vars (Simple name) = (case vars name of Some v \<Rightarrow> v | None \<Rightarrow> [])"
| "eval_piece vars (Plain name) = (case vars name of Some v \<Rightarrow> v | None \<Rightarrow> [])"
| "eval_piece vars (WithDefault name d) = (if set_and_not_empty vars name then the (vars name) else d)"
| "eval_piece vars (WithAlternative name alt) = (if set_and_not_empty vars name then alt else [])"

definition name_letters :: string where
  "name_letters = ''ABCDEFGHIJKLMNOPQRSTUVWXYZabcdefghijklmnopqrstuvwxyz_''"

definition name_digits :: string where
  "name_digits = ''0123456789''"

text \<open>A name: a letter or underscore, then letters, digits and underscores, as many as there are.\<close>

definition name_ends :: "string \<Rightarrow> string \<Rightarrow> bool" where
  "name_ends name rest \<longleftrightarrow> name \<noteq> [] \<and> hd name \<in> set name_letters \<and>
    set name \<subseteq> set name_letters \<union> set name_digits \<and>
    (rest \<noteq> [] \<longrightarrow> hd rest \<notin> set name_letters \<union> set name_digits)"

definition balanced :: "string \<Rightarrow> bool" where
  "balanced s \<longleftrightarrow> count_list s CHR ''{'' = count_list s CHR ''}'' \<and>
    (\<forall>i. count_list (take i s) CHR ''}'' \<le> count_list (take i s) CHR ''{'')"

definition occurs :: "string \<Rightarrow> string \<Rightarrow> bool" where
  "occurs p s \<longleftrightarrow> (\<exists>u v. s = u @ p @ v)"

primrec piece_ok :: "piece \<Rightarrow> string \<Rightarrow> bool" where
  "piece_ok (Literal c) rest \<longleftrightarrow> c \<noteq> CHR ''$''"
| "piece_ok EscapedDollar rest \<longleftrightarrow> True"
| "piece_ok LoneDollar rest \<longleftrightarrow> (rest \<noteq> [] \<longrightarrow> hd rest \<noteq> CHR ''$'' \<and> hd rest \<noteq> CHR ''{'' \<and> hd rest \<notin> set name_letters)"
| "piece_ok (Simple name) rest \<longleftrightarrow> name_ends name rest"
| "piece_ok (Plain name) rest \<longleftrightarrow> balanced name \<and> \<not> occurs '':-'' name \<and> \<not> occurs '':+'' name"
| "piece_ok (WithDefault name d) rest \<longleftrightarrow> balanced (name @ '':-'' @ d) \<and> \<not> occurs '':-'' (name @ '':'')"
| "piece_ok (WithAlternative name alt) rest \<longleftrightarrow> balanced (name @ '':+'' @ alt) \<and>
     \<not> occurs '':-'' (name @ '':+'' @ alt) \<and> \<not> occurs '':+'' (name @ '':'')"

abbreviation print_template :: "piece list \<Rightarrow> string" where
  "print_template ps \<equiv> concat (map print_piece ps)"

abbreviation eval_template :: "var_map \<Rightarrow> piece list \<Rightarrow> string" where
  "eval_template vars ps \<equiv> concat (map (eval_piece vars) ps)"

text \<open>A sequence of pieces that is followed by the given text.\<close>

primrec template_ok :: "piece list \<Rightarrow> string \<Rightarrow> bool" where
  "template_ok [] rest \<longleftrightarrow> True"
| "template_ok (p # ps) rest \<longleftrightarrow> piece_ok p (print_template ps @ rest) \<and> template_ok ps rest"

text \<open>An opening brace that is never closed.\<close>

definition unclosed :: "string \<Rightarrow> bool" where
  "unclosed s \<longleftrightarrow> (\<forall>i. count_list (take i s) CHR ''}'' \<le> count_list (take i s) CHR ''{'')"

section \<open>What the code looks for\<close>

lemma char_of_image: "c \<in> char_of ` A \<longleftrightarrow> code_of c \<in> A" if "A \<subseteq> {..<256 :: nat}"
proof
  assume "c \<in> char_of ` A"
  then obtain n where "n \<in> A" "c = char_of n" by blast
  then show "code_of c \<in> A" using that by (auto simp: code_of_def)
next
  assume "code_of c \<in> A"
  then show "c \<in> char_of ` A" by (intro image_eqI[of _ _ "code_of c"]) (simp_all add: code_of_def)
qed

lemma letter_codes: "c \<in> set name_letters \<longleftrightarrow> code_of c \<in> {65..<91} \<union> {97..<123} \<union> {95}"
proof -
  have l: "name_letters = map char_of ([65..<91] @ [97..<123] @ [95 :: nat])" by code_simp
  have "set name_letters = char_of ` ({65..<91} \<union> {97..<123} \<union> {95 :: nat})"
    unfolding l set_map set_append set_upt by simp
  then show ?thesis by (subst char_of_image[symmetric]) auto
qed

lemma digit_codes: "c \<in> set name_digits \<longleftrightarrow> code_of c \<in> {48..<58}"
proof -
  have l: "name_digits = map char_of [48..<58 :: nat]" by code_simp
  have "set name_digits = char_of ` {48..<58 :: nat}" unfolding l set_map set_upt ..
  then show ?thesis by (subst char_of_image[symmetric]) auto
qed

lemma underscore_code: "c = CHR ''_'' \<longleftrightarrow> code_of c = 95"
proof -
  have "CHR ''_'' = char_of (95 :: nat)" by code_simp
  then show ?thesis using char_of_image[of "{95}" c] by simp
qed

lemma is_var_start_letters: "is_var_start c \<longleftrightarrow> c \<in> set name_letters"
  by (auto simp: is_var_start_def ascii_alphabetic_def letter_codes underscore_code)

lemma is_var_char_letters: "is_var_char c \<longleftrightarrow> c \<in> set name_letters \<union> set name_digits"
  by (auto simp: is_var_char_def ascii_alphanumeric_def ascii_alphabetic_def ascii_digit_def
      letter_codes digit_codes underscore_code)

lemma dollar_brace_letters: "CHR ''$'' \<notin> set name_letters" "CHR ''{'' \<notin> set name_letters"
  by (simp_all add: name_letters_def)

text \<open>The closing brace: where more are closed than opened for the first time.\<close>

abbreviation opened :: "string \<Rightarrow> nat" where
  "opened s \<equiv> count_list s CHR ''{''"

abbreviation closed :: "string \<Rightarrow> nat" where
  "closed s \<equiv> count_list s CHR ''}''"

lemma find_closing_brace_None:
  "0 < d \<Longrightarrow> find_closing_brace d s = None \<Longrightarrow> closed (take i s) < opened (take i s) + d"
proof (induction d s arbitrary: i rule: find_closing_brace.induct)
  case (2 depth c r)
  show ?case
  proof (cases i)
    case (Suc k)
    consider "c = CHR ''{''" | "c = CHR ''}''" "1 < depth" | "c \<noteq> CHR ''{''" "c \<noteq> CHR ''}''"
      using 2(5) by (auto split: if_splits)
    then show ?thesis
    proof cases
      case 1
      then show ?thesis using 2(1)[of k] 2(5) Suc by simp
    next
      case 2
      then show ?thesis using "2.IH"(2)[of k] "2.prems" Suc by simp
    next
      case 3
      then show ?thesis using "2.IH"(3)[of k] "2.prems" Suc by simp
    qed
  qed (use 2 in simp)
qed simp

lemma find_closing_brace_Some:
  "0 < d \<Longrightarrow> find_closing_brace d s = Some j \<Longrightarrow>
    s ! j = CHR ''}'' \<and> closed (take j s) + 1 = opened (take j s) + d \<and>
    (\<forall>i \<le> j. closed (take i s) < opened (take i s) + d)"
proof (induction d s arbitrary: j rule: find_closing_brace.induct)
  case (2 depth c r)
  consider (deeper) k where "c = CHR ''{''" "find_closing_brace (depth + 1) r = Some k" "j = Suc k"
    | (found) "c = CHR ''}''" "depth = 1" "j = 0"
    | (shallower) k where "c = CHR ''}''" "1 < depth" "find_closing_brace (depth - 1) r = Some k" "j = Suc k"
    | (other) k where "c \<noteq> CHR ''{''" "c \<noteq> CHR ''}''" "find_closing_brace depth r = Some k" "j = Suc k"
    using 2(4,5) by (auto split: if_splits)
  then show ?case
  proof cases
    case deeper
    then show ?thesis using "2.IH"(1)[of k] 2(4) by (auto simp: take_Cons split: nat.splits)
  next
    case found
    then show ?thesis by simp
  next
    case shallower
    then show ?thesis using "2.IH"(2)[of k] by (auto simp: take_Cons split: nat.splits)
  next
    case other
    then show ?thesis using "2.IH"(3)[of k] 2(4) by (auto simp: take_Cons split: nat.splits)
  qed
qed simp

lemma find_closing_brace_exact:
  "0 < d \<Longrightarrow> (\<forall>i. closed (take i s) < opened (take i s) + d) \<Longrightarrow> closed s + 1 = opened s + d \<Longrightarrow>
   find_closing_brace d (s @ CHR ''}'' # rest) = Some (length s)"
proof (induction s arbitrary: d)
  case Nil
  then show ?case by simp
next
  case (Cons c s)
  have pre: "closed (take i s) + (if c = CHR ''}'' then 1 else 0) < opened (take i s) + (if c = CHR ''{'' then 1 else 0) + d" for i
    using spec[OF Cons.prems(2), of "Suc i"] by (auto split: if_splits)
  have "find_closing_brace (d + 1) (s @ CHR ''}'' # rest) = Some (length s)" if "c = CHR ''{''"
    using that pre Cons.prems by (intro Cons.IH) auto
  moreover have "1 < d \<and> find_closing_brace (d - 1) (s @ CHR ''}'' # rest) = Some (length s)" if "c = CHR ''}''"
  proof
    show "1 < d" using that pre[of 0] by simp
    then show "find_closing_brace (d - 1) (s @ CHR ''}'' # rest) = Some (length s)"
      using that pre Cons.prems by (intro Cons.IH) (auto simp: less_diff_conv)
  qed
  moreover have "find_closing_brace d (s @ CHR ''}'' # rest) = Some (length s)" if "c \<noteq> CHR ''{''" "c \<noteq> CHR ''}''"
    using that pre Cons.prems by (intro Cons.IH) auto
  ultimately show ?case by auto
qed

lemma find_closing_brace_balanced:
  "balanced s \<Longrightarrow> find_closing_brace 1 (s @ CHR ''}'' # rest) = Some (length s)"
  by (rule find_closing_brace_exact) (auto simp: balanced_def less_Suc_eq_le)

lemma balanced_found:
  assumes "find_closing_brace 1 s = Some j"
  shows "balanced (take j s) \<and> s = take j s @ CHR ''}'' # drop (j + 1) s"
proof -
  have j: "j < length s" "s ! j = CHR ''}''" "closed (take j s) = opened (take j s)"
    "\<And>i. i \<le> j \<Longrightarrow> closed (take i s) \<le> opened (take i s)"
    using find_closing_brace_bound[OF assms] find_closing_brace_Some[OF _ assms] by (auto simp: less_Suc_eq_le)
  have "closed (take i (take j s)) \<le> opened (take i (take j s))" for i
    using j(3) j(4)[of i] by (cases "i \<le> j") (auto simp: min_def)
  then show ?thesis using j(1-3) id_take_nth_drop[of j s] by (simp add: balanced_def)
qed

lemma unclosed_not_found: "unclosed s \<longleftrightarrow> find_closing_brace 1 s = None"
proof
  assume u: "unclosed s"
  show "find_closing_brace 1 s = None"
  proof (rule ccontr)
    assume "find_closing_brace 1 s \<noteq> None"
    then obtain j where f: "find_closing_brace 1 s = Some j" by blast
    have "closed (take (Suc j) s) = Suc (opened (take (Suc j) s))"
      using find_closing_brace_Some[OF _ f] find_closing_brace_bound[OF f] by (simp add: take_Suc_conv_app_nth)
    then show False using u by (metis unclosed_def Suc_n_not_le_n)
  qed
next
  assume "find_closing_brace 1 s = None"
  then show "unclosed s" using find_closing_brace_None[of 1 s] by (simp add: unclosed_def less_Suc_eq_le)
qed

text \<open>The operators: their first occurrence.\<close>

lemma occurs_Cons: "occurs [a, b] (c # s) \<longleftrightarrow> (c = a \<and> s \<noteq> [] \<and> hd s = b) \<or> occurs [a, b] s"
  by (cases s) (auto simp: occurs_def Cons_eq_append_conv)

lemma find_pair_None: "find_pair a b s = None \<longleftrightarrow> \<not> occurs [a, b] s"
proof (induction a b s rule: find_pair.induct)
  case (1 a b c d r)
  then show ?case by (auto simp: occurs_Cons)
qed (auto simp: occurs_def)

lemma find_pair_first:
  "a \<noteq> b \<Longrightarrow> \<not> occurs [a, b] (p @ [a]) \<Longrightarrow> find_pair a b (p @ a # b # q) = Some (length p)"
proof (induction p)
  case (Cons x p)
  then show ?case by (cases p) (auto simp: occurs_Cons)
qed simp

lemma find_pair_Some:
  "a \<noteq> b \<Longrightarrow> find_pair a b s = Some pos \<Longrightarrow>
    s = take pos s @ a # b # drop (pos + 2) s \<and> \<not> occurs [a, b] (take pos s @ [a])"
proof (induction a b s arbitrary: pos rule: find_pair.induct)
  case (1 a b c d r)
  show ?case
  proof (cases "c = a \<and> d = b")
    case True
    then show ?thesis using 1 by (auto simp: occurs_def Cons_eq_append_conv)
  next
    case False
    then obtain k where k: "find_pair a b (d # r) = Some k" "pos = Suc k" using 1(3) by auto
    then have "d # r = take k (d # r) @ a # b # drop (k + 2) (d # r)" "\<not> occurs [a, b] (take k (d # r) @ [a])"
      using 1(1)[OF False 1(2)] by blast+
    then show ?thesis using False k(2) 1(2) by (cases k) (auto simp: occurs_Cons)
  qed
qed auto

section \<open>Templates and the code\<close>

lemma expand_pieces:
  "piece_ok (Plain name) rest \<Longrightarrow> expand_braced vars name = eval_piece vars (Plain name)"
  "piece_ok (WithDefault name d) rest \<Longrightarrow> expand_braced vars (name @ '':-'' @ d) = eval_piece vars (WithDefault name d)"
  "piece_ok (WithAlternative name alt) rest \<Longrightarrow>
     expand_braced vars (name @ '':+'' @ alt) = eval_piece vars (WithAlternative name alt)"
proof -
  show "piece_ok (Plain name) rest \<Longrightarrow> expand_braced vars name = eval_piece vars (Plain name)"
    using find_pair_None[of "CHR '':''" "CHR ''-''" name] find_pair_None[of "CHR '':''" "CHR ''+''" name]
    by (simp add: expand_braced_def value_of_def)
  show "piece_ok (WithDefault name d) rest \<Longrightarrow> expand_braced vars (name @ '':-'' @ d) = eval_piece vars (WithDefault name d)"
    using find_pair_first[of "CHR '':''" "CHR ''-''" name d]
    by (auto simp: expand_braced_def set_and_not_empty_def split: option.split)
  show "piece_ok (WithAlternative name alt) rest \<Longrightarrow>
     expand_braced vars (name @ '':+'' @ alt) = eval_piece vars (WithAlternative name alt)"
    using find_pair_None[of "CHR '':''" "CHR ''-''" "name @ '':+'' @ alt"] find_pair_first[of "CHR '':''" "CHR ''+''" name alt]
    by (auto simp: expand_braced_def set_and_not_empty_def split: option.split)
qed

lemma substitute_braced:
  assumes "balanced inner"
  shows "substitute_vars vars (''${'' @ inner @ ''}'' @ rest) = push_str (expand_braced vars inner) (substitute_vars vars rest)"
  using find_closing_brace_balanced[OF assms, of rest] by simp

lemma substitute_name:
  assumes "name_ends name rest"
  shows "substitute_vars vars (CHR ''$'' # name @ rest) = push_str (value_of vars name) (substitute_vars vars rest)"
proof -
  have name: "name \<noteq> []" "is_var_start (hd name)" "\<forall>c \<in> set name. is_var_char c" "rest = [] \<or> \<not> is_var_char (hd rest)"
    using assms unfolding name_ends_def is_var_start_letters is_var_char_letters by auto
  then have split: "takeWhile is_var_char (name @ rest) = name" "dropWhile is_var_char (name @ rest) = rest"
    by (cases rest; simp)+
  obtain d r where d: "name = d # r" using name(1) by (cases name) auto
  have "is_var_start d" "d \<noteq> CHR ''$''" "d \<noteq> CHR ''{''"
    using name(2) d dollar_brace_letters by (auto simp: is_var_start_letters)
  then show ?thesis using split unfolding d by simp
qed

text \<open>A piece is read as what it is, whatever follows it.\<close>

lemma substitute_piece:
  assumes "piece_ok p rest"
  shows "substitute_vars vars (print_piece p @ rest) = push_str (eval_piece vars p) (substitute_vars vars rest)"
proof (cases p)
  case LoneDollar
  then show ?thesis using assms by (cases rest) (simp_all add: is_var_start_letters)
next
  case (Simple name)
  then show ?thesis using assms substitute_name[of name rest vars] by (simp add: value_of_def)
next
  case (Plain name)
  then show ?thesis using assms substitute_braced[of name vars rest] expand_pieces(1)[of name rest vars] by simp
next
  case (WithDefault name d)
  then show ?thesis using assms substitute_braced[of "name @ '':-'' @ d" vars rest] expand_pieces(2)[of name d rest vars] by simp
next
  case (WithAlternative name alt)
  then show ?thesis
    using assms substitute_braced[of "name @ '':+'' @ alt" vars rest] expand_pieces(3)[of name alt rest vars] by simp
qed (use assms in simp_all)

lemma substitute_template:
  "template_ok ps rest \<Longrightarrow>
    substitute_vars vars (print_template ps @ rest) = push_str (eval_template vars ps) (substitute_vars vars rest)"
proof (induction ps)
  case Nil
  then show ?case by (cases "substitute_vars vars rest") (simp_all add: push_str_def)
next
  case (Cons p ps)
  then show ?case
    using substitute_piece[of p "print_template ps @ rest" vars]
    by (cases "substitute_vars vars rest") (simp_all add: push_str_def)
qed

text \<open>Every text is a template, or one up to a brace that is never closed.\<close>

definition readable :: "string \<Rightarrow> bool" where
  "readable s \<longleftrightarrow> (\<exists>ps. template_ok ps [] \<and> s = print_template ps) \<or>
    (\<exists>ps rest. template_ok ps (''${'' @ rest) \<and> unclosed rest \<and> s = print_template ps @ ''${'' @ rest)"

lemma readable_piece:
  assumes "readable r" "piece_ok p r"
  shows "readable (print_piece p @ r)"
  using assms(1) unfolding readable_def
proof (elim disjE exE conjE)
  fix ps assume "template_ok ps []" "r = print_template ps"
  then show "(\<exists>ps. template_ok ps [] \<and> print_piece p @ r = print_template ps) \<or>
    (\<exists>ps rest. template_ok ps (''${'' @ rest) \<and> unclosed rest \<and> print_piece p @ r = print_template ps @ ''${'' @ rest)"
    using assms(2) by (intro disjI1 exI[of _ "p # ps"]) simp
next
  fix ps rest assume "template_ok ps (''${'' @ rest)" "unclosed rest" "r = print_template ps @ ''${'' @ rest"
  then show "(\<exists>ps. template_ok ps [] \<and> print_piece p @ r = print_template ps) \<or>
    (\<exists>ps rest. template_ok ps (''${'' @ rest) \<and> unclosed rest \<and> print_piece p @ r = print_template ps @ ''${'' @ rest)"
    using assms(2) by (intro disjI2 exI[of _ "p # ps"] exI[of _ rest]) simp
qed

lemma braced_piece:
  assumes "balanced inner"
  obtains p where "piece_ok p rest" "print_piece p = ''${'' @ inner @ ''}''"
proof (cases "find_pair CHR '':'' CHR ''-'' inner")
  case (Some pos)
  then have "inner = take pos inner @ '':-'' @ drop (pos + 2) inner" "\<not> occurs '':-'' (take pos inner @ '':'')"
    using find_pair_Some[of "CHR '':''" "CHR ''-''" inner pos] by simp_all
  then show ?thesis using assms that[of "WithDefault (take pos inner) (drop (pos + 2) inner)"] by simp
next
  case d: None
  show ?thesis
  proof (cases "find_pair CHR '':'' CHR ''+'' inner")
    case (Some pos)
    then have "inner = take pos inner @ '':+'' @ drop (pos + 2) inner" "\<not> occurs '':+'' (take pos inner @ '':'')"
      using find_pair_Some[of "CHR '':''" "CHR ''+''" inner pos] by simp_all
    then show ?thesis using assms d find_pair_None[of "CHR '':''" "CHR ''-''" inner]
        that[of "WithAlternative (take pos inner) (drop (pos + 2) inner)"] by simp
  next
    case None
    then show ?thesis using assms d that[of "Plain inner"] by (simp add: find_pair_None)
  qed
qed

lemma name_piece:
  assumes "d \<in> set name_letters"
  shows "piece_ok (Simple (takeWhile is_var_char (d # r))) (dropWhile is_var_char (d # r))"
proof -
  have "is_var_char d" using assms by (simp add: is_var_char_letters)
  moreover have "dropWhile is_var_char r \<noteq> [] \<Longrightarrow> \<not> is_var_char (hd (dropWhile is_var_char r))" by (rule hd_dropWhile)
  ultimately show ?thesis
    using assms set_takeWhileD[of _ is_var_char r] by (auto simp: name_ends_def is_var_char_letters)
qed

lemma every_text_readable: "readable s"
proof (induction s rule: length_induct)
  case (1 s)
  have IH: "readable (print_piece p @ r)" if "s = print_piece p @ r" "piece_ok p r" "print_piece p \<noteq> []" for p r
    using 1 that by (intro readable_piece) simp_all
  consider (empty) "s = []" | (char) c r where "s = c # r" "c \<noteq> CHR ''$''" | (alone) "s = ''$''"
    | (dollar) d r where "s = CHR ''$'' # d # r" by (metis list.exhaust)
  then show ?case
  proof cases
    case empty then show ?thesis unfolding readable_def by (intro disjI1 exI[of _ "[]"]) simp
  next
    case (char c r) then show ?thesis using IH[of "Literal c" r] by simp
  next
    case alone then show ?thesis using IH[of LoneDollar "[]"] by simp
  next
    case (dollar d r)
    consider "d = CHR ''$''" | "d = CHR ''{''" "find_closing_brace 1 r = None"
      | j where "d = CHR ''{''" "find_closing_brace 1 r = Some j" | "d \<in> set name_letters"
      | "d \<noteq> CHR ''$''" "d \<noteq> CHR ''{''" "d \<notin> set name_letters"
      by (cases "find_closing_brace 1 r") auto
    then show ?thesis
    proof cases
      case 1 then show ?thesis using IH[of EscapedDollar r] dollar by simp
    next
      case 2 then show ?thesis
        using dollar unclosed_not_found unfolding readable_def by (intro disjI2 exI[of _ "[]"] exI[of _ r]) simp
    next
      case (3 j)
      obtain p where p: "piece_ok p (drop (j + 1) r)" "print_piece p = ''${'' @ take j r @ ''}''"
        using braced_piece balanced_found[OF 3(2)] by blast
      then have "s = print_piece p @ drop (j + 1) r" using balanced_found[OF 3(2)] 3(1) dollar by simp
      then show ?thesis using IH[OF _ p(1)] p(2) by simp
    next
      case 4
      then show ?thesis using IH[OF _ name_piece[OF 4, of r]] dollar by simp
    next
      case 5 then show ?thesis using IH[of LoneDollar "d # r"] dollar by simp
    qed
  qed
qed

definition escape_dollars :: "string \<Rightarrow> string" where
  "escape_dollars s = concat (map (\<lambda>c. if c = CHR ''$'' then ''$$'' else [c]) s)"

lemma substitute_escaped: "substitute_vars vars (escape_dollars s) = Ok s"
  by (induction s) (auto simp: escape_dollars_def push_str_def)

text \<open>
  C24. Substitution reads its input once and never its own output.  The pieces of an input are
  literal bytes, doubled and lone dollar signs, names, and braced expressions with an optional
  default or alternative; a name is as long as it can be, a brace is closed where the braces
  balance, the first \<^verbatim>\<open>:-\<close> counts before the first \<^verbatim>\<open>:+\<close>.  For every such sequence of pieces
  and every assignment of the variables the result is the concatenation of their values; when
  an opening brace is never closed the result is the error; and every input is of one of the
  two kinds.  A text with its dollar signs doubled comes back unchanged.
\<close>

theorem substitution_exact:
  "(\<forall>ps vars. template_ok ps [] \<longrightarrow> substitute_vars vars (print_template ps) = Ok (eval_template vars ps)) \<and>
   (\<forall>ps rest vars. template_ok ps (''${'' @ rest) \<and> unclosed rest \<longrightarrow>
      substitute_vars vars (print_template ps @ ''${'' @ rest) = Err UnclosedBrace) \<and>
   (\<forall>s. (\<exists>ps. template_ok ps [] \<and> s = print_template ps) \<or>
      (\<exists>ps rest. template_ok ps (''${'' @ rest) \<and> unclosed rest \<and> s = print_template ps @ ''${'' @ rest)) \<and>
   (\<forall>vars s. substitute_vars vars (escape_dollars s) = Ok s)"
proof (intro conjI allI impI)
  fix ps vars assume "template_ok ps []"
  then show "substitute_vars vars (print_template ps) = Ok (eval_template vars ps)"
    using substitute_template[of ps "[]" vars] by (simp add: push_str_def)
next
  fix ps rest vars assume a: "template_ok ps (''${'' @ rest) \<and> unclosed rest"
  then have "substitute_vars vars (''${'' @ rest) = Err UnclosedBrace" by (simp add: unclosed_not_found)
  then show "substitute_vars vars (print_template ps @ ''${'' @ rest) = Err UnclosedBrace"
    using substitute_template[of ps "''${'' @ rest" vars] a by (simp add: push_str_def)
next
  fix s show "(\<exists>ps. template_ok ps [] \<and> s = print_template ps) \<or>
      (\<exists>ps rest. template_ok ps (''${'' @ rest) \<and> unclosed rest \<and> s = print_template ps @ ''${'' @ rest)"
    using every_text_readable[of s] by (simp only: readable_def)
next
  fix vars s show "substitute_vars vars (escape_dollars s) = Ok s" by (rule substitute_escaped)
qed

text \<open>A witness: a name with a digit, a default, an alternative and a doubled dollar sign.\<close>

theorem substitution_exact_witness:
  "substitute_vars [''V1'' \<mapsto> ''1''] ''a$V1-${W:-b}${V1:+x}$$'' = Ok ''a1-bx$''"
proof -
  let ?ps = "[Literal CHR ''a'', Simple ''V1'', Literal CHR ''-'', WithDefault ''W'' ''b'', WithAlternative ''V1'' ''x'', EscapedDollar]"
  have b: "balanced s" if "CHR ''{'' \<notin> set s" "CHR ''}'' \<notin> set s" for s
  proof -
    have "closed (take i s) = 0" for i using that(2) in_set_takeD by (fastforce simp: count_list_0_iff)
    then show ?thesis using that by (simp add: balanced_def count_list_0_iff)
  qed
  have "template_ok ?ps []"
    by (simp add: name_ends_def name_letters_def name_digits_def b occurs_Cons) (simp add: occurs_def)
  then have "substitute_vars [''V1'' \<mapsto> ''1''] (print_template ?ps) = Ok (eval_template [''V1'' \<mapsto> ''1''] ?ps)"
    using substitution_exact by blast
  then show ?thesis by (simp add: set_and_not_empty_def)
qed

end
