(* ===== verification/Dockerfile.thy ===== *)
theory Dockerfile
  imports Rust_Str
begin

text \<open>
  Build files as the build engine sees them (\<^verbatim>\<open>visor-build/src/dockerfile.rs\<close>):
  the instruction types and the conversion from the syntax tree of the
  \<^verbatim>\<open>parse_dockerfile\<close> crate, whose parser is a parameter.  The
  \<^verbatim>\<open>raw_\<close> types carry what the conversion reads of that tree, without the source
  positions.
\<close>

section \<open>Instructions\<close>

record from_instr =
  from_image :: string
  from_alias :: "string option"
  from_platform :: "string option"

datatype command_form = ShellForm string | ExecForm "string list"

datatype mount_type = Bind | Cache | Tmpfs | Secret | Ssh

record mount_flag =
  mf_type :: mount_type
  mf_target :: string
  mf_source :: "string option"
  mf_from :: "string option"
  mf_id :: "string option"
  mf_read_only :: bool
  mf_sharing :: "string option"

record run_instr =
  run_command :: command_form
  run_mounts :: "mount_flag list"
  run_network :: "string option"

record copy_instr =
  copy_sources :: "string list"
  copy_dest :: string
  copy_from :: "string option"
  copy_chown :: "string option"
  copy_chmod :: "string option"
  copy_link :: bool

record add_instr =
  add_sources :: "string list"
  add_dest :: string
  add_chown :: "string option"
  add_chmod :: "string option"
  add_link :: bool
  add_checksum :: "string option"

record arg_instr =
  arg_name :: string
  arg_default :: "string option"

record user_instr =
  user_name :: string
  user_group :: "string option"

record exposed_port =
  ep_port :: u16
  ep_protocol :: string

record healthcheck_instr =
  hc_disable :: bool
  hc_command :: "command_form option"
  hc_interval :: "string option"
  hc_timeout :: "string option"
  hc_retries :: "string option"
  hc_start_period :: "string option"

datatype build_instruction =
    Run run_instr
  | Copy copy_instr
  | Add add_instr
  | Cmd command_form
  | Entrypoint command_form
  | Env "(string \<times> string) list"
  | Arg arg_instr
  | Workdir string
  | User user_instr
  | Expose "exposed_port list"
  | Label "(string \<times> string) list"
  | Shell "string list"
  | Stopsignal string
  | Healthcheck healthcheck_instr
  | Volume "string list"

record stage =
  st_from :: from_instr
  st_instructions :: "build_instruction list"

record parsed_dockerfile =
  df_global_args :: "arg_instr list"
  df_stages :: "stage list"

section \<open>The tree of the parser\<close>

record raw_flag =
  rf_name :: string
  rf_value :: "string option"

datatype raw_command = RawShell string | RawExec "string list" | RawOtherCommand

datatype raw_source = RawPath string | RawHereDoc

datatype raw_healthcheck = RawHcNone | RawHcCmd raw_command | RawHcOther

datatype raw_instruction =
    RawRun raw_command "raw_flag list"
  | RawCopy "raw_source list" string "raw_flag list"
  | RawAdd "raw_source list" string "raw_flag list"
  | RawCmd raw_command
  | RawEntrypoint raw_command
  | RawEnv string
  | RawArg string
  | RawWorkdir string
  | RawUser string
  | RawExpose "string list"
  | RawLabel string
  | RawShellInstr "string list"
  | RawStopsignal string
  | RawHealthcheck raw_healthcheck "raw_flag list"
  | RawVolume "string list"
  | RawOther

record raw_stage =
  rs_image :: string
  rs_alias :: "string option"
  rs_options :: "raw_flag list"
  rs_instructions :: "raw_instruction list"

record raw_dockerfile =
  rd_global_args :: "string list"
  rd_stages :: "raw_stage list"

section \<open>Texts of arguments\<close>

definition split_once :: "char \<Rightarrow> string \<Rightarrow> (string \<times> string) option" where
  "split_once c s = map_option (\<lambda>i. (take i s, drop (i + 1) s)) (str_find c s)"

definition parse_arg_value :: "string \<Rightarrow> arg_instr" where
  "parse_arg_value raw = (case split_once CHR ''='' raw of
     Some (name, d) \<Rightarrow> \<lparr> arg_name = name, arg_default = Some d \<rparr>
   | None \<Rightarrow> \<lparr> arg_name = raw, arg_default = None \<rparr>)"

definition parse_user_value :: "string \<Rightarrow> user_instr" where
  "parse_user_value raw = (case split_once CHR '':'' raw of
     Some (user, grp) \<Rightarrow> \<lparr> user_name = user, user_group = Some grp \<rparr>
   | None \<Rightarrow> \<lparr> user_name = raw, user_group = None \<rparr>)"

definition quoted :: "char \<Rightarrow> string \<Rightarrow> string \<times> string" where
  "quoted q r = (takeWhile (\<lambda>c. c \<noteq> q) r, tl (dropWhile (\<lambda>c. c \<noteq> q) r))"

definition read_value :: "string \<Rightarrow> string \<times> string" where
  "read_value cs =
    (if cs \<noteq> [] \<and> hd cs = CHR 0x22 then quoted CHR 0x22 (tl cs)
     else if cs \<noteq> [] \<and> hd cs = CHR 0x27 then quoted CHR 0x27 (tl cs)
     else (takeWhile (\<lambda>c. \<not> ascii_space c) cs, dropWhile (\<lambda>c. \<not> ascii_space c) cs))"

definition skip_whitespace :: "string \<Rightarrow> string" where
  "skip_whitespace cs = dropWhile ascii_space cs"

definition after_equals :: "string \<Rightarrow> string" where
  "after_equals cs = (case cs of c # r \<Rightarrow> if c = CHR ''='' then r else cs | [] \<Rightarrow> [])"

lemma read_value_shrinks: "length (snd (read_value cs)) \<le> length cs"
proof -
  have "length (snd (quoted q r)) \<le> length r" for q r
    using length_dropWhile_le[of "\<lambda>c. c \<noteq> q" r] by (simp add: quoted_def)
  from this[of _ "tl cs"] have "length (snd (quoted q (tl cs))) \<le> length cs" for q
    by (rule order_trans) simp
  then show ?thesis by (simp add: read_value_def length_dropWhile_le)
qed

function read_pairs :: "string \<Rightarrow> (string \<times> string) list" where
  "read_pairs cs =
    (let cs1 = skip_whitespace cs in
     if cs1 = [] then []
     else let key = takeWhile (\<lambda>c. c \<noteq> CHR ''='') cs1;
              cs2 = after_equals (dropWhile (\<lambda>c. c \<noteq> CHR ''='') cs1);
              v = read_value cs2
          in (key, fst v) # read_pairs (snd v))"
  by pat_completeness auto
termination
proof (relation "measure length", simp, unfold in_measure)
  fix cs cs1 key cs2 v
  assume cs1: "cs1 = skip_whitespace cs" "cs1 \<noteq> []" and
    cs2: "cs2 = after_equals (dropWhile (\<lambda>c. c \<noteq> CHR ''='') cs1)" and v: "v = read_value cs2"
  have "length cs2 < length cs1"
  proof (cases "dropWhile (\<lambda>c. c \<noteq> CHR ''='') cs1")
    case Nil
    then show ?thesis using cs1(2) unfolding cs2 Nil by (simp add: after_equals_def)
  next
    case (Cons x xs)
    then have "x = CHR ''=''" using hd_dropWhile[of "\<lambda>c. c \<noteq> CHR ''=''" cs1] by auto
    moreover have "length (dropWhile (\<lambda>c. c \<noteq> CHR ''='') cs1) \<le> length cs1" by (rule length_dropWhile_le)
    ultimately show ?thesis using Cons cs2 by (simp add: after_equals_def)
  qed
  moreover have "length cs1 \<le> length cs" unfolding cs1(1) skip_whitespace_def by (rule length_dropWhile_le)
  ultimately show "length (snd v) < length cs" using read_value_shrinks[of cs2] v by simp
qed

declare read_pairs.simps [simp del]

definition parse_key_value_pairs :: "string \<Rightarrow> (string \<times> string) list" where
  "parse_key_value_pairs raw =
    (let trimmed = trim raw in
     if CHR ''='' \<notin> set trimmed then
       (let key = takeWhile (\<lambda>c. \<not> ascii_space c) trimmed; rest = dropWhile (\<lambda>c. \<not> ascii_space c) trimmed in
        case rest of
          [] \<Rightarrow> [(trimmed, [])]
        | w # v \<Rightarrow> [(key, dropWhile ascii_space v)])
     else read_pairs trimmed)"

definition split_whitespace :: "string \<Rightarrow> string list" where
  "split_whitespace s = filter (\<lambda>w. w \<noteq> []) (split_on CHR '' '' (map (\<lambda>c. if ascii_space c then CHR '' '' else c) s))"

definition parse_exposed_port :: "string \<Rightarrow> exposed_port option" where
  "parse_exposed_port raw =
    (let (port_str, proto) = (case split_once CHR ''/'' raw of
           Some (p, pr) \<Rightarrow> (p, pr) | None \<Rightarrow> (raw, ''tcp''))
     in map_option (\<lambda>n. \<lparr> ep_port = of_nat n, ep_protocol = proto \<rparr>) (parse_uint 16 port_str))"

section \<open>Mounts and flags\<close>

definition mount_default :: mount_flag where
  "mount_default = \<lparr> mf_type = Bind, mf_target = [], mf_source = None, mf_from = None,
     mf_id = None, mf_read_only = False, mf_sharing = None \<rparr>"

definition mount_part :: "mount_flag \<Rightarrow> string \<Rightarrow> mount_flag" where
  "mount_part m part = (case split_once CHR ''='' part of
     Some (k, v) \<Rightarrow>
       if k = ''type'' then m\<lparr>mf_type :=
           (if v = ''cache'' then Cache else if v = ''tmpfs'' then Tmpfs
            else if v = ''secret'' then Secret else if v = ''ssh'' then Ssh else Bind)\<rparr>
       else if k \<in> {''target'', ''dst'', ''destination''} then m\<lparr>mf_target := v\<rparr>
       else if k \<in> {''source'', ''src''} then m\<lparr>mf_source := Some v\<rparr>
       else if k = ''from'' then m\<lparr>mf_from := Some v\<rparr>
       else if k = ''id'' then m\<lparr>mf_id := Some v\<rparr>
       else if k \<in> {''readonly'', ''ro''} then m\<lparr>mf_read_only := (v = ''true'' \<or> v = ''1'')\<rparr>
       else if k = ''sharing'' then m\<lparr>mf_sharing := Some v\<rparr>
       else m
   | None \<Rightarrow> if part \<in> {''readonly'', ''ro''} then m\<lparr>mf_read_only := True\<rparr> else m)"

definition parse_mount_flag :: "string \<Rightarrow> mount_flag" where
  "parse_mount_flag raw = foldl mount_part mount_default (split_on CHR '','' raw)"

primrec find_flag_value :: "raw_flag list \<Rightarrow> string \<Rightarrow> string option" where
  "find_flag_value [] name = None"
| "find_flag_value (f # fs) name =
    (case (if rf_name f = name then rf_value f else None) of
       Some v \<Rightarrow> Some v | None \<Rightarrow> find_flag_value fs name)"

definition has_flag :: "raw_flag list \<Rightarrow> string \<Rightarrow> bool" where
  "has_flag flags name \<longleftrightarrow> list_ex (\<lambda>f. rf_name f = name) flags"

section \<open>Conversion\<close>

definition convert_command :: "raw_command \<Rightarrow> command_form" where
  "convert_command cmd = (case cmd of
     RawShell s \<Rightarrow> ShellForm s | RawExec args \<Rightarrow> ExecForm args | RawOtherCommand \<Rightarrow> ShellForm [])"

definition run_flag :: "run_instr \<Rightarrow> raw_flag \<Rightarrow> run_instr" where
  "run_flag r f =
    (if rf_name f = ''mount'' then
       (case rf_value f of Some v \<Rightarrow> r\<lparr>run_mounts := run_mounts r @ [parse_mount_flag v]\<rparr> | None \<Rightarrow> r)
     else if rf_name f = ''network'' then r\<lparr>run_network := rf_value f\<rparr>
     else r)"

definition convert_run :: "raw_command \<Rightarrow> raw_flag list \<Rightarrow> run_instr" where
  "convert_run cmd options =
    foldl run_flag \<lparr> run_command = convert_command cmd, run_mounts = [], run_network = None \<rparr> options"

definition source_paths :: "raw_source list \<Rightarrow> string list" where
  "source_paths src = List.map_filter (\<lambda>s. case s of RawPath p \<Rightarrow> Some p | RawHereDoc \<Rightarrow> None) src"

definition convert_copy :: "raw_source list \<Rightarrow> string \<Rightarrow> raw_flag list \<Rightarrow> copy_instr" where
  "convert_copy src dest options =
    \<lparr> copy_sources = source_paths src, copy_dest = dest,
      copy_from = find_flag_value options ''from'', copy_chown = find_flag_value options ''chown'',
      copy_chmod = find_flag_value options ''chmod'', copy_link = has_flag options ''link'' \<rparr>"

definition convert_add :: "raw_source list \<Rightarrow> string \<Rightarrow> raw_flag list \<Rightarrow> add_instr" where
  "convert_add src dest options =
    \<lparr> add_sources = source_paths src, add_dest = dest,
      add_chown = find_flag_value options ''chown'', add_chmod = find_flag_value options ''chmod'',
      add_link = has_flag options ''link'', add_checksum = find_flag_value options ''checksum'' \<rparr>"

definition convert_expose :: "string list \<Rightarrow> exposed_port list" where
  "convert_expose args = List.map_filter parse_exposed_port (concat (map split_whitespace args))"

definition healthcheck_flag :: "healthcheck_instr \<Rightarrow> raw_flag \<Rightarrow> healthcheck_instr" where
  "healthcheck_flag h f =
    (if rf_name f = ''interval'' then h\<lparr>hc_interval := rf_value f\<rparr>
     else if rf_name f = ''timeout'' then h\<lparr>hc_timeout := rf_value f\<rparr>
     else if rf_name f = ''retries'' then h\<lparr>hc_retries := rf_value f\<rparr>
     else if rf_name f = ''start-period'' then h\<lparr>hc_start_period := rf_value f\<rparr>
     else h)"

definition convert_healthcheck :: "raw_healthcheck \<Rightarrow> raw_flag list \<Rightarrow> healthcheck_instr" where
  "convert_healthcheck args options =
    foldl healthcheck_flag
      \<lparr> hc_disable = (args = RawHcNone),
        hc_command = (case args of RawHcCmd c \<Rightarrow> Some (convert_command c) | _ \<Rightarrow> None),
        hc_interval = None, hc_timeout = None, hc_retries = None, hc_start_period = None \<rparr> options"

definition convert_instruction :: "raw_instruction \<Rightarrow> build_instruction option" where
  "convert_instruction instr = (case instr of
     RawRun c fs \<Rightarrow> Some (Run (convert_run c fs))
   | RawCopy src dest fs \<Rightarrow> Some (Copy (convert_copy src dest fs))
   | RawAdd src dest fs \<Rightarrow> Some (Add (convert_add src dest fs))
   | RawCmd c \<Rightarrow> Some (Cmd (convert_command c))
   | RawEntrypoint c \<Rightarrow> Some (Entrypoint (convert_command c))
   | RawEnv s \<Rightarrow> Some (Env (parse_key_value_pairs s))
   | RawArg s \<Rightarrow> Some (Arg (parse_arg_value s))
   | RawWorkdir s \<Rightarrow> Some (Workdir s)
   | RawUser s \<Rightarrow> Some (User (parse_user_value s))
   | RawExpose args \<Rightarrow> Some (Expose (convert_expose args))
   | RawLabel s \<Rightarrow> Some (Label (parse_key_value_pairs s))
   | RawShellInstr args \<Rightarrow> Some (Shell args)
   | RawStopsignal s \<Rightarrow> Some (Stopsignal s)
   | RawHealthcheck args fs \<Rightarrow> Some (Healthcheck (convert_healthcheck args fs))
   | RawVolume paths \<Rightarrow> Some (Volume paths)
   | RawOther \<Rightarrow> None)"

definition convert_from :: "raw_stage \<Rightarrow> from_instr" where
  "convert_from s = \<lparr> from_image = rs_image s, from_alias = rs_alias s,
     from_platform = find_flag_value (rs_options s) ''platform'' \<rparr>"

definition convert_stage :: "raw_stage \<Rightarrow> stage" where
  "convert_stage s = \<lparr> st_from = convert_from s,
     st_instructions = List.map_filter convert_instruction (rs_instructions s) \<rparr>"

definition dockerfile_parse ::
  "(string \<Rightarrow> (raw_dockerfile, 'e) result) \<Rightarrow> string \<Rightarrow> (parsed_dockerfile, 'e) result" where
  "dockerfile_parse parse_raw content = (case parse_raw content of
     Err e \<Rightarrow> Err e
   | Ok raw \<Rightarrow> Ok \<lparr> df_global_args = map parse_arg_value (rd_global_args raw),
                    df_stages = map convert_stage (rd_stages raw) \<rparr>)"

section \<open>Pairs print and read back\<close>

text \<open>A pair can be written with its value bare or in either kind of quotes.\<close>

datatype quoting = Bare | SingleQuotes | DoubleQuotes

definition quote_value :: "quoting \<Rightarrow> string \<Rightarrow> string" where
  "quote_value q v = (case q of
     Bare \<Rightarrow> v | SingleQuotes \<Rightarrow> CHR 0x27 # v @ [CHR 0x27] | DoubleQuotes \<Rightarrow> CHR 0x22 # v @ [CHR 0x22])"

definition print_pair :: "quoting \<times> string \<times> string \<Rightarrow> string" where
  "print_pair p = (case p of (q, k, v) \<Rightarrow> k @ ''='' @ quote_value q v)"

definition value_fits :: "quoting \<Rightarrow> string \<Rightarrow> bool" where
  "value_fits q v = (case q of
     Bare \<Rightarrow> list_all (\<lambda>c. \<not> ascii_space c) v \<and> (v = [] \<or> hd v \<notin> {CHR 0x22, CHR 0x27})
   | SingleQuotes \<Rightarrow> CHR 0x27 \<notin> set v
   | DoubleQuotes \<Rightarrow> CHR 0x22 \<notin> set v)"

definition pair_fits :: "quoting \<times> string \<times> string \<Rightarrow> bool" where
  "pair_fits p = (case p of (q, k, v) \<Rightarrow>
     CHR ''='' \<notin> set k \<and> (k = [] \<or> \<not> ascii_space (hd k)) \<and> value_fits q v)"

lemma ascii_space_eval [simp]:
  "ascii_space CHR '' ''" "\<not> ascii_space CHR ''=''" "\<not> ascii_space CHR 0x22" "\<not> ascii_space CHR 0x27"
  by (simp_all add: ascii_space_def code_of_def)

lemma quoted_print: "q \<notin> set v \<Longrightarrow> quoted q (v @ q # r) = (v, r)"
  by (auto simp: quoted_def takeWhile_append dropWhile_append)

lemma takeWhile_stop: "list_all P xs \<Longrightarrow> \<not> P y \<Longrightarrow> takeWhile P (xs @ y # ys) = xs \<and> dropWhile P (xs @ y # ys) = y # ys"
  by (induction xs) auto

lemma read_value_print:
  assumes "value_fits q v" "r = [] \<or> ascii_space (hd r)"
  shows "read_value (quote_value q v @ r) = (v, r)"
proof (cases q)
  case Bare
  have nospace: "list_all (\<lambda>c. \<not> ascii_space c) v" and h: "v = [] \<or> hd v \<notin> {CHR 0x22, CHR 0x27}"
    using assms(1) Bare by (simp_all add: value_fits_def)
  have "v @ r = [] \<or> hd (v @ r) \<notin> {CHR 0x22, CHR 0x27}"
    using h assms(2) by (cases v; cases r) auto
  moreover have "takeWhile (\<lambda>c. \<not> ascii_space c) (v @ r) = v \<and> dropWhile (\<lambda>c. \<not> ascii_space c) (v @ r) = r"
    using nospace assms(2) takeWhile_stop[OF nospace] by (cases r) (auto simp: list_all_iff)
  ultimately show ?thesis by (auto simp: read_value_def quote_value_def Bare)
next
  case SingleQuotes
  then show ?thesis using assms(1) quoted_print[of "CHR 0x27" v r] by (simp add: read_value_def quote_value_def value_fits_def)
next
  case DoubleQuotes
  then show ?thesis using assms(1) quoted_print[of "CHR 0x22" v r] by (simp add: read_value_def quote_value_def value_fits_def)
qed

lemma print_pair_hd: "pair_fits p \<Longrightarrow> print_pair p \<noteq> [] \<and> \<not> ascii_space (hd (print_pair p))"
  by (cases p) (auto simp: pair_fits_def print_pair_def hd_append)

lemma read_pairs_step:
  assumes "pair_fits p" "r = [] \<or> ascii_space (hd r)"
  shows "read_pairs (print_pair p @ r) = (fst (snd p), snd (snd p)) # read_pairs r"
proof -
  obtain q k v where p: "p = (q, k, v)" by (cases p)
  have k: "CHR ''='' \<notin> set k" "value_fits q v" using assms(1) by (simp_all add: pair_fits_def p)
  have skip: "skip_whitespace (print_pair p @ r) = print_pair p @ r"
    using print_pair_hd[OF assms(1)] by (cases "print_pair p") (auto simp: skip_whitespace_def)
  have "list_all (\<lambda>c. c \<noteq> CHR ''='') k" using k(1) by (auto simp: list_all_iff)
  from takeWhile_stop[OF this, of "CHR ''=''" "quote_value q v @ r"]
  have "takeWhile (\<lambda>c. c \<noteq> CHR ''='') (print_pair p @ r) = k"
    "after_equals (dropWhile (\<lambda>c. c \<noteq> CHR ''='') (print_pair p @ r)) = quote_value q v @ r"
    by (simp_all add: print_pair_def p after_equals_def)
  then show ?thesis
    using print_pair_hd[OF assms(1)] read_value_print[OF k(2) assms(2)] skip
    by (subst read_pairs.simps) (simp add: Let_def p)
qed

lemma read_pairs_space: "read_pairs (CHR '' '' # r) = read_pairs r"
  by (subst (1 2) read_pairs.simps) (simp add: skip_whitespace_def)

lemma read_pairs_Nil [simp]: "read_pairs [] = []"
  by (subst read_pairs.simps) (simp add: skip_whitespace_def)

lemma read_pairs_print:
  "list_all pair_fits ps \<Longrightarrow> read_pairs (join_with '' '' (map print_pair ps)) = map snd ps"
proof (induction ps)
  case Nil
  then show ?case by simp
next
  case (Cons p ps)
  show ?case
  proof (cases ps)
    case Nil
    then show ?thesis
      using Cons read_pairs_step[of p "[]"] by simp
  next
    case (Cons p' ps')
    then show ?thesis
      using Cons.prems Cons.IH read_pairs_step[of p "CHR '' '' # join_with '' '' (map print_pair ps)"]
      by (auto simp: read_pairs_space)
  qed
qed

lemma trim_id: "s \<noteq> [] \<Longrightarrow> \<not> ascii_space (hd s) \<Longrightarrow> \<not> ascii_space (last s) \<Longrightarrow> trim s = s"
proof -
  assume s: "s \<noteq> []" "\<not> ascii_space (hd s)" "\<not> ascii_space (last s)"
  have l: "dropWhile ascii_space s = s" using s by (cases s) auto
  have "dropWhile ascii_space (rev s) = rev s" using s by (cases s rule: rev_cases) auto
  then show ?thesis by (simp add: trim_def l)
qed

lemma print_pair_last: "pair_fits p \<Longrightarrow> \<not> ascii_space (last (print_pair p))"
  by (cases p) (auto simp: pair_fits_def print_pair_def quote_value_def value_fits_def list_all_iff
      split: quoting.splits)

lemma join_pairs_ends:
  assumes "ps \<noteq> []" "list_all pair_fits ps"
  defines "s \<equiv> join_with '' '' (map print_pair ps)"
  shows "s \<noteq> [] \<and> \<not> ascii_space (hd s) \<and> \<not> ascii_space (last s) \<and> CHR ''='' \<in> set s"
  using assms(1,2) unfolding s_def
proof (induction ps)
  case (Cons p ps)
  have p: "print_pair p \<noteq> []" "\<not> ascii_space (hd (print_pair p))" "\<not> ascii_space (last (print_pair p))"
    "CHR ''='' \<in> set (print_pair p)"
    using Cons.prems print_pair_hd[of p] print_pair_last[of p] by (auto simp: print_pair_def split: prod.splits)
  show ?case
  proof (cases ps)
    case Nil
    then show ?thesis using p by simp
  next
    case (Cons p' ps')
    then show ?thesis using p Cons.IH Cons.prems by simp
  qed
qed simp

lemma parse_pairs_print:
  assumes "ps \<noteq> []" "list_all pair_fits ps"
  shows "parse_key_value_pairs (join_with '' '' (map print_pair ps)) = map snd ps"
  using join_pairs_ends[OF assms] read_pairs_print[OF assms(2)]
  by (simp add: parse_key_value_pairs_def trim_id Let_def)

lemma split_once_print: "c \<notin> set a \<Longrightarrow> split_once c (a @ c # b) = Some (a, b)"
  by (simp add: split_once_def)

lemma split_once_absent: "c \<notin> set a \<Longrightarrow> split_once c a = None"
  by (simp add: split_once_def)

lemma dec_digits: "\<not> ascii_digit c \<Longrightarrow> c \<notin> set (dec n)"
  using dec_props[of n] by (auto simp: list_all_iff)

text \<open>
  C25. The arguments of instructions read back as they were written.  A non-empty list of
  pairs, each value bare or in either kind of quotes as its characters permit, reads back as
  that list, in order; an argument with or without a default, a user with or without a group,
  and an exposed port with or without a protocol read back as well.
\<close>

theorem instruction_arguments_roundtrip:
  assumes "ps \<noteq> []" "list_all pair_fits ps"
  shows "parse_key_value_pairs (join_with '' '' (map print_pair ps)) = map snd ps \<and>
    (CHR ''='' \<notin> set name \<longrightarrow>
       parse_arg_value name = \<lparr> arg_name = name, arg_default = None \<rparr> \<and>
       parse_arg_value (name @ ''='' @ d) = \<lparr> arg_name = name, arg_default = Some d \<rparr>) \<and>
    (CHR '':'' \<notin> set user \<longrightarrow>
       parse_user_value user = \<lparr> user_name = user, user_group = None \<rparr> \<and>
       parse_user_value (user @ '':'' @ grp) = \<lparr> user_name = user, user_group = Some grp \<rparr>) \<and>
    parse_exposed_port (dec (unat port)) = Some \<lparr> ep_port = port, ep_protocol = ''tcp'' \<rparr> \<and>
    parse_exposed_port (dec (unat port) @ ''/'' @ proto) = Some \<lparr> ep_port = port, ep_protocol = proto \<rparr>"
proof -
  have slash: "CHR ''/'' \<notin> set (dec (unat port))" by (rule dec_digits) (simp add: ascii_digit_def code_of_def)
  have "parse_uint 16 (dec (unat port)) = Some (unat port)"
    using unsigned_less[of port] by (intro parse_dec) simp
  then show ?thesis
    using parse_pairs_print[OF assms] slash
    by (auto simp: parse_arg_value_def parse_user_value_def parse_exposed_port_def split_once_print split_once_absent)
qed

theorem instruction_arguments_roundtrip_witness:
  "parse_key_value_pairs (join_with '' '' (map print_pair
      [(DoubleQuotes, ''A'', ''x y''), (Bare, ''B'', ''1'')])) = [(''A'', ''x y''), (''B'', ''1'')]"
proof -
  let ?ps = "[(DoubleQuotes, ''A'', ''x y''), (Bare, ''B'', ''1'')]"
  have "list_all pair_fits ?ps" by code_simp
  from instruction_arguments_roundtrip[OF _ this] show ?thesis by simp
qed

end
