(* ===== verification/Build_Engine.thy ===== *)
theory Build_Engine
  imports Build_Substitute Dockerfile "HOL-Library.AList" "HOL-Library.List_Lexorder" "HOL-Library.Char_ord"
begin

text \<open>
  The build engine (\<^verbatim>\<open>visor-build/src/engine.rs\<close>): which stages are built, and
  what each instruction does to the state of its stage and to the guest.  The executor that
  talks to the guest is a record of operations on a state of its own, as it is a trait in the
  code.  A hash map that is only looked up is a partial map; the environment passed to
  commands, which is listed, is an association list with one entry per name.
\<close>

section \<open>Types\<close>

record layer_snapshot =
  ls_data :: string
  ls_compressed_digest :: string
  ls_uncompressed_digest :: string
  ls_compressed_size :: u64

record resolved_mount =
  rm_type :: mount_type
  rm_target :: string
  rm_source :: "string option"
  rm_read_only :: bool
  rm_id :: "string option"

record ('x, 'e) build_executor =
  ex_overlay_init :: "string option \<Rightarrow> 'x \<Rightarrow> (unit, 'e) result \<times> 'x"
  ex_exec :: "string list \<Rightarrow> string list \<Rightarrow> string \<Rightarrow> 'x \<Rightarrow> (int \<times> string \<times> string, 'e) result \<times> 'x"
  ex_snapshot_layer :: "'x \<Rightarrow> (layer_snapshot, 'e) result \<times> 'x"
  ex_flatten_overlay :: "'x \<Rightarrow> (unit, 'e) result \<times> 'x"
  ex_copy_to_guest :: "string list \<Rightarrow> string \<Rightarrow> 'x \<Rightarrow> (unit, 'e) result \<times> 'x"
  ex_setup_mount :: "resolved_mount \<Rightarrow> 'x \<Rightarrow> (unit, 'e) result \<times> 'x"
  ex_teardown_mount :: "resolved_mount \<Rightarrow> 'x \<Rightarrow> (unit, 'e) result \<times> 'x"

record build_config =
  bc_dockerfile :: parsed_dockerfile
  bc_build_args :: var_map
  bc_target :: "string option"
  bc_no_cache :: bool
  bc_context_dir :: string
  bc_tag :: "string option"

record built_layer =
  bl_data :: string
  bl_compressed_digest :: string
  bl_uncompressed_digest :: string
  bl_compressed_size :: u64
  bl_empty :: bool

record image_metadata =
  im_cmd :: "string list option"
  im_entrypoint :: "string list option"
  im_env :: "(string \<times> string) list"
  im_working_dir :: "string option"
  im_user :: "string option"
  im_exposed_ports :: "(u16 \<times> string) list"
  im_labels :: "(string \<times> string) list"
  im_shell :: "string list option"
  im_stop_signal :: "string option"
  im_volumes :: "string list"

record build_step =
  bs_number :: nat
  bs_total :: nat
  bs_instruction :: string
  bs_cached :: bool

record build_result =
  br_base_image :: "string option"
  br_layers :: "built_layer list"
  br_config :: image_metadata
  br_steps :: "build_step list"

record stage_state =
  ss_layers :: "built_layer list"
  ss_vars :: var_map
  ss_env_vars :: "(string \<times> string) list"
  ss_working_dir :: string
  ss_shell :: "string list"
  ss_metadata :: image_metadata
  ss_context_dir :: string

datatype 'e build_error =
    Substitution subst_error
  | OverlayInit 'e
  | MountSetup 'e
  | ExecFailed 'e
  | MountTeardown 'e
  | RunExit int
  | CopyFailed 'e
  | SnapshotFailed 'e
  | FlattenFailed 'e
  | TargetNotFound string
  | NoStages

definition metadata_default :: image_metadata where
  "metadata_default = \<lparr> im_cmd = None, im_entrypoint = None, im_env = [], im_working_dir = None,
     im_user = None, im_exposed_ports = [], im_labels = [], im_shell = None,
     im_stop_signal = None, im_volumes = [] \<rparr>"

section \<open>Which stages are built\<close>

definition stage_position :: "stage list \<Rightarrow> string \<Rightarrow> nat option" where
  "stage_position stages name =
    (let i = length (takeWhile (\<lambda>s. from_alias (st_from s) \<noteq> Some name) stages) in
     if i < length stages then Some i else None)"

definition resolve_stage_ref :: "string \<Rightarrow> stage list \<Rightarrow> nat option" where
  "resolve_stage_ref reference stages = (case parse_uint 64 reference of
     Some idx \<Rightarrow> if idx < length stages then Some idx else stage_position stages reference
   | None \<Rightarrow> stage_position stages reference)"

definition option_list :: "'a option \<Rightarrow> 'a list" where
  "option_list x = (case x of Some a \<Rightarrow> [a] | None \<Rightarrow> [])"

definition copy_stage_refs :: "stage list \<Rightarrow> build_instruction \<Rightarrow> nat list" where
  "copy_stage_refs stages instr = (case instr of
     Copy c \<Rightarrow> (case copy_from c of
         Some from \<Rightarrow> option_list (resolve_stage_ref from stages) | None \<Rightarrow> [])
   | _ \<Rightarrow> [])"

definition stage_deps :: "stage list \<Rightarrow> nat \<Rightarrow> nat list" where
  "stage_deps stages idx =
    option_list (resolve_stage_ref (from_image (st_from (stages ! idx))) stages) @
    concat (map (copy_stage_refs stages) (st_instructions (stages ! idx)))"

lemma needed_measure: "idx \<notin> N \<Longrightarrow> idx < n \<Longrightarrow> 0 < card ({0..<n::nat} - N)"
  by (auto simp: card_gt_0_iff)

text \<open>The stack has its top first; an index out of range would be a panic and is \<open>None\<close>.\<close>

function needed_loop :: "stage list \<Rightarrow> nat list \<Rightarrow> nat list \<Rightarrow> nat list option" where
  "needed_loop stages needed [] = Some needed"
| "needed_loop stages needed (idx # queue) =
    (if idx \<in> set needed then needed_loop stages needed queue
     else if idx < length stages then
       needed_loop stages (idx # needed) (rev (stage_deps stages idx) @ queue)
     else None)"
  by pat_completeness auto
termination
  by (relation "measures [\<lambda>(stages, needed, queue). card ({0..<length stages} - set needed),
      \<lambda>(stages, needed, queue). length queue]")
    (simp_all add: needed_measure)

definition resolve_needed_stages :: "build_config \<Rightarrow> (nat list, string) result option" where
  "resolve_needed_stages config =
    (let stages = df_stages (bc_dockerfile config) in
     case bc_target config of
       None \<Rightarrow> Some (Ok [0..<length stages])
     | Some target \<Rightarrow> (case stage_position stages target of
         None \<Rightarrow> Some (Err target)
       | Some target_idx \<Rightarrow> map_option (\<lambda>needed. Ok (sort needed)) (needed_loop stages [] [target_idx])))"

section \<open>Arguments and texts\<close>

definition resolve_global_args :: "build_config \<Rightarrow> var_map" where
  "resolve_global_args config = foldl (\<lambda>vars arg.
     case bc_build_args config (arg_name arg) of
       Some val \<Rightarrow> vars(arg_name arg \<mapsto> val)
     | None \<Rightarrow> (case arg_default arg of
         Some d \<Rightarrow> vars(arg_name arg \<mapsto> d) | None \<Rightarrow> vars))
     Map.empty (df_global_args (bc_dockerfile config))"

definition count_steps :: "build_config \<Rightarrow> nat list \<Rightarrow> nat" where
  "count_steps config needed =
    sum_list (map (\<lambda>i. 1 + length (st_instructions (df_stages (bc_dockerfile config) ! i))) needed)"

definition command_to_vec :: "command_form \<Rightarrow> string list" where
  "command_to_vec cmd = (case cmd of ShellForm s \<Rightarrow> [s] | ExecForm args \<Rightarrow> args)"

text \<open>The debug form of a string, for the control characters and quotes of ASCII.\<close>

definition hex_digit :: "nat \<Rightarrow> char" where
  "hex_digit d = (if d < 10 then char_of (48 + d) else char_of (87 + d))"

definition debug_char :: "char \<Rightarrow> string" where
  "debug_char c =
    (if c = CHR 0x22 then [CHR 0x5C, CHR 0x22] else if c = CHR 0x5C then [CHR 0x5C, CHR 0x5C]
     else if c = CHR 0x09 then [CHR 0x5C, CHR ''t''] else if c = CHR 0x0A then [CHR 0x5C, CHR ''n'']
     else if c = CHR 0x0D then [CHR 0x5C, CHR ''r''] else if c = CHR 0x00 then [CHR 0x5C, CHR ''0'']
     else if code_of c < 32 \<or> code_of c = 127 then
       [CHR 0x5C, CHR ''u'', CHR ''{''] @
       (if code_of c < 16 then [hex_digit (code_of c)] else [hex_digit (code_of c div 16), hex_digit (code_of c mod 16)]) @ ''}''
     else [c])"

definition debug_strings :: "string list \<Rightarrow> string" where
  "debug_strings xs =
    ''['' @ join_with '', '' (map (\<lambda>s. CHR 0x22 # concat (map debug_char s) @ [CHR 0x22]) xs) @ '']''"

definition format_command :: "command_form \<Rightarrow> string" where
  "format_command cmd = (case cmd of ShellForm s \<Rightarrow> s | ExecForm args \<Rightarrow> debug_strings args)"

definition format_from :: "string \<Rightarrow> string option \<Rightarrow> string" where
  "format_from img alias = (case alias of
     Some a \<Rightarrow> ''FROM '' @ img @ '' AS '' @ a | None \<Rightarrow> ''FROM '' @ img)"

definition format_pair :: "string \<times> string \<Rightarrow> string" where
  "format_pair p = fst p @ ''='' @ snd p"

definition format_instruction :: "build_instruction \<Rightarrow> string" where
  "format_instruction instr = (case instr of
     Run r \<Rightarrow> ''RUN '' @ format_command (run_command r)
   | Copy c \<Rightarrow> ''COPY '' @ (case copy_from c of None \<Rightarrow> [] | Some f \<Rightarrow> ''--from='' @ f @ '' '') @
       join_with '' '' (copy_sources c) @ '' '' @ copy_dest c
   | Add a \<Rightarrow> ''ADD '' @ join_with '' '' (add_sources a) @ '' '' @ add_dest a
   | Env vars \<Rightarrow> ''ENV '' @ join_with '' '' (map format_pair vars)
   | Arg a \<Rightarrow> ''ARG '' @ arg_name a @ (case arg_default a of Some d \<Rightarrow> ''='' @ d | None \<Rightarrow> [])
   | Workdir path \<Rightarrow> ''WORKDIR '' @ path
   | User u \<Rightarrow> ''USER '' @ user_name u
   | Cmd c \<Rightarrow> ''CMD '' @ format_command c
   | Entrypoint c \<Rightarrow> ''ENTRYPOINT '' @ format_command c
   | Expose ports \<Rightarrow> ''EXPOSE '' @
       join_with '' '' (map (\<lambda>p. dec (unat (ep_port p)) @ ''/'' @ ep_protocol p) ports)
   | Label labels \<Rightarrow> ''LABEL '' @ join_with '' '' (map format_pair labels)
   | Shell shell \<Rightarrow> ''SHELL '' @ debug_strings shell
   | Stopsignal s \<Rightarrow> ''STOPSIGNAL '' @ s
   | Healthcheck _ \<Rightarrow> ''HEALTHCHECK''
   | Volume paths \<Rightarrow> ''VOLUME '' @ join_with '' '' paths)"

primrec substitute_all :: "var_map \<Rightarrow> string list \<Rightarrow> (string list, subst_error) result" where
  "substitute_all vars [] = Ok []"
| "substitute_all vars (s # ss) = (case substitute_vars vars s of
     Err e \<Rightarrow> Err e
   | Ok t \<Rightarrow> (case substitute_all vars ss of Err e \<Rightarrow> Err e | Ok ts \<Rightarrow> Ok (t # ts)))"

definition build_run_command :: "run_instr \<Rightarrow> var_map \<Rightarrow> string list \<Rightarrow> (string list, subst_error) result" where
  "build_run_command run vars shell = (case run_command run of
     ShellForm s \<Rightarrow> (case substitute_vars vars s of Err e \<Rightarrow> Err e | Ok t \<Rightarrow> Ok (shell @ [t]))
   | ExecForm args \<Rightarrow> substitute_all vars args)"

definition resolve_mount :: "var_map \<Rightarrow> mount_flag \<Rightarrow> (resolved_mount, subst_error) result" where
  "resolve_mount vars mf = (case substitute_vars vars (mf_target mf) of
     Err e \<Rightarrow> Err e
   | Ok target \<Rightarrow>
       (case (case mf_source mf of None \<Rightarrow> Ok None
              | Some s \<Rightarrow> (case substitute_vars vars s of Err e \<Rightarrow> Err e | Ok t \<Rightarrow> Ok (Some t))) of
          Err e \<Rightarrow> Err e
        | Ok source \<Rightarrow> Ok \<lparr> rm_type = mf_type mf, rm_target = target, rm_source = source,
                            rm_read_only = mf_read_only mf, rm_id = mf_id mf \<rparr>))"

primrec resolve_mounts :: "mount_flag list \<Rightarrow> var_map \<Rightarrow> (resolved_mount list, subst_error) result" where
  "resolve_mounts [] vars = Ok []"
| "resolve_mounts (m # ms) vars = (case resolve_mount vars m of
     Err e \<Rightarrow> Err e
   | Ok r \<Rightarrow> (case resolve_mounts ms vars of Err e \<Rightarrow> Err e | Ok rs \<Rightarrow> Ok (r # rs)))"

section \<open>Instructions that make layers\<close>

definition snapshot_and_flatten ::
  "('x, 'e) build_executor \<Rightarrow> built_layer list \<Rightarrow> 'x \<Rightarrow> (built_layer list, 'e build_error) result \<times> 'x" where
  "snapshot_and_flatten ex layers x = (case ex_snapshot_layer ex x of
     (Err e, x1) \<Rightarrow> (Err (SnapshotFailed e), x1)
   | (Ok snap, x1) \<Rightarrow>
       (let layers' = layers @ [\<lparr> bl_data = ls_data snap, bl_compressed_digest = ls_compressed_digest snap,
              bl_uncompressed_digest = ls_uncompressed_digest snap,
              bl_compressed_size = ls_compressed_size snap, bl_empty = False \<rparr>]
        in case ex_flatten_overlay ex x1 of
             (Err e, x2) \<Rightarrow> (Err (FlattenFailed e), x2)
           | (Ok _, x2) \<Rightarrow> (Ok layers', x2)))"

definition finish_layer ::
  "('x, 'e) build_executor \<Rightarrow> stage_state \<Rightarrow> 'x \<Rightarrow> (stage_state, 'e build_error) result \<times> 'x" where
  "finish_layer ex st x = (case snapshot_and_flatten ex (ss_layers st) x of
     (Err e, x1) \<Rightarrow> (Err e, x1) | (Ok layers, x1) \<Rightarrow> (Ok (st\<lparr>ss_layers := layers\<rparr>), x1))"

primrec setup_mounts ::
  "('x, 'e) build_executor \<Rightarrow> resolved_mount list \<Rightarrow> 'x \<Rightarrow> (unit, 'e build_error) result \<times> 'x" where
  "setup_mounts ex [] x = (Ok (), x)"
| "setup_mounts ex (m # ms) x = (case ex_setup_mount ex m x of
     (Err e, x1) \<Rightarrow> (Err (MountSetup e), x1) | (Ok _, x1) \<Rightarrow> setup_mounts ex ms x1)"

primrec teardown_mounts ::
  "('x, 'e) build_executor \<Rightarrow> resolved_mount list \<Rightarrow> 'x \<Rightarrow> (unit, 'e build_error) result \<times> 'x" where
  "teardown_mounts ex [] x = (Ok (), x)"
| "teardown_mounts ex (m # ms) x = (case ex_teardown_mount ex m x of
     (Err e, x1) \<Rightarrow> (Err (MountTeardown e), x1) | (Ok _, x1) \<Rightarrow> teardown_mounts ex ms x1)"

definition env_list :: "stage_state \<Rightarrow> string list" where
  "env_list st = sort (map format_pair (ss_env_vars st))"

definition process_run ::
  "('x, 'e) build_executor \<Rightarrow> run_instr \<Rightarrow> stage_state \<Rightarrow> 'x \<Rightarrow> (stage_state, 'e build_error) result \<times> 'x" where
  "process_run ex run st x = (case build_run_command run (ss_vars st) (ss_shell st) of
     Err e \<Rightarrow> (Err (Substitution e), x)
   | Ok cmd \<Rightarrow> (case resolve_mounts (run_mounts run) (ss_vars st) of
       Err e \<Rightarrow> (Err (Substitution e), x)
     | Ok mounts \<Rightarrow> (case setup_mounts ex mounts x of
         (Err e, x1) \<Rightarrow> (Err e, x1)
       | (Ok _, x1) \<Rightarrow> (case ex_exec ex cmd (env_list st) (ss_working_dir st) x1 of
           (exec_result, x2) \<Rightarrow> (case teardown_mounts ex (rev mounts) x2 of
             (Err e, x3) \<Rightarrow> (Err e, x3)
           | (Ok _, x3) \<Rightarrow> (case exec_result of
               Err e \<Rightarrow> (Err (ExecFailed e), x3)
             | Ok (exit_code, out, err) \<Rightarrow>
                 if exit_code \<noteq> 0 then (Err (RunExit exit_code), x3)
                 else finish_layer ex st x3))))))"

definition process_copy ::
  "('x, 'e) build_executor \<Rightarrow> copy_instr \<Rightarrow> stage_state \<Rightarrow> 'x \<Rightarrow> (stage_state, 'e build_error) result \<times> 'x" where
  "process_copy ex copy st x = (case substitute_vars (ss_vars st) (copy_dest copy) of
     Err e \<Rightarrow> (Err (Substitution e), x)
   | Ok dest \<Rightarrow> (case substitute_all (ss_vars st) (copy_sources copy) of
       Err e \<Rightarrow> (Err (Substitution e), x)
     | Ok expanded \<Rightarrow>
         (let sources = (if copy_from copy \<noteq> None then expanded
                         else map (path_join (ss_context_dir st)) expanded)
          in case ex_copy_to_guest ex sources dest x of
               (Err e, x1) \<Rightarrow> (Err (CopyFailed e), x1)
             | (Ok _, x1) \<Rightarrow> finish_layer ex st x1)))"

definition process_add ::
  "('x, 'e) build_executor \<Rightarrow> add_instr \<Rightarrow> stage_state \<Rightarrow> 'x \<Rightarrow> (stage_state, 'e build_error) result \<times> 'x" where
  "process_add ex add st x = (case substitute_vars (ss_vars st) (add_dest add) of
     Err e \<Rightarrow> (Err (Substitution e), x)
   | Ok dest \<Rightarrow> (case substitute_all (ss_vars st) (add_sources add) of
       Err e \<Rightarrow> (Err (Substitution e), x)
     | Ok expanded \<Rightarrow>
         (case ex_copy_to_guest ex (map (path_join (ss_context_dir st)) expanded) dest x of
            (Err e, x1) \<Rightarrow> (Err (CopyFailed e), x1)
          | (Ok _, x1) \<Rightarrow> finish_layer ex st x1)))"

section \<open>Instructions that change the metadata\<close>

primrec apply_env :: "(string \<times> string) list \<Rightarrow> stage_state \<Rightarrow> (stage_state, subst_error) result" where
  "apply_env [] st = Ok st"
| "apply_env (p # ps) st = (case substitute_vars (ss_vars st) (snd p) of
     Err e \<Rightarrow> Err e
   | Ok expanded \<Rightarrow> apply_env ps (st\<lparr>
       ss_vars := (ss_vars st)(fst p \<mapsto> expanded),
       ss_env_vars := AList.update (fst p) expanded (ss_env_vars st),
       ss_metadata := (ss_metadata st)\<lparr>im_env := im_env (ss_metadata st) @ [(fst p, expanded)]\<rparr>\<rparr>))"

definition apply_arg :: "build_config \<Rightarrow> arg_instr \<Rightarrow> stage_state \<Rightarrow> stage_state" where
  "apply_arg config arg st =
    (let val = (case bc_build_args config (arg_name arg) of
           Some v \<Rightarrow> v
         | None \<Rightarrow> (case arg_default arg of
             Some d \<Rightarrow> d
           | None \<Rightarrow>
               (case find (\<lambda>g. arg_name g = arg_name arg) (df_global_args (bc_dockerfile config)) of
                  Some g \<Rightarrow> (case arg_default g of Some d \<Rightarrow> d | None \<Rightarrow> [])
                | None \<Rightarrow> [])))
     in st\<lparr>ss_vars := (ss_vars st)(arg_name arg \<mapsto> val)\<rparr>)"

definition apply_workdir :: "string \<Rightarrow> stage_state \<Rightarrow> (stage_state, subst_error) result" where
  "apply_workdir wd st = (case substitute_vars (ss_vars st) wd of
     Err e \<Rightarrow> Err e
   | Ok path \<Rightarrow>
       (let dir = (if path \<noteq> [] \<and> hd path = CHR ''/'' then path
                   else if ss_working_dir st \<noteq> [] \<and> last (ss_working_dir st) = CHR ''/''
                   then ss_working_dir st @ path
                   else ss_working_dir st @ ''/'' @ path)
        in Ok (st\<lparr>ss_working_dir := dir, ss_metadata := (ss_metadata st)\<lparr>im_working_dir := Some dir\<rparr>\<rparr>)))"

definition on_metadata :: "(image_metadata \<Rightarrow> image_metadata) \<Rightarrow> stage_state \<Rightarrow> stage_state" where
  "on_metadata f st = st\<lparr>ss_metadata := f (ss_metadata st)\<rparr>"

definition apply_user :: "user_instr \<Rightarrow> stage_state \<Rightarrow> stage_state" where
  "apply_user u = on_metadata (\<lambda>im. im\<lparr>im_user := Some (user_name u)\<rparr>)"

definition apply_cmd :: "command_form \<Rightarrow> stage_state \<Rightarrow> stage_state" where
  "apply_cmd c = on_metadata (\<lambda>im. im\<lparr>im_cmd := Some (command_to_vec c)\<rparr>)"

definition apply_entrypoint :: "command_form \<Rightarrow> stage_state \<Rightarrow> stage_state" where
  "apply_entrypoint c = on_metadata (\<lambda>im. im\<lparr>im_entrypoint := Some (command_to_vec c)\<rparr>)"

definition apply_expose :: "exposed_port list \<Rightarrow> stage_state \<Rightarrow> stage_state" where
  "apply_expose ports = on_metadata (\<lambda>im. im\<lparr>im_exposed_ports :=
     im_exposed_ports im @ map (\<lambda>p. (ep_port p, ep_protocol p)) ports\<rparr>)"

definition apply_label :: "(string \<times> string) list \<Rightarrow> stage_state \<Rightarrow> stage_state" where
  "apply_label labels = on_metadata (\<lambda>im. im\<lparr>im_labels := im_labels im @ labels\<rparr>)"

definition apply_shell :: "string list \<Rightarrow> stage_state \<Rightarrow> stage_state" where
  "apply_shell shell st = on_metadata (\<lambda>im. im\<lparr>im_shell := Some shell\<rparr>) (st\<lparr>ss_shell := shell\<rparr>)"

definition apply_stopsignal :: "string \<Rightarrow> stage_state \<Rightarrow> stage_state" where
  "apply_stopsignal sig = on_metadata (\<lambda>im. im\<lparr>im_stop_signal := Some sig\<rparr>)"

definition apply_volume :: "string list \<Rightarrow> stage_state \<Rightarrow> stage_state" where
  "apply_volume paths = on_metadata (\<lambda>im. im\<lparr>im_volumes := im_volumes im @ paths\<rparr>)"

section \<open>The build\<close>

definition lift_subst :: "(stage_state, subst_error) result \<Rightarrow> (stage_state, 'e build_error) result" where
  "lift_subst r = (case r of Ok st \<Rightarrow> Ok st | Err e \<Rightarrow> Err (Substitution e))"

definition process_instruction ::
  "('x, 'e) build_executor \<Rightarrow> build_config \<Rightarrow> build_instruction \<Rightarrow> stage_state \<Rightarrow> 'x \<Rightarrow>
     (stage_state, 'e build_error) result \<times> 'x" where
  "process_instruction ex config instr st x = (case instr of
     Run r \<Rightarrow> process_run ex r st x
   | Copy c \<Rightarrow> process_copy ex c st x
   | Add a \<Rightarrow> process_add ex a st x
   | Env vars \<Rightarrow> (lift_subst (apply_env vars st), x)
   | Arg a \<Rightarrow> (Ok (apply_arg config a st), x)
   | Workdir w \<Rightarrow> (lift_subst (apply_workdir w st), x)
   | User u \<Rightarrow> (Ok (apply_user u st), x)
   | Cmd c \<Rightarrow> (Ok (apply_cmd c st), x)
   | Entrypoint c \<Rightarrow> (Ok (apply_entrypoint c st), x)
   | Expose ports \<Rightarrow> (Ok (apply_expose ports st), x)
   | Label labels \<Rightarrow> (Ok (apply_label labels st), x)
   | Shell shell \<Rightarrow> (Ok (apply_shell shell st), x)
   | Stopsignal s \<Rightarrow> (Ok (apply_stopsignal s st), x)
   | Healthcheck _ \<Rightarrow> (Ok st, x)
   | Volume paths \<Rightarrow> (Ok (apply_volume paths st), x))"

primrec run_instructions ::
  "('x, 'e) build_executor \<Rightarrow> build_config \<Rightarrow> nat \<Rightarrow> build_instruction list \<Rightarrow> nat \<Rightarrow> build_step list \<Rightarrow>
     stage_state \<Rightarrow> 'x \<Rightarrow> (nat \<times> build_step list \<times> stage_state, 'e build_error) result \<times> 'x" where
  "run_instructions ex config total_steps [] step_num steps st x = (Ok (step_num, steps, st), x)"
| "run_instructions ex config total_steps (instr # instrs) step_num steps st x =
    (let step_num' = step_num + 1;
         steps' = steps @ [\<lparr> bs_number = step_num', bs_total = total_steps,
             bs_instruction = format_instruction instr, bs_cached = False \<rparr>]
     in case process_instruction ex config instr st x of
          (Err e, x1) \<Rightarrow> (Err e, x1)
        | (Ok st1, x1) \<Rightarrow> run_instructions ex config total_steps instrs step_num' steps' st1 x1)"

definition stage_state_new :: "build_config \<Rightarrow> stage_state" where
  "stage_state_new config = \<lparr> ss_layers = [], ss_vars = Map.empty, ss_env_vars = [],
     ss_working_dir = ''/'', ss_shell = [''/bin/sh'', ''-c''], ss_metadata = metadata_default,
     ss_context_dir = bc_context_dir config \<rparr>"

primrec build_stages ::
  "('x, 'e) build_executor \<Rightarrow> build_config \<Rightarrow> var_map \<Rightarrow> nat \<Rightarrow> nat \<Rightarrow> nat list \<Rightarrow> nat \<Rightarrow>
     build_step list \<Rightarrow> stage_state list \<Rightarrow> string option \<Rightarrow> 'x \<Rightarrow>
     (build_step list \<times> stage_state list \<times> string option, 'e build_error) result \<times> 'x" where
  "build_stages ex config globals total_steps final [] step_num steps completed base x =
    (Ok (steps, completed, base), x)"
| "build_stages ex config globals total_steps final (i # is) step_num steps completed base x =
    (let stages = df_stages (bc_dockerfile config); stage = stages ! i in
     case substitute_vars globals (from_image (st_from stage)) of
       Err e \<Rightarrow> (Err (Substitution e), x)
     | Ok img \<Rightarrow>
         (let step_num1 = step_num + 1;
              steps1 = steps @ [\<lparr> bs_number = step_num1, bs_total = total_steps,
                bs_instruction = format_from img (from_alias (st_from stage)), bs_cached = False \<rparr>];
              lower = map_option (\<lambda>_. img) (resolve_stage_ref img stages);
              base' = (if i = final \<and> lower = None then Some img else base)
          in case ex_overlay_init ex lower x of
               (Err e, x1) \<Rightarrow> (Err (OverlayInit e), x1)
             | (Ok _, x1) \<Rightarrow>
                 (case run_instructions ex config total_steps (st_instructions stage) step_num1 steps1
                         (stage_state_new config) x1 of
                    (Err e, x2) \<Rightarrow> (Err e, x2)
                  | (Ok (step_num2, steps2, st), x2) \<Rightarrow>
                      build_stages ex config globals total_steps final is step_num2 steps2
                        (completed @ [st]) base' x2)))"

definition build ::
  "('x, 'e) build_executor \<Rightarrow> build_config \<Rightarrow> 'x \<Rightarrow> ((build_result, 'e build_error) result \<times> 'x) option" where
  "build ex config x = (case resolve_needed_stages config of
     None \<Rightarrow> None
   | Some (Err target) \<Rightarrow> Some (Err (TargetNotFound target), x)
   | Some (Ok needed) \<Rightarrow>
       (if needed = [] then Some (Err NoStages, x)
        else case build_stages ex config (resolve_global_args config) (count_steps config needed)
               (last needed) needed 0 [] [] None x of
          (Err e, x1) \<Rightarrow> Some (Err e, x1)
        | (Ok (steps, completed, base), x1) \<Rightarrow>
            Some (Ok \<lparr> br_base_image = base, br_layers = ss_layers (last completed),
                       br_config = ss_metadata (last completed), br_steps = steps \<rparr>, x1)))"

section \<open>The stages that are built\<close>

lemma resolve_stage_ref_bound: "resolve_stage_ref r stages = Some i \<Longrightarrow> i < length stages"
  by (auto simp: resolve_stage_ref_def stage_position_def Let_def split: option.splits if_splits)

lemma stage_deps_bound: "d \<in> set (stage_deps stages i) \<Longrightarrow> d < length stages"
  by (auto simp: stage_deps_def copy_stage_refs_def option_list_def
      split: option.splits build_instruction.splits dest!: resolve_stage_ref_bound[OF sym])

text \<open>A stage needs the stage it starts from and the stages it copies from.\<close>

definition stage_needs :: "stage list \<Rightarrow> (nat \<times> nat) set" where
  "stage_needs stages = {(i, d). resolve_stage_ref (from_image (st_from (stages ! i))) stages = Some d \<or>
     (\<exists>c from. Copy c \<in> set (st_instructions (stages ! i)) \<and> copy_from c = Some from \<and>
        resolve_stage_ref from stages = Some d)}"

lemma stage_needs_deps: "stage_needs stages = {(i, d). d \<in> set (stage_deps stages i)}"
  by (auto simp: stage_needs_def stage_deps_def copy_stage_refs_def option_list_def
      split: option.splits build_instruction.splits) force+

text \<open>
  What the loop has found is reachable, what it has not followed up is waiting, and nothing
  out of range is waiting.
\<close>

lemma needed_loop_exact:
  assumes "set queue \<subseteq> {0..<length stages}" "set needed \<union> set queue \<subseteq> (stage_needs stages)\<^sup>* `` {t}"
    "\<forall>i \<in> set needed. set (stage_deps stages i) \<subseteq> set needed \<union> set queue" "t \<in> set needed \<union> set queue"
    "distinct needed"
  shows "\<exists>res. needed_loop stages needed queue = Some res \<and> distinct res \<and>
    set res = (stage_needs stages)\<^sup>* `` {t}"
  using assms
proof (induction stages needed queue rule: needed_loop.induct)
  case (1 stages needed)
  have "(stage_needs stages)\<^sup>* `` {t} \<subseteq> set needed"
  proof
    fix i assume "i \<in> (stage_needs stages)\<^sup>* `` {t}"
    then have "(t, i) \<in> (stage_needs stages)\<^sup>*" by simp
    then show "i \<in> set needed"
      by (induction rule: rtrancl_induct) (use 1(3,4) in \<open>auto simp: stage_needs_deps\<close>)
  qed
  then show ?case using 1 by auto
next
  case (2 stages needed idx queue)
  show ?case
  proof (cases "idx \<in> set needed")
    case True
    then show ?thesis using 2 by (simp add: insert_absorb)
  next
    case False
    have idx: "idx < length stages" "(t, idx) \<in> (stage_needs stages)\<^sup>*" using 2(3,4) by auto
    have "set (stage_deps stages idx) \<subseteq> (stage_needs stages)\<^sup>* `` {t}"
      using idx(2) by (auto simp: stage_needs_deps intro: rtrancl_into_rtrancl)
    moreover have "set (stage_deps stages idx) \<subseteq> {0..<length stages}" using stage_deps_bound by auto
    ultimately have "\<exists>res. needed_loop stages (idx # needed) (rev (stage_deps stages idx) @ queue) = Some res \<and>
        distinct res \<and> set res = (stage_needs stages)\<^sup>* `` {t}"
      using False 2(3,4,5,6,7) by (intro 2(2)[OF False idx(1)]) auto
    then show ?thesis using False idx by simp
  qed
qed

lemma stage_position_bound: "stage_position stages n = Some i \<Longrightarrow> i < length stages"
  by (auto simp: stage_position_def Let_def split: if_splits)

lemma stage_position_Some:
  assumes "stage_position stages n = Some i"
  shows "from_alias (st_from (stages ! i)) = Some n \<and> (\<forall>j < i. from_alias (st_from (stages ! j)) \<noteq> Some n)"
proof -
  let ?P = "\<lambda>s. from_alias (st_from s) \<noteq> Some n"
  have i: "i = length (takeWhile ?P stages)" "i < length stages"
    using assms by (auto simp: stage_position_def Let_def split: if_splits)
  have "\<not> ?P (stages ! i)" using i nth_length_takeWhile[of ?P stages] by blast
  moreover have "?P (stages ! j)" if "j < i" for j
    using that i(1) nth_mem[of j "takeWhile ?P stages"] takeWhile_nth[of j ?P stages] set_takeWhileD by fastforce
  ultimately show ?thesis by blast
qed

lemma stage_position_None: "stage_position stages n = None \<longleftrightarrow> (\<forall>s \<in> set stages. from_alias (st_from s) \<noteq> Some n)"
proof -
  have "length (takeWhile P xs) < length xs \<longleftrightarrow> (\<exists>x \<in> set xs. \<not> P x)" for P and xs :: "stage list"
    by (induction xs) auto
  then show ?thesis by (auto simp: stage_position_def Let_def)
qed

text \<open>
  C23. With a target, exactly the stages the target depends on are built, in the order of the
  file.  The search always returns.  Without a target every stage is selected; a target that
  names no stage is refused; otherwise the selection is the set of the stages that can be
  reached from the first stage of that name through base images and copies, each once and in
  ascending order.
\<close>

theorem needed_stages_exact:
  fixes config :: build_config
  defines "stages \<equiv> df_stages (bc_dockerfile config)"
  shows "case bc_target config of
      None \<Rightarrow> resolve_needed_stages config = Some (Ok [0..<length stages])
    | Some target \<Rightarrow>
        ((\<forall>s. s \<in> set stages \<longrightarrow> from_alias (st_from s) \<noteq> Some target) \<and>
           resolve_needed_stages config = Some (Err target)) \<or>
        (\<exists>t needed. t < length stages \<and> from_alias (st_from (stages ! t)) = Some target \<and>
           (\<forall>j < t. from_alias (st_from (stages ! j)) \<noteq> Some target) \<and>
           resolve_needed_stages config = Some (Ok needed) \<and> sorted needed \<and> distinct needed \<and>
           set needed = (stage_needs stages)\<^sup>* `` {t})"
proof (cases "bc_target config")
  case None
  then show ?thesis by (simp add: resolve_needed_stages_def stages_def)
next
  case (Some target)
  show ?thesis
  proof (cases "stage_position stages target")
    case None
    then have "resolve_needed_stages config = Some (Err target)"
      using Some by (simp add: resolve_needed_stages_def stages_def)
    then show ?thesis using Some None by (simp add: stage_position_None)
  next
    case pos: (Some t)
    have t: "t < length stages" by (rule stage_position_bound[OF pos])
    obtain res where res: "needed_loop stages [] [t] = Some res" "distinct res"
      "set res = (stage_needs stages)\<^sup>* `` {t}"
      using needed_loop_exact[of "[t]" stages "[]" t] t by auto
    then have "resolve_needed_stages config = Some (Ok (sort res))"
      using Some pos by (simp add: resolve_needed_stages_def stages_def)
    then show ?thesis using Some stage_position_Some[OF pos] t res by fastforce
  qed
qed

text \<open>A witness: of three stages, the target and the one it copies from.\<close>

definition demo_stage :: "string \<Rightarrow> string \<Rightarrow> build_instruction list \<Rightarrow> stage" where
  "demo_stage img alias instrs =
    \<lparr> st_from = \<lparr> from_image = img, from_alias = Some alias, from_platform = None \<rparr>, st_instructions = instrs \<rparr>"

definition demo_copy :: "string option \<Rightarrow> string \<Rightarrow> copy_instr" where
  "demo_copy from src = \<lparr> copy_sources = [src], copy_dest = ''/app'', copy_from = from, copy_chown = None,
     copy_chmod = None, copy_link = False \<rparr>"

definition demo_build :: "stage list \<Rightarrow> string option \<Rightarrow> build_config" where
  "demo_build stages target = \<lparr> bc_dockerfile = \<lparr> df_global_args = [], df_stages = stages \<rparr>,
     bc_build_args = Map.empty, bc_target = target, bc_no_cache = False, bc_context_dir = ''/ctx'',
     bc_tag = None \<rparr>"

theorem needed_stages_exact_witness:
  "let stages = [demo_stage ''alpine'' ''base'' [], demo_stage ''alpine'' ''docs'' [],
                 demo_stage ''alpine'' ''app'' [Copy (demo_copy (Some ''base'') ''/x'')]] in
   \<exists>needed. resolve_needed_stages (demo_build stages (Some ''app'')) = Some (Ok needed) \<and>
     needed = [0, 2] \<and> set needed = (stage_needs stages)\<^sup>* `` {2}"
proof -
  let ?stages = "[demo_stage ''alpine'' ''base'' [], demo_stage ''alpine'' ''docs'' [],
                 demo_stage ''alpine'' ''app'' [Copy (demo_copy (Some ''base'') ''/x'')]]"
  have r: "resolve_needed_stages (demo_build ?stages (Some ''app'')) = Some (Ok [0, 2])" by code_simp
  have proj: "bc_target (demo_build ?stages (Some ''app'')) = Some ''app''"
    "df_stages (bc_dockerfile (demo_build ?stages (Some ''app''))) = ?stages"
    by (simp_all add: demo_build_def)
  obtain t where t: "t < length ?stages" "from_alias (st_from (?stages ! t)) = Some ''app''"
    "set [0, 2] = (stage_needs ?stages)\<^sup>* `` {t}"
    using needed_stages_exact[of "demo_build ?stages (Some ''app'')", unfolded proj r] by auto
  have "t = 2" using t(1,2) by (auto simp: demo_stage_def less_Suc_eq numeral_2_eq_2)
  then show ?thesis using r t(3) by simp
qed

section \<open>What a command leaves behind\<close>

text \<open>
  The executor with a record of the calls made to it.  A call of a command is recorded with
  its outcome: the exit code, or none when the executor could not run it.
\<close>

datatype call =
    OverlayInitCall "string option"
  | ExecCall "string list" "string list" string "int option"
  | SnapshotCall
  | FlattenCall
  | CopyCall "string list" string
  | SetupCall resolved_mount
  | TeardownCall resolved_mount

fun exit_code_of :: "(int \<times> string \<times> string, 'e) result \<Rightarrow> int option" where
  "exit_code_of (Ok (code, _, _)) = Some code"
| "exit_code_of (Err _) = None"

definition noting :: "('r \<Rightarrow> call) \<Rightarrow> ('x \<Rightarrow> 'r \<times> 'x) \<Rightarrow> 'x \<times> call list \<Rightarrow> 'r \<times> 'x \<times> call list" where
  "noting c f s = (case f (fst s) of (r, x) \<Rightarrow> (r, x, snd s @ [c r]))"

definition logged :: "('x, 'e) build_executor \<Rightarrow> ('x \<times> call list, 'e) build_executor" where
  "logged ex = \<lparr>
     ex_overlay_init = \<lambda>l. noting (\<lambda>_. OverlayInitCall l) (ex_overlay_init ex l),
     ex_exec = \<lambda>cmd env dir. noting (\<lambda>r. ExecCall cmd env dir (exit_code_of r)) (ex_exec ex cmd env dir),
     ex_snapshot_layer = noting (\<lambda>_. SnapshotCall) (ex_snapshot_layer ex),
     ex_flatten_overlay = noting (\<lambda>_. FlattenCall) (ex_flatten_overlay ex),
     ex_copy_to_guest = \<lambda>srcs dest. noting (\<lambda>_. CopyCall srcs dest) (ex_copy_to_guest ex srcs dest),
     ex_setup_mount = \<lambda>m. noting (\<lambda>_. SetupCall m) (ex_setup_mount ex m),
     ex_teardown_mount = \<lambda>m. noting (\<lambda>_. TeardownCall m) (ex_teardown_mount ex m) \<rparr>"

lemma noting_eq: "noting c f s = (fst (f (fst s)), snd (f (fst s)), snd s @ [c (fst (f (fst s)))])"
  by (simp add: noting_def case_prod_beta)

text \<open>
  A step that makes calls in the given order: all of them when it succeeds, and when it fails
  those up to and including the one that failed.
\<close>

definition calls :: "call list \<Rightarrow> 'x \<times> call list \<Rightarrow> ('a, 'e) result \<times> 'x \<times> call list \<Rightarrow> bool" where
  "calls cs s out \<longleftrightarrow> (\<exists>made rest. cs = made @ rest \<and> snd (snd out) = snd s @ made \<and>
     (is_ok (fst out) \<longrightarrow> rest = []) \<and> (\<not> is_ok (fst out) \<longrightarrow> made \<noteq> []))"

lemma setup_mounts_calls:
  "calls (map SetupCall ms) s (setup_mounts (logged ex) ms s) \<and>
   (\<forall>e. fst (setup_mounts (logged ex) ms s) = Err e \<longrightarrow> (\<exists>f. e = MountSetup f))"
proof (induction ms arbitrary: s)
  case Nil
  then show ?case by (simp add: calls_def)
next
  case (Cons m ms)
  let ?s1 = "(snd (ex_setup_mount ex m (fst s)), snd s @ [SetupCall m])"
  show ?case
  proof (cases "fst (ex_setup_mount ex m (fst s))")
    case (Err e)
    then show ?thesis unfolding calls_def
      by (intro conjI exI[of _ "[SetupCall m]"] exI[of _ "map SetupCall ms"]) (simp_all add: logged_def noting_eq)
  next
    case (Ok u)
    then have out: "setup_mounts (logged ex) (m # ms) s = setup_mounts (logged ex) ms ?s1"
      by (simp add: logged_def noting_eq)
    from Cons.IH[of ?s1] obtain made rest where
      "map SetupCall ms = made @ rest" "snd (snd (setup_mounts (logged ex) ms ?s1)) = snd s @ [SetupCall m] @ made"
      "is_ok (fst (setup_mounts (logged ex) ms ?s1)) \<longrightarrow> rest = []"
      by (auto simp: calls_def)
    then have "calls (map SetupCall (m # ms)) s (setup_mounts (logged ex) ms ?s1)" unfolding calls_def
      by (intro exI[of _ "SetupCall m # made"] exI[of _ rest]) simp
    then show ?thesis using Cons.IH[of ?s1] unfolding out by blast
  qed
qed

lemma teardown_mounts_calls:
  "calls (map TeardownCall ms) s (teardown_mounts (logged ex) ms s) \<and>
   (\<forall>e. fst (teardown_mounts (logged ex) ms s) = Err e \<longrightarrow> (\<exists>f. e = MountTeardown f))"
proof (induction ms arbitrary: s)
  case Nil
  then show ?case by (simp add: calls_def)
next
  case (Cons m ms)
  let ?s1 = "(snd (ex_teardown_mount ex m (fst s)), snd s @ [TeardownCall m])"
  show ?case
  proof (cases "fst (ex_teardown_mount ex m (fst s))")
    case (Err e)
    then show ?thesis unfolding calls_def
      by (intro conjI exI[of _ "[TeardownCall m]"] exI[of _ "map TeardownCall ms"]) (simp_all add: logged_def noting_eq)
  next
    case (Ok u)
    then have out: "teardown_mounts (logged ex) (m # ms) s = teardown_mounts (logged ex) ms ?s1"
      by (simp add: logged_def noting_eq)
    from Cons.IH[of ?s1] obtain made rest where
      "map TeardownCall ms = made @ rest" "snd (snd (teardown_mounts (logged ex) ms ?s1)) = snd s @ [TeardownCall m] @ made"
      "is_ok (fst (teardown_mounts (logged ex) ms ?s1)) \<longrightarrow> rest = []"
      by (auto simp: calls_def)
    then have "calls (map TeardownCall (m # ms)) s (teardown_mounts (logged ex) ms ?s1)" unfolding calls_def
      by (intro exI[of _ "TeardownCall m # made"] exI[of _ rest]) simp
    then show ?thesis using Cons.IH[of ?s1] unfolding out by blast
  qed
qed

lemma finish_layer_calls:
  "calls [SnapshotCall, FlattenCall] s (finish_layer (logged ex) st s) \<and>
   (\<forall>e. fst (finish_layer (logged ex) st s) = Err e \<longrightarrow> (\<exists>f. e = SnapshotFailed f \<or> e = FlattenFailed f))"
proof -
  let ?x1 = "snd (ex_snapshot_layer ex (fst s))"
  show ?thesis
  proof (cases "fst (ex_snapshot_layer ex (fst s))")
    case (Err e)
    then show ?thesis unfolding calls_def
      by (intro conjI exI[of _ "[SnapshotCall]"] exI[of _ "[FlattenCall]"])
        (simp_all add: finish_layer_def snapshot_and_flatten_def logged_def noting_eq)
  next
    case (Ok snap)
    then show ?thesis unfolding calls_def
      by (intro conjI exI[of _ "[SnapshotCall, FlattenCall]"] exI[of _ "[]"])
        (simp_all add: finish_layer_def snapshot_and_flatten_def logged_def noting_eq Let_def split: result.split)
  qed
qed

lemma map_prefix:
  assumes "map f xs = made @ rest" "made \<noteq> []"
  shows "\<exists>k < length xs. made = map f (take (k + 1) xs)"
proof -
  have "made = take (length made) (map f xs)" using assms(1) by simp
  then have "made = map f (take (length made) xs)" by (simp add: take_map)
  moreover have "length made \<le> length xs" using arg_cong[OF assms(1), of length] by simp
  moreover obtain k where "length made = Suc k" using assms(2) by (cases made) auto
  ultimately show ?thesis by (intro exI[of _ k]) simp
qed

lemma calls_Ok: "calls cs s (Ok a, s') \<Longrightarrow> snd s' = snd s @ cs"
  by (auto simp: calls_def)

lemma calls_Err: "calls (map f xs) s (Err e, s') \<Longrightarrow> \<exists>k < length xs. snd s' = snd s @ map f (take (k + 1) xs)"
  using map_prefix by (fastforce simp: calls_def)

text \<open>
  What one command has done to the guest, by the result of the instruction.  \<^term>\<open>cmd\<close> is the
  command with its outcome still open: a layer is begun only after exit code 0, an exit code
  other than 0 is the one reported, and a command that could not be run has none.
\<close>

definition run_made ::
  "resolved_mount list \<Rightarrow> (int option \<Rightarrow> call) \<Rightarrow> (stage_state, 'e build_error) result \<Rightarrow> call list \<Rightarrow> bool" where
  "run_made ms cmd r made =
    (let upto = \<lambda>outcome. map SetupCall ms @ [cmd outcome] @ map TeardownCall (rev ms) in
     case r of
       Ok st' \<Rightarrow> made = upto (Some 0) @ [SnapshotCall, FlattenCall]
     | Err e \<Rightarrow> (case e of
         MountSetup f \<Rightarrow> \<exists>k < length ms. made = map SetupCall (take (k + 1) ms)
       | MountTeardown f \<Rightarrow> \<exists>k < length ms. \<exists>outcome.
           made = map SetupCall ms @ [cmd outcome] @ map TeardownCall (take (k + 1) (rev ms))
       | ExecFailed f \<Rightarrow> made = upto None
       | RunExit code \<Rightarrow> code \<noteq> 0 \<and> made = upto (Some code)
       | SnapshotFailed f \<Rightarrow> made = upto (Some 0) @ [SnapshotCall]
       | FlattenFailed f \<Rightarrow> made = upto (Some 0) @ [SnapshotCall, FlattenCall]
       | _ \<Rightarrow> False))"

lemma finish_layer_made:
  assumes "finish_layer (logged ex) st s = (r, s')"
  shows "case r of
      Ok st' \<Rightarrow> snd s' = snd s @ [SnapshotCall, FlattenCall]
    | Err e \<Rightarrow> (case e of SnapshotFailed f \<Rightarrow> snd s' = snd s @ [SnapshotCall]
        | FlattenFailed f \<Rightarrow> snd s' = snd s @ [SnapshotCall, FlattenCall] | _ \<Rightarrow> False)"
proof (cases "fst (ex_snapshot_layer ex (fst s))")
  case (Err e)
  then show ?thesis
    using assms by (auto simp: finish_layer_def snapshot_and_flatten_def logged_def noting_eq)
next
  case (Ok snap)
  then show ?thesis
    using assms
    by (auto simp: finish_layer_def snapshot_and_flatten_def logged_def noting_eq Let_def split: result.splits)
qed

text \<open>The calls after the mounts have been torn down, by the outcome of the command.\<close>

lemma command_outcome_made:
  assumes "(case exec_result of
      Err e \<Rightarrow> (Err (ExecFailed e), s3)
    | Ok (exit_code, out, err) \<Rightarrow>
        if exit_code \<noteq> 0 then (Err (RunExit exit_code), s3) else finish_layer (logged ex) st s3) = (r, s')"
    and log: "snd s3 = snd s @ map SetupCall ms @ [c (exit_code_of exec_result)] @ map TeardownCall (rev ms)"
  shows "\<exists>made. snd s' = snd s @ made \<and> run_made ms c r made"
proof -
  consider (failed) e where "exec_result = Err e"
    | (bad) code out err where "exec_result = Ok (code, out, err)" "code \<noteq> 0"
    | (good) out err where "exec_result = Ok (0, out, err)"
    by (cases exec_result) (auto, blast)
  then show ?thesis
  proof cases
    case failed then show ?thesis using assms by (auto simp: run_made_def)
  next
    case bad then show ?thesis using assms by (auto simp: run_made_def)
  next
    case good
    then have "finish_layer (logged ex) st s3 = (r, s')" using assms(1) by simp
    from finish_layer_made[OF this] show ?thesis
      using log good by (auto simp: run_made_def split: result.splits build_error.splits)
  qed
qed

text \<open>
  C11. A command of a build is run inside its mounts and makes a layer only if it succeeds.
  Whatever the executor answers, the calls made to it are: the mounts set up in order, the
  command, the mounts torn down in reverse order, the snapshot and the flattening.  The
  snapshot is taken only after the command has exited with code 0, so the instruction succeeds
  only then; an exit code other than 0 is the one the error reports.  The calls stop at the
  first that fails, except that the mounts are torn down as well when the command cannot be
  run or exits with an error, and then there is no snapshot.  When a mount cannot be set up,
  those before it stay.
\<close>

theorem run_calls_exact:
  assumes "build_run_command run (ss_vars st) (ss_shell st) = Ok cmd"
    "resolve_mounts (run_mounts run) (ss_vars st) = Ok ms"
    "process_run (logged ex) run st s = (r, s')"
  shows "\<exists>made. snd s' = snd s @ made \<and>
    run_made ms (ExecCall cmd (env_list st) (ss_working_dir st)) r made"
proof -
  let ?c = "ExecCall cmd (env_list st) (ss_working_dir st)"
  obtain r1 s1 where 1: "setup_mounts (logged ex) ms s = (r1, s1)" by (meson surj_pair)
  note su = setup_mounts_calls[of ms s ex, unfolded 1]
  show ?thesis
  proof (cases r1)
    case (Err e)
    then have "r = Err e" "s' = s1" using assms 1 by (simp_all add: process_run_def)
    moreover obtain f k where "e = MountSetup f" "k < length ms" "snd s1 = snd s @ map SetupCall (take (k + 1) ms)"
      using su Err calls_Err[of SetupCall ms s e s1] by auto
    ultimately show ?thesis by (auto simp: run_made_def)
  next
    case (Ok u)
    have log1: "snd s1 = snd s @ map SetupCall ms" using su Ok calls_Ok by fastforce
    obtain r2 s2 where 2: "ex_exec (logged ex) cmd (env_list st) (ss_working_dir st) s1 = (r2, s2)" by (meson surj_pair)
    have log2: "snd s2 = snd s1 @ [?c (exit_code_of r2)]" using 2 by (auto simp: logged_def noting_eq)
    obtain r3 s3 where 3: "teardown_mounts (logged ex) (rev ms) s2 = (r3, s3)" by (meson surj_pair)
    note teardown = teardown_mounts_calls[of "rev ms" s2 ex, unfolded 3]
    show ?thesis
    proof (cases r3)
      case (Err e)
      then have "r = Err e" "s' = s3" using assms 1 Ok 2 3 by (simp_all add: process_run_def)
      moreover obtain f k where "e = MountTeardown f" "k < length ms"
        "snd s3 = snd s2 @ map TeardownCall (take (k + 1) (rev ms))"
        using teardown Err calls_Err[of TeardownCall "rev ms" s2 e s3] by auto
      ultimately show ?thesis using log1 log2 by (auto simp: run_made_def)
    next
      case r3: (Ok u')
      have log3: "snd s3 = snd s @ map SetupCall ms @ [?c (exit_code_of r2)] @ map TeardownCall (rev ms)"
        using teardown r3 calls_Ok[of "map TeardownCall (rev ms)" s2 u' s3] log1 log2 by simp
      show ?thesis
        by (rule command_outcome_made[where exec_result = r2 and c = ?c, OF _ log3]) (use assms 1 Ok 2 3 r3 in \<open>simp add: process_run_def\<close>)
    qed
  qed
qed

definition demo_executor :: "int \<Rightarrow> (unit, string) build_executor" where
  "demo_executor code = \<lparr>
     ex_overlay_init = \<lambda>l x. (Ok (), x), ex_exec = \<lambda>cmd env dir x. (Ok (code, [], []), x),
     ex_snapshot_layer = \<lambda>x. (Ok \<lparr> ls_data = [], ls_compressed_digest = [], ls_uncompressed_digest = [], ls_compressed_size = 0 \<rparr>, x),
     ex_flatten_overlay = \<lambda>x. (Ok (), x), ex_copy_to_guest = \<lambda>srcs dest x. (Ok (), x),
     ex_setup_mount = \<lambda>m x. (Ok (), x), ex_teardown_mount = \<lambda>m x. (Ok (), x) \<rparr>"

definition demo_run :: run_instr where
  "demo_run = \<lparr> run_command = ExecForm [''true''], run_mounts = [mount_default\<lparr>mf_target := ''/c''\<rparr>], run_network = None \<rparr>"

theorem run_calls_exact_witness:
  "\<exists>m s'. process_run (logged (demo_executor 1)) demo_run (stage_state_new (demo_build [] None)) ((), []) = (Err (RunExit 1), s') \<and>
     snd s' = [SetupCall m, ExecCall [''true''] [] ''/'' (Some 1), TeardownCall m]"
proof -
  let ?st = "stage_state_new (demo_build [] None)"
  let ?m = "\<lparr> rm_type = Bind, rm_target = ''/c'', rm_source = None, rm_read_only = False, rm_id = None \<rparr>"
  have 1: "build_run_command demo_run (ss_vars ?st) (ss_shell ?st) = Ok [''true'']" by code_simp
  have 2: "resolve_mounts (run_mounts demo_run) (ss_vars ?st) = Ok [?m]" by code_simp
  have "fst (process_run (logged (demo_executor 1)) demo_run ?st ((), [])) = Err (RunExit 1)"
    unfolding process_run_def 1 2 by (simp add: logged_def demo_executor_def noting_eq)
  then obtain s' where 3: "process_run (logged (demo_executor 1)) demo_run ?st ((), []) = (Err (RunExit 1), s')"
    by (metis prod.collapse)
  have "env_list ?st = []" "ss_working_dir ?st = ''/''" by (simp_all add: stage_state_new_def env_list_def)
  then show ?thesis using run_calls_exact[OF 1 2 3] 3 by (auto simp: run_made_def)
qed

section \<open>The result of a build\<close>

definition makes_layer :: "build_instruction \<Rightarrow> bool" where
  "makes_layer instr = (case instr of Run _ \<Rightarrow> True | Copy _ \<Rightarrow> True | Add _ \<Rightarrow> True | _ \<Rightarrow> False)"

definition absolute :: "string \<Rightarrow> bool" where
  "absolute path \<longleftrightarrow> path \<noteq> [] \<and> hd path = CHR ''/''"

text \<open>
  A well typed state of a stage, after some of its instructions: an absolute working directory,
  which is the one recorded for the image, and one layer with content per instruction that
  changes the file system.
\<close>

definition stage_typed :: "build_instruction list \<Rightarrow> stage_state \<Rightarrow> bool" where
  "stage_typed instrs st \<longleftrightarrow> absolute (ss_working_dir st) \<and>
    (\<forall>d. im_working_dir (ss_metadata st) = Some d \<longrightarrow> d = ss_working_dir st) \<and>
    length (ss_layers st) = length (filter makes_layer instrs) \<and> list_all (\<lambda>l. \<not> bl_empty l) (ss_layers st)"

definition steps_numbered :: "nat \<Rightarrow> build_step list \<Rightarrow> bool" where
  "steps_numbered tot steps \<longleftrightarrow> map bs_number steps = [1..<length steps + 1] \<and>
    list_all (\<lambda>s. bs_total s = tot \<and> \<not> bs_cached s) steps"

lemma steps_numbered_snoc:
  "steps_numbered tot steps \<Longrightarrow> n = length steps \<Longrightarrow>
   steps_numbered tot (steps @ [\<lparr> bs_number = Suc n, bs_total = tot, bs_instruction = t, bs_cached = False \<rparr>])"
  by (simp add: steps_numbered_def)

lemma finish_layer_typed:
  assumes "finish_layer ex st x = (Ok st', x')"
  shows "\<exists>l. st' = st\<lparr>ss_layers := ss_layers st @ [l]\<rparr> \<and> \<not> bl_empty l"
  using assms by (auto simp: finish_layer_def snapshot_and_flatten_def Let_def split: prod.splits result.splits)

lemma process_run_typed:
  assumes "process_run ex run st x = (Ok st', x')"
  shows "\<exists>y. finish_layer ex st y = (Ok st', x')"
  using assms by (auto simp: process_run_def split: prod.splits result.splits if_splits)

lemma process_copy_typed:
  assumes "process_copy ex copy st x = (Ok st', x')"
  shows "\<exists>y. finish_layer ex st y = (Ok st', x')"
  using assms by (auto simp: process_copy_def Let_def split: prod.splits result.splits)

lemma process_add_typed:
  assumes "process_add ex add st x = (Ok st', x')"
  shows "\<exists>y. finish_layer ex st y = (Ok st', x')"
  using assms by (auto simp: process_add_def split: prod.splits result.splits)

lemma apply_env_typed:
  "apply_env ps st = Ok st' \<Longrightarrow> ss_working_dir st' = ss_working_dir st \<and> ss_layers st' = ss_layers st \<and>
     im_working_dir (ss_metadata st') = im_working_dir (ss_metadata st)"
  by (induction ps arbitrary: st) (auto split: result.splits)

lemma apply_workdir_typed:
  assumes "apply_workdir wd st = Ok st'" "absolute (ss_working_dir st)"
  shows "absolute (ss_working_dir st') \<and> im_working_dir (ss_metadata st') = Some (ss_working_dir st') \<and>
     ss_layers st' = ss_layers st"
  using assms by (auto simp: apply_workdir_def absolute_def Let_def split: result.splits if_splits)

lemma process_instruction_typed:
  assumes "process_instruction ex config instr st x = (Ok st', x')" "stage_typed instrs st"
  shows "stage_typed (instrs @ [instr]) st'"
proof -
  have layer: ?thesis if "makes_layer instr" "\<exists>y. finish_layer ex st y = (Ok st', x')"
    using that finish_layer_typed[of ex st _ st' x'] assms(2) by (fastforce simp: stage_typed_def)
  have same: ?thesis if "\<not> makes_layer instr" "ss_working_dir st' = ss_working_dir st" "ss_layers st' = ss_layers st"
    "im_working_dir (ss_metadata st') = im_working_dir (ss_metadata st)"
    using that assms(2) by (simp add: stage_typed_def)
  show ?thesis
  proof (cases instr)
    case (Run r) then show ?thesis using assms(1) process_run_typed
      by (intro layer) (auto simp: makes_layer_def process_instruction_def)
  next
    case (Copy c) then show ?thesis using assms(1) process_copy_typed
      by (intro layer) (auto simp: makes_layer_def process_instruction_def)
  next
    case (Add a) then show ?thesis using assms(1) process_add_typed
      by (intro layer) (auto simp: makes_layer_def process_instruction_def)
  next
    case (Env vars)
    then have "apply_env vars st = Ok st'"
      using assms(1) by (auto simp: process_instruction_def lift_subst_def split: result.splits)
    then show ?thesis using Env apply_env_typed by (intro same) (auto simp: makes_layer_def)
  next
    case (Workdir w)
    then have "apply_workdir w st = Ok st'"
      using assms(1) by (auto simp: process_instruction_def lift_subst_def split: result.splits)
    then show ?thesis using Workdir apply_workdir_typed[of w st st'] assms(2)
      by (auto simp: stage_typed_def makes_layer_def)
  qed (use assms in \<open>auto simp: stage_typed_def makes_layer_def process_instruction_def on_metadata_def
      apply_arg_def apply_user_def apply_cmd_def apply_entrypoint_def apply_expose_def apply_label_def
      apply_shell_def apply_stopsignal_def apply_volume_def Let_def\<close>)
qed

lemma run_instructions_typed:
  assumes "run_instructions ex config tot instrs n steps st x = (Ok (n', steps', st'), x')"
    "stage_typed before st" "steps_numbered tot steps" "n = length steps"
  shows "stage_typed (before @ instrs) st' \<and> steps_numbered tot steps' \<and> n' = length steps' \<and>
    length steps' = length steps + length instrs"
  using assms
proof (induction instrs arbitrary: before n steps st x)
  case Nil
  then show ?case by auto
next
  case (Cons instr instrs)
  obtain st1 x1 where 1: "process_instruction ex config instr st x = (Ok st1, x1)"
    using Cons.prems(1) by (auto simp: Let_def split: prod.splits result.splits)
  let ?steps = "steps @ [\<lparr> bs_number = Suc n, bs_total = tot, bs_instruction = format_instruction instr, bs_cached = False \<rparr>]"
  have "run_instructions ex config tot instrs (Suc n) ?steps st1 x1 = (Ok (n', steps', st'), x')"
    using Cons.prems(1) 1 by (simp add: Let_def)
  from Cons.IH[OF this process_instruction_typed[OF 1 Cons.prems(2)] steps_numbered_snoc[OF Cons.prems(3,4)]]
  show ?case using Cons.prems(4) by simp
qed

lemma stage_state_new_typed: "stage_typed [] (stage_state_new config)"
  by (simp add: stage_typed_def stage_state_new_def absolute_def metadata_default_def)

text \<open>What a run of the stages appends: the states of the stages and their steps.\<close>

lemma build_stages_typed:
  fixes config :: build_config
  defines "stages \<equiv> df_stages (bc_dockerfile config)"
  assumes "build_stages ex config globals tot final is n steps completed base x = (Ok (steps', completed', base'), x')"
    "steps_numbered tot steps" "n = length steps" "distinct is"
  shows "steps_numbered tot steps' \<and>
    length steps' = length steps + sum_list (map (\<lambda>i. 1 + length (st_instructions (stages ! i))) is) \<and>
    (\<exists>sts. completed' = completed @ sts \<and> list_all2 (\<lambda>i. stage_typed (st_instructions (stages ! i))) is sts) \<and>
    (if final \<in> set is
     then \<exists>img. substitute_vars globals (from_image (st_from (stages ! final))) = Ok img \<and>
            base' = (if resolve_stage_ref img stages = None then Some img else base)
     else base' = base)"
  using assms(2-)
proof (induction "is" arbitrary: n steps completed base x)
  case Nil
  then show ?case by simp
next
  case (Cons i "is")
  let ?from = "st_from (stages ! i)" and ?instrs = "st_instructions (stages ! i)"
  obtain img where img: "substitute_vars globals (from_image ?from) = Ok img"
    using Cons.prems(1) by (auto simp: Let_def stages_def split: result.splits)
  let ?base = "if i = final \<and> resolve_stage_ref img stages = None then Some img else base"
  let ?steps = "steps @ [\<lparr> bs_number = Suc n, bs_total = tot, bs_instruction = format_from img (from_alias ?from), bs_cached = False \<rparr>]"
  obtain y n2 steps2 st x2 where
    run: "run_instructions ex config tot ?instrs (Suc n) ?steps (stage_state_new config) y = (Ok (n2, steps2, st), x2)" and
    rest: "build_stages ex config globals tot final is n2 steps2 (completed @ [st]) ?base x2 = (Ok (steps', completed', base'), x')"
    using Cons.prems(1) img by (auto simp: Let_def stages_def split: prod.splits result.splits)
  have st: "stage_typed ?instrs st" "steps_numbered tot steps2" "n2 = length steps2"
    "length steps2 = length steps + 1 + length ?instrs"
    using run_instructions_typed[OF run stage_state_new_typed steps_numbered_snoc[OF Cons.prems(2,3)]] Cons.prems(3)
    by simp_all
  have ih: "steps_numbered tot steps' \<and>
    length steps' = length steps2 + sum_list (map (\<lambda>i. 1 + length (st_instructions (stages ! i))) is) \<and>
    (\<exists>sts. completed' = (completed @ [st]) @ sts \<and> list_all2 (\<lambda>i. stage_typed (st_instructions (stages ! i))) is sts) \<and>
    (if final \<in> set is
     then \<exists>img. substitute_vars globals (from_image (st_from (stages ! final))) = Ok img \<and>
            base' = (if resolve_stage_ref img stages = None then Some img else ?base)
     else base' = ?base)"
    by (rule Cons.IH[OF rest st(2,3)]) (use Cons.prems(4) in simp)
  then obtain sts where "completed' = (completed @ [st]) @ sts"
    "list_all2 (\<lambda>i. stage_typed (st_instructions (stages ! i))) is sts" by blast
  then have "completed' = completed @ st # sts"
    "list_all2 (\<lambda>i. stage_typed (st_instructions (stages ! i))) (i # is) (st # sts)" using st(1) by simp_all
  moreover have "if final \<in> set (i # is)
     then \<exists>img. substitute_vars globals (from_image (st_from (stages ! final))) = Ok img \<and>
            base' = (if resolve_stage_ref img stages = None then Some img else base)
     else base' = base"
    using ih img Cons.prems(4) by (auto split: if_splits)
  ultimately show ?case using ih st(4) by auto
qed

lemma resolve_needed_stages_shape:
  "\<exists>r. resolve_needed_stages config = Some r \<and> (\<forall>needed. r = Ok needed \<longrightarrow> distinct needed)"
proof (cases "bc_target config")
  case None
  then show ?thesis by (simp add: resolve_needed_stages_def)
next
  case (Some target)
  let ?stages = "df_stages (bc_dockerfile config)"
  show ?thesis
  proof (cases "stage_position ?stages target")
    case None
    then show ?thesis using Some by (simp add: resolve_needed_stages_def)
  next
    case pos: (Some t)
    obtain res where "needed_loop ?stages [] [t] = Some res" "distinct res"
      using needed_loop_exact[of "[t]" ?stages "[]" t] stage_position_bound[OF pos] by auto
    then show ?thesis using Some pos by (simp add: resolve_needed_stages_def)
  qed
qed

text \<open>
  C10. A build always comes to an end, and what it returns describes its last stage.  There is
  one step for each FROM line and each instruction of the stages that are built, numbered from
  one to their number, which is the total every step reports.  The layers are those of the last
  stage alone, one for each of its instructions that changes the file system and none marked as
  empty; the layers of the stages before it are not among them.  A working directory recorded
  for the image is absolute.  The base image is the one the last stage names after its variables
  are replaced; when that is the name of a stage there is no base image at all, so the layers
  under such a stage are neither in the result nor named by it.
\<close>

theorem build_result_wellformed:
  fixes config :: build_config and ex :: "('x, 'e) build_executor"
  defines "stages \<equiv> df_stages (bc_dockerfile config)"
  shows "\<exists>r x'. build ex config x = Some (r, x') \<and>
    (\<forall>res. r = Ok res \<longrightarrow>
      (\<exists>needed img. resolve_needed_stages config = Some (Ok needed) \<and> needed \<noteq> [] \<and>
         steps_numbered (length (br_steps res)) (br_steps res) \<and>
         length (br_steps res) = sum_list (map (\<lambda>i. 1 + length (st_instructions (stages ! i))) needed) \<and>
         length (br_layers res) = length (filter makes_layer (st_instructions (stages ! last needed))) \<and>
         list_all (\<lambda>l. \<not> bl_empty l) (br_layers res) \<and>
         (\<forall>d. im_working_dir (br_config res) = Some d \<longrightarrow> absolute d) \<and>
         substitute_vars (resolve_global_args config) (from_image (st_from (stages ! last needed))) = Ok img \<and>
         br_base_image res = (if resolve_stage_ref img stages = None then Some img else None)))"
proof -
  obtain nr where nr: "resolve_needed_stages config = Some nr" "\<And>needed. nr = Ok needed \<Longrightarrow> distinct needed"
    using resolve_needed_stages_shape by blast
  consider (bad) target where "nr = Err target" | (none) "nr = Ok []"
    | (some) needed where "nr = Ok needed" "needed \<noteq> []" "distinct needed"
    using nr(2) by (cases nr) auto
  then show ?thesis
  proof cases
    case bad then show ?thesis using nr(1) by (simp add: build_def)
  next
    case none then show ?thesis using nr(1) by (simp add: build_def)
  next
    case (some needed)
    let ?tot = "count_steps config needed"
    obtain r x' where stgs: "build_stages ex config (resolve_global_args config) ?tot (last needed) needed 0 [] [] None x = (r, x')"
      by (meson surj_pair)
    show ?thesis
    proof (cases r)
      case (Err e) then show ?thesis using nr(1) some stgs by (simp add: build_def)
    next
      case (Ok p)
      obtain steps completed base where p: "p = (steps, completed, base)" using prod_cases3 by blast
      have fin: "last needed \<in> set needed" using some(2) by simp
      have typed: "steps_numbered ?tot steps"
        "length steps = sum_list (map (\<lambda>i. 1 + length (st_instructions (stages ! i))) needed)"
        "list_all2 (\<lambda>i. stage_typed (st_instructions (stages ! i))) needed completed"
        "\<exists>img. substitute_vars (resolve_global_args config) (from_image (st_from (stages ! last needed))) = Ok img \<and>
            base = (if resolve_stage_ref img stages = None then Some img else None)"
        using build_stages_typed[OF stgs[unfolded Ok p], folded stages_def] some(3) fin
        by (auto simp: steps_numbered_def)
      have "stage_typed (st_instructions (stages ! last needed)) (last completed)"
        using typed(3) some(2) list_all2_conv_all_nth[of _ needed completed]
        by (metis last_conv_nth length_0_conv list_all2_lengthD diff_less length_greater_0_conv zero_less_one)
      moreover have "?tot = length steps" using typed(2) by (simp add: count_steps_def stages_def)
      ultimately show ?thesis using nr(1) some stgs Ok p typed(1,2,4)
        by (auto simp: build_def stage_typed_def)
    qed
  qed
qed

text \<open>A witness: a stage that changes its directory and copies a file, and a stage on top of it.\<close>

theorem build_result_wellformed_witness:
  "\<exists>res x'. build (demo_executor 0) (demo_build
       [demo_stage ''alpine'' ''base'' [], demo_stage ''base'' ''app'' [Workdir ''srv'', Copy (demo_copy None ''x'')]] None) ()
     = Some (Ok res, x') \<and> length (br_layers res) = 1 \<and> br_base_image res = None \<and>
     steps_numbered 4 (br_steps res) \<and> im_working_dir (br_config res) = Some ''/srv''"
proof -
  let ?stages = "[demo_stage ''alpine'' ''base'' [], demo_stage ''base'' ''app'' [Workdir ''srv'', Copy (demo_copy None ''x'')]]"
  let ?c = "demo_build ?stages None"
  have "(case build (demo_executor 0) ?c () of Some (Ok res, _) \<Rightarrow>
      im_working_dir (br_config res) = Some ''/srv'' \<and> length (br_steps res) = 4 | _ \<Rightarrow> False)" by code_simp
  then obtain res x' where b: "build (demo_executor 0) ?c () = Some (Ok res, x')"
    "im_working_dir (br_config res) = Some ''/srv''" "length (br_steps res) = 4"
    by (auto split: option.splits prod.splits result.splits)
  have needed: "resolve_needed_stages ?c = Some (Ok [0, 1])" by code_simp
  have stages: "df_stages (bc_dockerfile ?c) = ?stages" by (simp add: demo_build_def)
  obtain img where res: "steps_numbered (length (br_steps res)) (br_steps res)"
    "length (br_layers res) = length (filter makes_layer (st_instructions (?stages ! 1)))"
    "substitute_vars (resolve_global_args ?c) (from_image (st_from (?stages ! 1))) = Ok img"
    "br_base_image res = (if resolve_stage_ref img ?stages = None then Some img else None)"
    using build_result_wellformed[of "demo_executor 0" ?c "()"] b(1) needed unfolding stages by auto
  have "substitute_vars (resolve_global_args ?c) (from_image (st_from (?stages ! 1))) = Ok ''base''" by code_simp
  moreover have "resolve_stage_ref ''base'' ?stages = Some 0" by code_simp
  ultimately show ?thesis using b res by (auto simp: demo_stage_def makes_layer_def)
qed

end
