(* ===== verification/Shared_Ring.thy ===== *)
theory Shared_Ring
  imports Visor_Prelude
begin

text \<open>
  The packet ring in shared memory, \<^verbatim>\<open>src/crates/visor-vmm/src/net/shared_ring.rs\<close>: one
  producer and one consumer, two byte indices that only grow, and packets stored with their
  length, padded to eight bytes.  \<open>try_send\<close> and \<open>try_recv\<close> are the functions as they run alone;
  \<open>producer_step\<close> and \<open>consumer_step\<close> split them at their accesses to shared memory, so that the
  two sides can be interleaved.  Each access is one step, in an order both sides agree on: the
  indices are atomics with acquire and release ordering, and the payload accesses of the two
  sides are shown never to overlap.

  Indices are 64-bit words.  A position in the data area is a natural number below the capacity,
  and the sum of a position and an entry's size does not wrap, since a mapping is shorter than
  \<open>isize::MAX\<close>.
\<close>

unbundle bit_operations_syntax

section \<open>The ring\<close>

datatype ring_error = TooSmall nat nat

record ring_memory =
  rm_write_idx :: u64
  rm_read_idx :: u64
  rm_capacity :: u64
  rm_data :: "u8 list"

definition HEADER_SIZE :: u64 where "HEADER_SIZE = 192"
definition MIN_CAPACITY :: u64 where "MIN_CAPACITY = 64 * 1024"
definition MAX_PACKET_SIZE :: nat where "MAX_PACKET_SIZE = 9014"
definition ENTRY_HEADER :: nat where "ENTRY_HEADER = 4"
definition ENTRY_ALIGN :: u64 where "ENTRY_ALIGN = 8"
definition SKIP_MARKER :: u32 where "SKIP_MARKER = 0xFFFFFFFF"

definition align_up :: "u64 \<Rightarrow> u64 \<Rightarrow> u64" where
  "align_up v a = (v + a - 1) AND NOT (a - 1)"

definition entry_size :: "nat \<Rightarrow> nat" where
  "entry_size len = unat (align_up (of_nat (ENTRY_HEADER + len)) ENTRY_ALIGN)"

definition ring_pos :: "u64 \<Rightarrow> u64 \<Rightarrow> nat" where
  "ring_pos cap idx = unat (idx mod cap)"

definition producer_from_raw :: "u64 \<Rightarrow> ring_memory \<Rightarrow> (ring_memory \<times> u64, ring_error) result" where
  "producer_from_raw cap m =
    (if cap < MIN_CAPACITY then Err (TooSmall (unat cap) (unat MIN_CAPACITY))
     else Ok (m\<lparr>rm_capacity := cap, rm_write_idx := 0, rm_read_idx := 0\<rparr>, cap))"

definition consumer_from_raw :: "u64 \<Rightarrow> ring_memory \<Rightarrow> (u64, ring_error) result" where
  "consumer_from_raw cap m =
    (if cap < MIN_CAPACITY then Err (TooSmall (unat cap) (unat MIN_CAPACITY)) else Ok cap)"

definition create_pair :: "u64 \<Rightarrow> ring_memory \<Rightarrow> (ring_memory \<times> u64 \<times> u64, ring_error) result" where
  "create_pair shm_size m =
    (let cap = shm_size - HEADER_SIZE in
     case producer_from_raw cap m of
       Err e \<Rightarrow> Err e
     | Ok (m', p) \<Rightarrow> (case consumer_from_raw cap m' of Err e \<Rightarrow> Err e | Ok c \<Rightarrow> Ok (m', p, c)))"

definition write_len :: "u64 \<Rightarrow> u64 \<Rightarrow> u32 \<Rightarrow> ring_memory \<Rightarrow> ring_memory" where
  "write_len cap idx len m = m\<lparr>rm_data := splice_at (ring_pos cap idx) (le_bytes 4 len) (rm_data m)\<rparr>"

definition write_payload :: "u64 \<Rightarrow> u64 \<Rightarrow> u8 list \<Rightarrow> ring_memory \<Rightarrow> ring_memory" where
  "write_payload cap idx packet m =
    m\<lparr>rm_data := splice_at (ring_pos cap idx + ENTRY_HEADER) packet (rm_data m)\<rparr>"

definition write_entry :: "u64 \<Rightarrow> u64 \<Rightarrow> u8 list \<Rightarrow> ring_memory \<Rightarrow> ring_memory" where
  "write_entry cap idx packet m =
    write_payload cap idx packet (write_len cap idx (of_nat (length packet)) m)"

definition write_skip_marker :: "u64 \<Rightarrow> u64 \<Rightarrow> ring_memory \<Rightarrow> ring_memory" where
  "write_skip_marker cap idx m = write_len cap idx SKIP_MARKER m"

definition available_space :: "u64 \<Rightarrow> ring_memory \<Rightarrow> u64" where
  "available_space cap m = cap - (rm_write_idx m - rm_read_idx m)"

definition try_send :: "u64 \<Rightarrow> u8 list \<Rightarrow> ring_memory \<Rightarrow> bool \<times> ring_memory" where
  "try_send cap packet m =
    (if length packet > MAX_PACKET_SIZE then (False, m)
     else
       let es = entry_size (length packet);
           write_idx = rm_write_idx m;
           read_idx = rm_read_idx m;
           write_pos = ring_pos cap write_idx;
           available = cap - (write_idx - read_idx)
       in if write_pos + es \<le> unat cap
          then (if es \<le> unat available
                then (True, (write_entry cap write_idx packet m)\<lparr>rm_write_idx := write_idx + of_nat es\<rparr>)
                else (False, m))
          else
            let gap = unat cap - write_pos in
            if gap + es \<le> unat available
            then let new_write_idx = write_idx + of_nat gap in
                 (True, (write_entry cap new_write_idx packet (write_skip_marker cap write_idx m))
                          \<lparr>rm_write_idx := new_write_idx + of_nat es\<rparr>)
            else (False, m))"

definition read_len :: "u64 \<Rightarrow> u64 \<Rightarrow> ring_memory \<Rightarrow> u32" where
  "read_len cap idx m = le_word (slice (ring_pos cap idx) 4 (rm_data m))"

definition read_payload :: "u64 \<Rightarrow> u64 \<Rightarrow> nat \<Rightarrow> ring_memory \<Rightarrow> u8 list" where
  "read_payload cap idx len m = slice (ring_pos cap idx + ENTRY_HEADER) len (rm_data m)"

text \<open>A received packet is what the function leaves at the start of the caller's buffer.\<close>

partial_function (option) try_recv :: "u64 \<Rightarrow> nat \<Rightarrow> ring_memory \<Rightarrow> (u8 list option \<times> ring_memory) option" where
  "try_recv cap buf_len m =
    (let read_idx = rm_read_idx m in
     if rm_write_idx m \<le> read_idx then Some (None, m)
     else
       let len = read_len cap read_idx m in
       if len = SKIP_MARKER
       then try_recv cap buf_len
              (m\<lparr>rm_read_idx := read_idx + of_nat (unat cap - ring_pos cap read_idx)\<rparr>)
       else if unat len > buf_len then Some (None, m)
       else Some (Some (read_payload cap read_idx (unat len) m),
                  m\<lparr>rm_read_idx := read_idx + of_nat (entry_size (unat len))\<rparr>))"

definition has_data :: "ring_memory \<Rightarrow> bool" where
  "has_data m \<longleftrightarrow> rm_read_idx m < rm_write_idx m"

section \<open>The two sides, access by access\<close>

datatype producer =
    PDone bool
  | PLoadWrite "u8 list"
  | PLoadRead "u8 list" u64
  | PWriteSkip "u8 list" u64
  | PWriteLen "u8 list" u64
  | PWritePayload "u8 list" u64
  | PStore "u8 list" u64

definition send_start :: "u8 list \<Rightarrow> producer" where
  "send_start packet = (if length packet > MAX_PACKET_SIZE then PDone False else PLoadWrite packet)"

fun producer_step :: "u64 \<Rightarrow> producer \<Rightarrow> ring_memory \<Rightarrow> producer \<times> ring_memory" where
  "producer_step cap (PDone r) m = (PDone r, m)"
| "producer_step cap (PLoadWrite packet) m = (PLoadRead packet (rm_write_idx m), m)"
| "producer_step cap (PLoadRead packet write_idx) m =
    (let es = entry_size (length packet);
         write_pos = ring_pos cap write_idx;
         available = cap - (write_idx - rm_read_idx m)
     in (if write_pos + es \<le> unat cap
         then (if es \<le> unat available then PWriteLen packet write_idx else PDone False)
         else if unat cap - write_pos + es \<le> unat available then PWriteSkip packet write_idx else PDone False, m))"
| "producer_step cap (PWriteSkip packet write_idx) m =
    (PWriteLen packet (write_idx + of_nat (unat cap - ring_pos cap write_idx)), write_skip_marker cap write_idx m)"
| "producer_step cap (PWriteLen packet idx) m =
    (PWritePayload packet idx, write_len cap idx (of_nat (length packet)) m)"
| "producer_step cap (PWritePayload packet idx) m = (PStore packet idx, write_payload cap idx packet m)"
| "producer_step cap (PStore packet idx) m =
    (PDone True, m\<lparr>rm_write_idx := idx + of_nat (entry_size (length packet))\<rparr>)"

datatype consumer =
    CDone "u8 list option"
  | CLoadRead nat
  | CLoadWrite nat u64
  | CReadLen nat u64
  | CSkip nat u64
  | CCopy nat u64 u32
  | CStore nat u64 nat "u8 list"

fun consumer_step :: "u64 \<Rightarrow> consumer \<Rightarrow> ring_memory \<Rightarrow> consumer \<times> ring_memory" where
  "consumer_step cap (CDone r) m = (CDone r, m)"
| "consumer_step cap (CLoadRead n) m = (CLoadWrite n (rm_read_idx m), m)"
| "consumer_step cap (CLoadWrite n read_idx) m =
    (if rm_write_idx m \<le> read_idx then CDone None else CReadLen n read_idx, m)"
| "consumer_step cap (CReadLen n read_idx) m =
    (let len = read_len cap read_idx m in
     (if len = SKIP_MARKER then CSkip n read_idx
      else if unat len > n then CDone None else CCopy n read_idx len, m))"
| "consumer_step cap (CSkip n read_idx) m =
    (CLoadRead n, m\<lparr>rm_read_idx := read_idx + of_nat (unat cap - ring_pos cap read_idx)\<rparr>)"
| "consumer_step cap (CCopy n read_idx len) m =
    (CStore n read_idx (unat len) (read_payload cap read_idx (unat len) m), m)"
| "consumer_step cap (CStore n read_idx len packet) m =
    (CDone (Some packet), m\<lparr>rm_read_idx := read_idx + of_nat (entry_size len)\<rparr>)"

text \<open>
  Both sides together, with the packets whose sending and receiving took effect: a packet is
  sent when the write index is stored, received when the read index is.
\<close>

record ring_world =
  rw_memory :: ring_memory
  rw_producer :: producer
  rw_consumer :: consumer
  rw_sent :: "u8 list list"
  rw_received :: "u8 list list"

definition now_sent :: "producer \<Rightarrow> u8 list list" where
  "now_sent p = (case p of PStore packet _ \<Rightarrow> [packet] | _ \<Rightarrow> [])"

definition now_received :: "consumer \<Rightarrow> u8 list list" where
  "now_received c = (case c of CStore _ _ _ packet \<Rightarrow> [packet] | _ \<Rightarrow> [])"

inductive ring_step :: "u64 \<Rightarrow> ring_world \<Rightarrow> ring_world \<Rightarrow> bool" for cap where
  send: "rw_producer s = PDone r \<Longrightarrow> ring_step cap s (s\<lparr>rw_producer := send_start packet\<rparr>)"
| produce: "producer_step cap (rw_producer s) (rw_memory s) = (p', m') \<Longrightarrow>
    ring_step cap s (s\<lparr>rw_producer := p', rw_memory := m', rw_sent := rw_sent s @ now_sent (rw_producer s)\<rparr>)"
| recv: "rw_consumer s = CDone r \<Longrightarrow> ring_step cap s (s\<lparr>rw_consumer := CLoadRead n\<rparr>)"
| consume: "consumer_step cap (rw_consumer s) (rw_memory s) = (c', m') \<Longrightarrow>
    ring_step cap s (s\<lparr>rw_consumer := c', rw_memory := m',
      rw_received := rw_received s @ now_received (rw_consumer s)\<rparr>)"

definition ring_start :: "ring_memory \<Rightarrow> ring_world" where
  "ring_start m = \<lparr> rw_memory = m, rw_producer = PDone True, rw_consumer = CDone None, rw_sent = [], rw_received = [] \<rparr>"

section \<open>Sizes and positions\<close>

lemma align_up_8: "align_up v 8 = push_bit 3 (drop_bit 3 (v + 7))"
proof -
  have "NOT (7 :: u64) = NOT (mask 3)" by (simp add: mask_eq_exp_minus_1)
  then have "align_up v 8 = (v + 7) AND NOT (mask 3)" by (simp add: align_up_def add.commute)
  also have "\<dots> = push_bit 3 (drop_bit 3 (v + 7))"
    by (rule bit_word_eqI) (auto simp: bit_simps)
  finally show ?thesis .
qed

lemma entry_size_eq:
  assumes "len \<le> MAX_PACKET_SIZE"
  shows "entry_size len = (len + 11) div 8 * 8"
proof -
  have small: "len + 11 < 2 ^ 64" using assms by (simp add: MAX_PACKET_SIZE_def)
  have "unat ((of_nat (4 + len) :: u64) + 7) = unat (of_nat (len + 11) :: u64)" by (simp add: ac_simps)
  also have "\<dots> = len + 11" using small by (simp add: unsigned_of_nat take_bit_nat_eq_self del: of_nat_add)
  finally have v: "unat ((of_nat (4 + len) :: u64) + 7) = len + 11" .
  have "entry_size len = take_bit 64 (push_bit 3 (drop_bit 3 (len + 11)))"
    by (simp add: entry_size_def ENTRY_HEADER_def ENTRY_ALIGN_def align_up_8 unsigned_push_bit_eq
        unsigned_drop_bit_eq v take_bit_nat_eq_self[OF small] del: of_nat_add push_bit_of_nat take_bit_push_bit)
  also have "\<dots> = (len + 11) div 8 * 8"
    using small by (simp add: push_bit_eq_mult drop_bit_eq_div take_bit_nat_eq_self_iff)
  finally show ?thesis .
qed

lemma entry_size_bounds:
  assumes "len \<le> MAX_PACKET_SIZE"
  shows "8 dvd entry_size len" "len + 4 \<le> entry_size len" "entry_size len \<le> 9024" "0 < entry_size len"
  using assms by (simp_all add: entry_size_eq MAX_PACKET_SIZE_def)

text \<open>Two ranges of absolute indices that lie within one turn of the ring do not meet in memory.\<close>

lemma ring_ranges_apart:
  fixes a c :: nat
  assumes "a + n \<le> c" "c + k \<le> a + C" "a mod C + n \<le> C" "c mod C + k \<le> C" "0 < C"
  shows "a mod C + n \<le> c mod C \<or> c mod C + k \<le> a mod C"
proof -
  have "a div C \<le> c div C" using assms(1) by (simp add: div_le_mono)
  moreover have "c div C \<le> Suc (a div C)" using div_le_mono[of c "a + C" C] assms(2,5) by (simp add: div_add_self2)
  ultimately consider "c div C = a div C" | "c div C = Suc (a div C)" by linarith
  then show ?thesis
  proof cases
    case 1
    have "a = a div C * C + a mod C" "c = c div C * C + c mod C" by simp_all
    then show ?thesis using assms(1) 1 by (metis add.assoc add_le_cancel_left)
  next
    case 2
    have "a = a div C * C + a mod C" "c = a div C * C + C + c mod C"
      using 2 div_mult_mod_eq[of a C] div_mult_mod_eq[of c C] by simp_all
    then show ?thesis using assms(2) by linarith
  qed
qed

section \<open>What the ring holds\<close>

definition skip_at :: "nat \<Rightarrow> u8 list \<Rightarrow> nat \<Rightarrow> bool" where
  "skip_at C d r \<longleftrightarrow> r mod C + 4 \<le> C \<and> slice (r mod C) 4 d = le_bytes 4 SKIP_MARKER"

definition entry_at :: "nat \<Rightarrow> u8 list \<Rightarrow> nat \<Rightarrow> u8 list \<Rightarrow> bool" where
  "entry_at C d r p \<longleftrightarrow> length p \<le> MAX_PACKET_SIZE \<and> r mod C + entry_size (length p) \<le> C \<and>
    slice (r mod C) 4 d = le_bytes 4 (of_nat (length p) :: u32) \<and> slice (r mod C + 4) (length p) d = p"

lemma entry_atD:
  assumes "entry_at C d r p"
  shows "length p \<le> MAX_PACKET_SIZE" "r mod C + entry_size (length p) \<le> C"
    "slice (r mod C) 4 d = le_bytes 4 (of_nat (length p) :: u32)" "slice (r mod C + 4) (length p) d = p"
  using assms unfolding entry_at_def by blast+

lemmas entry_atI = entry_at_def[THEN iffD2, OF conjI, OF _ conjI, OF _ _ conjI]

lemma entry_at_length: "entry_at C d r p \<Longrightarrow> unat (of_nat (length p) :: u32) = length p"
  using entry_atD(1)[of C d r p] by (simp add: MAX_PACKET_SIZE_def unsigned_of_nat take_bit_nat_eq_self)

inductive entries :: "nat \<Rightarrow> u8 list \<Rightarrow> nat \<Rightarrow> nat \<Rightarrow> u8 list list \<Rightarrow> bool" for C d where
  none: "entries C d w w []"
| entry: "entry_at C d r p \<Longrightarrow> entries C d (r + entry_size (length p)) w ps \<Longrightarrow> entries C d r w (p # ps)"
| skip: "skip_at C d r \<Longrightarrow> entries C d (r + (C - r mod C)) w (p # ps) \<Longrightarrow> entries C d r w (p # ps)"

inductive_cases entries_ConsE: "entries C d r w (p # ps)"
inductive_cases entries_NilE: "entries C d r w []"

lemma entries_le: "entries C d r w ps \<Longrightarrow> r \<le> w"
  by (induction rule: entries.induct) auto

lemma entries_empty: "entries C d r w ps \<Longrightarrow> ps = [] \<longleftrightarrow> \<not> r < w"
proof (induction rule: entries.induct)
  case (entry r p w ps)
  have "0 < entry_size (length p)" using entry_size_bounds(4)[OF entry_atD(1)[OF entry.hyps(1)]] .
  then show ?case using entries_le[OF entry.hyps(2)] by simp
next
  case (skip r w p ps)
  then show ?case by simp
qed simp

lemma entries_append: "entries C d r w ps \<Longrightarrow> entries C d w w' qs \<Longrightarrow> entries C d r w' (ps @ qs)"
  by (induction rule: entries.induct) (auto intro: entries.intros)

lemma entry_not_skip:
  assumes "entry_at C d r p"
  shows "\<not> skip_at C d r"
proof
  assume "skip_at C d r"
  then have "le_bytes 4 (of_nat (length p) :: u32) = le_bytes 4 SKIP_MARKER"
    using entry_atD(3)[OF assms] by (simp add: skip_at_def)
  then have "(le_word (le_bytes 4 (of_nat (length p) :: u32)) :: u32) = le_word (le_bytes 4 SKIP_MARKER)" by (simp only:)
  then have "unat (of_nat (length p) :: u32) = unat SKIP_MARKER" by simp
  then have "length p = unat SKIP_MARKER" using entry_at_length[OF assms] by simp
  then show False using entry_atD(1)[OF assms] by (simp add: MAX_PACKET_SIZE_def SKIP_MARKER_def)
qed

lemma entries_front:
  assumes "entries C d r w ps" "r < w"
  shows "\<exists>p ps'. ps = p # ps' \<and>
    (if skip_at C d r then entries C d (r + (C - r mod C)) w ps
     else entry_at C d r p \<and> entries C d (r + entry_size (length p)) w ps')"
  using assms by (cases rule: entries.cases) (auto dest: entry_not_skip)

lemma entry_at_unique:
  assumes "entry_at C d r p" "entry_at C d r q"
  shows "p = q"
proof -
  have "le_bytes 4 (of_nat (length p) :: u32) = le_bytes 4 (of_nat (length q) :: u32)"
    using entry_atD(3)[OF assms(1)] entry_atD(3)[OF assms(2)] by (simp only:)
  then have "(le_word (le_bytes 4 (of_nat (length p) :: u32)) :: u32) = le_word (le_bytes 4 (of_nat (length q) :: u32))"
    by (simp only:)
  then have "(of_nat (length p) :: u32) = of_nat (length q)" by simp
  then have "length p = length q" using entry_at_length[OF assms(1)] entry_at_length[OF assms(2)] by argo
  then show ?thesis using entry_atD(4)[OF assms(1)] entry_atD(4)[OF assms(2)] by argo
qed

text \<open>Writing beyond what is held, within one turn, changes nothing of it.\<close>

lemma skip_at_write:
  assumes "skip_at C d r" "r + 4 \<le> c" "c + length ys \<le> r + C" "c mod C + length ys \<le> C" "length d = C"
  shows "skip_at C (splice_at (c mod C) ys d) r"
  using assms ring_ranges_apart[of r 4 c "length ys" C]
  by (auto simp: skip_at_def slice_splice_other)

lemma entry_at_write:
  assumes "entry_at C d r p" "r + entry_size (length p) \<le> c" "c + length ys \<le> r + C"
    "c mod C + length ys \<le> C" "length d = C"
  shows "entry_at C (splice_at (c mod C) ys d) r p"
proof -
  have p: "length p \<le> MAX_PACKET_SIZE" "r mod C + entry_size (length p) \<le> C" using entry_atD[OF assms(1)] by blast+
  then have "0 < C" "length p + 4 \<le> entry_size (length p)" using entry_size_bounds[OF p(1)] by linarith+
  then have apart: "r mod C + (length p + 4) \<le> c mod C \<or> c mod C + length ys \<le> r mod C"
    and fits: "r mod C + 4 + length p \<le> C" "r mod C + 4 \<le> C"
    using ring_ranges_apart[OF assms(2,3) p(2) assms(4)] p(2) by linarith+
  have len: "slice (r mod C) 4 (splice_at (c mod C) ys d) = slice (r mod C) 4 d"
    using apart fits assms(4,5) by (intro slice_splice_other) auto
  have payload: "slice (r mod C + 4) (length p) (splice_at (c mod C) ys d) = slice (r mod C + 4) (length p) d"
    using apart fits assms(4,5) by (intro slice_splice_other) auto
  show ?thesis using assms(1) unfolding entry_at_def len payload .
qed

lemma entries_write:
  assumes "entries C d r w ps" "w \<le> c" "c + length ys \<le> r + C" "c mod C + length ys \<le> C" "length d = C" "0 < C"
  shows "entries C (splice_at (c mod C) ys d) r w ps"
  using assms
proof (induction rule: entries.induct)
  case (none w)
  then show ?case by (auto intro: entries.none)
next
  case (entry r p w ps)
  have "r + entry_size (length p) \<le> c" using entries_le[OF entry.hyps(2)] entry.prems(1) by simp
  then have "entry_at C (splice_at (c mod C) ys d) r p" using entry.prems by (intro entry_at_write[OF entry.hyps(1)])
  moreover have "entries C (splice_at (c mod C) ys d) (r + entry_size (length p)) w ps"
    using entry.prems by (intro entry.IH) linarith+
  ultimately show ?case by (rule entries.entry)
next
  case (skip r w p ps)
  have "r + (C - r mod C) \<le> c" using entries_le[OF skip.hyps(2)] skip.prems(1) by simp
  moreover have "r mod C + 4 \<le> C" using skip.hyps(1) by (simp add: skip_at_def)
  ultimately have "r + 4 \<le> c" by linarith
  then have "skip_at C (splice_at (c mod C) ys d) r" using skip.prems by (intro skip_at_write[OF skip.hyps(1)])
  moreover have "entries C (splice_at (c mod C) ys d) (r + (C - r mod C)) w (p # ps)"
    using skip.prems by (intro skip.IH) linarith+
  ultimately show ?case by (rule entries.skip)
qed

section \<open>The invariant\<close>

definition ring_ok :: "u64 \<Rightarrow> ring_memory \<Rightarrow> bool" where
  "ring_ok cap m \<longleftrightarrow> MIN_CAPACITY \<le> cap \<and> 8 dvd unat cap \<and> length (rm_data m) = unat cap \<and>
    8 dvd unat (rm_write_idx m) \<and> 8 dvd unat (rm_read_idx m) \<and>
    unat (rm_read_idx m) \<le> unat (rm_write_idx m) \<and> unat (rm_write_idx m) \<le> unat (rm_read_idx m) + unat cap"

text \<open>Room for a packet at an index: at the write index, or past a skip marker at the write index.\<close>

definition room_at :: "u64 \<Rightarrow> ring_memory \<Rightarrow> u8 list \<Rightarrow> u64 \<Rightarrow> bool" where
  "room_at cap m p i \<longleftrightarrow>
    (let C = unat cap; W = unat (rm_write_idx m); es = entry_size (length p) in
     length p \<le> MAX_PACKET_SIZE \<and> unat i mod C + es \<le> C \<and> unat i + es \<le> unat (rm_read_idx m) + C \<and>
     8 dvd unat i \<and>
     (unat i = W \<or> (unat i = W + (C - W mod C) \<and> C - W mod C < es \<and> skip_at C (rm_data m) W)))"

definition producer_inv :: "u64 \<Rightarrow> ring_memory \<Rightarrow> producer \<Rightarrow> bool" where
  "producer_inv cap m p =
    (let C = unat cap; W = unat (rm_write_idx m); R = unat (rm_read_idx m) in
     case p of
       PDone r \<Rightarrow> True
     | PLoadWrite q \<Rightarrow> length q \<le> MAX_PACKET_SIZE
     | PLoadRead q w \<Rightarrow> length q \<le> MAX_PACKET_SIZE \<and> w = rm_write_idx m
     | PWriteSkip q w \<Rightarrow> length q \<le> MAX_PACKET_SIZE \<and> w = rm_write_idx m \<and>
         C - W mod C < entry_size (length q) \<and> W + (C - W mod C) + entry_size (length q) \<le> R + C
     | PWriteLen q i \<Rightarrow> room_at cap m q i
     | PWritePayload q i \<Rightarrow> room_at cap m q i \<and>
         slice (unat i mod C) 4 (rm_data m) = le_bytes 4 (of_nat (length q) :: u32)
     | PStore q i \<Rightarrow> room_at cap m q i \<and> entry_at C (rm_data m) (unat i) q)"

definition consumer_inv :: "u64 \<Rightarrow> ring_memory \<Rightarrow> consumer \<Rightarrow> bool" where
  "consumer_inv cap m c =
    (let C = unat cap; W = unat (rm_write_idx m); R = unat (rm_read_idx m) in
     case c of
       CDone r \<Rightarrow> True
     | CLoadRead n \<Rightarrow> True
     | CLoadWrite n r \<Rightarrow> r = rm_read_idx m
     | CReadLen n r \<Rightarrow> r = rm_read_idx m \<and> R < W
     | CSkip n r \<Rightarrow> r = rm_read_idx m \<and> R < W \<and> skip_at C (rm_data m) R
     | CCopy n r len \<Rightarrow> r = rm_read_idx m \<and>
         (\<exists>p. len = of_nat (length p) \<and> entry_at C (rm_data m) R p \<and> R + entry_size (length p) \<le> W)
     | CStore n r len p \<Rightarrow> r = rm_read_idx m \<and> len = length p \<and> entry_at C (rm_data m) R p \<and> R + entry_size (length p) \<le> W)"

definition ring_inv :: "u64 \<Rightarrow> ring_world \<Rightarrow> bool" where
  "ring_inv cap s \<longleftrightarrow> ring_ok cap (rw_memory s) \<and>
    (\<exists>waiting. rw_sent s = rw_received s @ waiting \<and>
       entries (unat cap) (rm_data (rw_memory s)) (unat (rm_read_idx (rw_memory s)))
         (unat (rm_write_idx (rw_memory s))) waiting) \<and>
    unat (rm_write_idx (rw_memory s)) \<le> 18048 * length (rw_sent s) \<and>
    producer_inv cap (rw_memory s) (rw_producer s) \<and> consumer_inv cap (rw_memory s) (rw_consumer s)"

lemma data_written:
  "rm_read_idx (m\<lparr>rm_data := d\<rparr>) = rm_read_idx m" "rm_write_idx (m\<lparr>rm_data := d\<rparr>) = rm_write_idx m"
  "rm_data (m\<lparr>rm_data := d\<rparr>) = d"
  by simp_all

lemma ring_pos_eq: "ring_pos cap i = unat i mod unat cap"
  by (simp add: ring_pos_def unat_mod_word)

lemma ring_ok_capacity: "ring_ok cap m \<Longrightarrow> 65536 \<le> unat cap"
  by (simp add: ring_ok_def MIN_CAPACITY_def word_le_nat_alt)

text \<open>Positions are multiples of eight, so a length field always fits.\<close>

lemma aligned_position:
  fixes i C :: nat
  assumes "8 dvd i" "8 dvd C" "0 < C"
  shows "8 dvd i mod C" "i mod C + 8 \<le> C"
proof -
  show "8 dvd i mod C" using assms by (simp add: dvd_mod)
  then have "8 dvd C - i mod C" using assms(2) by (simp add: dvd_diff_nat)
  moreover have "i mod C < C" using assms(3) by simp
  ultimately have "8 \<le> C - i mod C" by (intro dvd_imp_le) auto
  then show "i mod C + 8 \<le> C" by linarith
qed

lemma unat_advance:
  fixes i :: u64
  assumes "unat i + k < 2 ^ 64"
  shows "unat (i + of_nat k) = unat i + k"
proof -
  have "unat (of_nat k :: u64) = k" using assms by (simp add: unsigned_of_nat take_bit_nat_eq_self)
  then show ?thesis using assms by (simp add: unat_add_lem[THEN iffD1])
qed

text \<open>The memory part of the invariant, with the packets that are waiting.\<close>

definition memory_inv :: "u64 \<Rightarrow> ring_memory \<Rightarrow> u8 list list \<Rightarrow> nat \<Rightarrow> bool" where
  "memory_inv cap m waiting n \<longleftrightarrow> ring_ok cap m \<and>
    entries (unat cap) (rm_data m) (unat (rm_read_idx m)) (unat (rm_write_idx m)) waiting \<and>
    unat (rm_write_idx m) \<le> 18048 * n"

lemma ring_inv_memory:
  "ring_inv cap s \<longleftrightarrow> (\<exists>waiting. rw_sent s = rw_received s @ waiting \<and>
     memory_inv cap (rw_memory s) waiting (length (rw_sent s))) \<and>
   producer_inv cap (rw_memory s) (rw_producer s) \<and> consumer_inv cap (rw_memory s) (rw_consumer s)"
  by (auto simp: ring_inv_def memory_inv_def)

text \<open>A write of the producer to free space changes nothing for the consumer.\<close>

lemma consumer_inv_write:
  assumes "consumer_inv cap m c" "ring_ok cap m"
    and w: "unat (rm_write_idx m) \<le> i" "i + length ys \<le> unat (rm_read_idx m) + unat cap"
      "i mod unat cap + length ys \<le> unat cap"
  shows "consumer_inv cap (m\<lparr>rm_data := splice_at (i mod unat cap) ys (rm_data m)\<rparr>) c"
proof -
  let ?R = "unat (rm_read_idx m)" and ?W = "unat (rm_write_idx m)" and ?C = "unat cap"
  let ?d = "splice_at (i mod ?C) ys (rm_data m)"
  have len: "length (rm_data m) = ?C" and al: "8 dvd ?R" "8 dvd ?W"
    using assms(2) by (simp_all add: ring_ok_def)
  have skip: "skip_at ?C ?d ?R" if "skip_at ?C (rm_data m) ?R" "?R < ?W"
  proof -
    have "8 dvd ?W - ?R" using al by (simp add: dvd_diff_nat)
    then have "8 \<le> ?W - ?R" using that(2) by (intro dvd_imp_le) auto
    then show ?thesis using w len by (intro skip_at_write[OF that(1)]) linarith+
  qed
  have entry: "entry_at ?C ?d ?R p" if "entry_at ?C (rm_data m) ?R p" "?R + entry_size (length p) \<le> ?W" for p
    using w len that(2) by (intro entry_at_write[OF that(1)]) linarith+
  show ?thesis
    using assms(1) skip entry by (cases c) (auto simp: consumer_inv_def Let_def)
qed

lemma memory_inv_write:
  assumes "memory_inv cap m waiting n"
    and w: "unat (rm_write_idx m) \<le> i" "i + length ys \<le> unat (rm_read_idx m) + unat cap"
      "i mod unat cap + length ys \<le> unat cap"
  shows "memory_inv cap (m\<lparr>rm_data := splice_at (i mod unat cap) ys (rm_data m)\<rparr>) waiting n"
proof -
  have ok: "ring_ok cap m" and len: "length (rm_data m) = unat cap"
    using assms(1) by (simp_all add: memory_inv_def ring_ok_def)
  have "0 < unat cap" using ring_ok_capacity[OF ok] by linarith
  then have "entries (unat cap) (splice_at (i mod unat cap) ys (rm_data m)) (unat (rm_read_idx m))
      (unat (rm_write_idx m)) waiting"
    using assms(1) w len by (intro entries_write) (auto simp: memory_inv_def)
  then show ?thesis using assms(1) w(3) by (simp add: memory_inv_def ring_ok_def)
qed

section \<open>The producer keeps the invariant\<close>

lemma decide_inv:
  assumes "ring_ok cap m" "length q \<le> MAX_PACKET_SIZE"
  shows "producer_inv cap m (fst (producer_step cap (PLoadRead q (rm_write_idx m)) m))"
proof -
  let ?R = "unat (rm_read_idx m)" and ?W = "unat (rm_write_idx m)" and ?C = "unat cap"
  have ok: "?R \<le> ?W" "?W \<le> ?R + ?C" "8 dvd ?W" using assms(1) by (simp_all add: ring_ok_def)
  have "unat (rm_write_idx m - rm_read_idx m) = ?W - ?R" using ok(1) by (simp add: unat_sub_if')
  moreover have "?W - ?R \<le> ?C" using ok by linarith
  ultimately have av: "unat (cap - (rm_write_idx m - rm_read_idx m)) = ?C - (?W - ?R)"
    by (simp add: unat_sub word_le_nat_alt)
  let ?es = "entry_size (length q)" and ?p = "fst (producer_step cap (PLoadRead q (rm_write_idx m)) m)"
  have p: "?p = (if ?W mod ?C + ?es \<le> ?C
      then (if ?es \<le> ?C - (?W - ?R) then PWriteLen q (rm_write_idx m) else PDone False)
      else if ?C - ?W mod ?C + ?es \<le> ?C - (?W - ?R) then PWriteSkip q (rm_write_idx m) else PDone False)"
    unfolding producer_step.simps Let_def fst_conv ring_pos_eq av ..
  have room: "room_at cap m q (rm_write_idx m)" if "?W mod ?C + ?es \<le> ?C" "?es \<le> ?C - (?W - ?R)"
  proof -
    have "?W + ?es \<le> ?R + ?C" using that(2) ok(1,2) by linarith
    then show ?thesis using that(1) ok(3) assms(2) unfolding room_at_def Let_def by blast
  qed
  have skip: "?C - ?W mod ?C < ?es \<and> ?W + (?C - ?W mod ?C) + ?es \<le> ?R + ?C"
    if "\<not> ?W mod ?C + ?es \<le> ?C" "?C - ?W mod ?C + ?es \<le> ?C - (?W - ?R)"
    using that ok(1,2) mod_less_divisor[of ?C ?W] ring_ok_capacity[OF assms(1)] by (intro conjI) linarith+
  show ?thesis unfolding p using room skip assms(2) by (simp add: producer_inv_def Let_def)
qed

lemma write_skip_inv:
  assumes "memory_inv cap m waiting n" "producer_inv cap m (PWriteSkip q w)" "18048 * (n + 1) < 2 ^ 64"
    and step: "producer_step cap (PWriteSkip q w) m = (p', m')"
  shows "memory_inv cap m' waiting n \<and> producer_inv cap m' p' \<and>
    (\<forall>c. consumer_inv cap m c \<longrightarrow> consumer_inv cap m' c)"
proof -
  let ?R = "unat (rm_read_idx m)" and ?W = "unat (rm_write_idx m)" and ?C = "unat cap"
  let ?m = "m\<lparr>rm_data := splice_at (?W mod ?C) (le_bytes 4 SKIP_MARKER) (rm_data m)\<rparr>"
  have ok: "ring_ok cap m" "8 dvd ?C" "8 dvd ?W" "length (rm_data m) = ?C" "?W \<le> 18048 * n"
    using assms(1) by (simp_all add: memory_inv_def ring_ok_def)
  have q: "length q \<le> MAX_PACKET_SIZE" "w = rm_write_idx m" "?C - ?W mod ?C < entry_size (length q)"
    "?W + (?C - ?W mod ?C) + entry_size (length q) \<le> ?R + ?C"
    using assms(2) by (simp_all add: producer_inv_def Let_def)
  have C: "0 < ?C" "65536 \<le> ?C" using ring_ok_capacity[OF ok(1)] by linarith+
  have pos: "?W mod ?C + 8 \<le> ?C" by (rule aligned_position[OF ok(3,2) C(1)])
  have es: "entry_size (length q) \<le> 9024" "8 dvd entry_size (length q)" using entry_size_bounds[OF q(1)] by blast+
  have "?W + (?C - ?W mod ?C) \<le> 18048 * (n + 1)" using ok(5) q(3) es(1) by simp
  then have "?W + (?C - ?W mod ?C) < 2 ^ 64" using assms(3) by (rule le_less_trans)
  define i where "i = w + of_nat (?C - ?W mod ?C)"
  define k where "k = ?W + (?C - ?W mod ?C)"
  have i: "unat i = k" unfolding i_def k_def q(2) by (rule unat_advance) fact
  have turn: "k mod ?C = 0"
  proof -
    have "k = ?W div ?C * ?C + ?C" unfolding k_def using pos div_mult_mod_eq[of ?W ?C] by linarith
    then show ?thesis by simp
  qed
  have w: "?W + length (le_bytes 4 SKIP_MARKER) \<le> ?R + ?C" "?W mod ?C + length (le_bytes 4 SKIP_MARKER) \<le> ?C"
    using q(4) pos by simp_all
  have m': "m' = ?m" "p' = PWriteLen q i"
    using step q(2) unfolding i_def by (simp_all add: write_skip_marker_def write_len_def ring_pos_eq)
  have "skip_at ?C (rm_data ?m) ?W" using pos ok(4) by (simp add: skip_at_def)
  moreover have "8 dvd k" unfolding k_def using ok(2,3) by (simp add: dvd_add dvd_diff_nat dvd_mod)
  moreover have "entry_size (length q) \<le> ?C" using es C by linarith
  ultimately have "room_at cap ?m q i"
    unfolding room_at_def Let_def i using q(1,3,4) turn k_def by (intro conjI disjI2) (simp_all del: Nat.add_diff_assoc)
  then have "producer_inv cap m' p'" by (simp add: m' producer_inv_def Let_def)
  then show ?thesis
    using memory_inv_write[OF assms(1) order_refl w] consumer_inv_write[OF _ ok(1) order_refl w] unfolding m' by blast
qed

lemma room_at_write:
  assumes "room_at cap m q i" "ring_ok cap m"
  shows "unat (rm_write_idx m) \<le> unat i" "unat i + 4 + length q \<le> unat (rm_read_idx m) + unat cap"
    "unat i mod unat cap + 4 + length q \<le> unat cap" "(unat i + 4) mod unat cap = unat i mod unat cap + 4"
    "length q \<le> MAX_PACKET_SIZE"
proof -
  let ?C = "unat cap"
  have q: "length q \<le> MAX_PACKET_SIZE" "unat i mod ?C + entry_size (length q) \<le> ?C"
    "unat i + entry_size (length q) \<le> unat (rm_read_idx m) + ?C" "8 dvd unat i"
    "unat i = unat (rm_write_idx m) \<or> unat i = unat (rm_write_idx m) + (?C - unat (rm_write_idx m) mod ?C)"
    using assms(1) unfolding room_at_def Let_def by blast+
  show "unat (rm_write_idx m) \<le> unat i" using q(5) by (elim disjE) (simp_all only: le_add1 order_refl)
  show "length q \<le> MAX_PACKET_SIZE" by (fact q(1))
  show "unat i + 4 + length q \<le> unat (rm_read_idx m) + ?C" "unat i mod ?C + 4 + length q \<le> ?C"
    using q(2,3) entry_size_bounds(2)[OF q(1)] by linarith+
  have "8 dvd ?C" using assms(2) unfolding ring_ok_def by blast
  moreover have "0 < ?C" using ring_ok_capacity[OF assms(2)] by linarith
  ultimately have "unat i mod ?C + 8 \<le> ?C" by (rule aligned_position(2)[OF q(4)])
  then have "unat i mod ?C + 4 < ?C" by linarith
  then show "(unat i + 4) mod ?C = unat i mod ?C + 4" using mod_add_left_eq[of "unat i" ?C 4] by simp
qed

text \<open>Writing at or after the packet's index, inside its entry, keeps the room for it.\<close>

lemma room_at_data:
  assumes "room_at cap m q i" "ring_ok cap m" "unat i \<le> k" "k + length ys \<le> unat (rm_read_idx m) + unat cap"
    "k mod unat cap + length ys \<le> unat cap"
  shows "room_at cap (m\<lparr>rm_data := splice_at (k mod unat cap) ys (rm_data m)\<rparr>) q i"
proof -
  let ?C = "unat cap" and ?W = "unat (rm_write_idx m)"
  have ok: "length (rm_data m) = ?C" "8 dvd ?C" "8 dvd ?W" "unat (rm_read_idx m) \<le> ?W" "0 < ?C"
    using assms(2) ring_ok_capacity[OF assms(2)] by (auto simp: ring_ok_def)
  have "skip_at ?C (splice_at (k mod ?C) ys (rm_data m)) ?W"
    if "unat i = ?W + (?C - ?W mod ?C)" "skip_at ?C (rm_data m) ?W"
  proof (rule skip_at_write[OF that(2)])
    show "?W + 4 \<le> k" using aligned_position(2)[OF ok(3,2,5)] that(1) assms(3) by linarith
    show "k + length ys \<le> ?W + ?C" using assms(4) ok(4) by linarith
  qed (use assms(5) ok(1) in auto)
  then show ?thesis
    using assms(1) unfolding room_at_def Let_def by (simp only: data_written) blast
qed

lemma write_len_inv:
  assumes "memory_inv cap m waiting n" "producer_inv cap m (PWriteLen q i)"
    and step: "producer_step cap (PWriteLen q i) m = (p', m')"
  shows "memory_inv cap m' waiting n \<and> producer_inv cap m' p' \<and>
    (\<forall>c. consumer_inv cap m c \<longrightarrow> consumer_inv cap m' c)"
proof -
  let ?C = "unat cap" and ?ys = "le_bytes 4 (of_nat (length q) :: u32)"
  have ok: "ring_ok cap m" "length (rm_data m) = ?C" using assms(1) by (simp_all add: memory_inv_def ring_ok_def)
  have room: "room_at cap m q i" using assms(2) by (simp add: producer_inv_def Let_def)
  note r = room_at_write[OF room ok(1)]
  have w: "unat i + length ?ys \<le> unat (rm_read_idx m) + ?C" "unat i mod ?C + length ?ys \<le> ?C"
    using r(2,3) by simp_all
  have m': "m' = m\<lparr>rm_data := splice_at (unat i mod ?C) ?ys (rm_data m)\<rparr>" "p' = PWritePayload q i"
    using step by (simp_all add: write_len_def ring_pos_eq)
  have "producer_inv cap m' p'"
    using room_at_data[OF room ok(1) order_refl w] w ok(2) by (simp add: m' producer_inv_def Let_def)
  then show ?thesis
    using memory_inv_write[OF assms(1) r(1) w] consumer_inv_write[OF _ ok(1) r(1) w] unfolding m' by blast
qed

lemma write_payload_inv:
  assumes "memory_inv cap m waiting n" "producer_inv cap m (PWritePayload q i)"
    and step: "producer_step cap (PWritePayload q i) m = (p', m')"
  shows "memory_inv cap m' waiting n \<and> producer_inv cap m' p' \<and>
    (\<forall>c. consumer_inv cap m c \<longrightarrow> consumer_inv cap m' c)"
proof -
  let ?C = "unat cap" and ?d = "splice_at ((unat i + 4) mod unat cap) q (rm_data m)"
  have ok: "ring_ok cap m" "length (rm_data m) = ?C" using assms(1) by (simp_all add: memory_inv_def ring_ok_def)
  have room: "room_at cap m q i" and len: "slice (unat i mod ?C) 4 (rm_data m) = le_bytes 4 (of_nat (length q) :: u32)"
    using assms(2) by (simp_all add: producer_inv_def Let_def)
  note r = room_at_write[OF room ok(1)]
  have w: "unat (rm_write_idx m) \<le> unat i + 4" "unat i + 4 + length q \<le> unat (rm_read_idx m) + ?C"
    "(unat i + 4) mod ?C + length q \<le> ?C" using r by simp_all
  have m': "m' = m\<lparr>rm_data := ?d\<rparr>" "p' = PStore q i"
    using step by (simp_all add: write_payload_def ring_pos_eq r(4) ENTRY_HEADER_def)
  have "slice (unat i mod ?C) 4 ?d = le_bytes 4 (of_nat (length q) :: u32)"
    using r(3) ok(2) len by (simp add: slice_splice_other r(4))
  moreover have "slice (unat i mod ?C + 4) (length q) ?d = q" using r(3) ok(2) by (simp add: r(4))
  moreover have "unat i mod ?C + entry_size (length q) \<le> ?C" using room by (simp add: room_at_def Let_def)
  ultimately have "entry_at ?C ?d (unat i) q" using r(5) by (intro entry_atI)
  then have "producer_inv cap m' p'"
    using room_at_data[OF room ok(1) _ w(2,3)] by (simp add: m' producer_inv_def Let_def)
  then show ?thesis
    using memory_inv_write[OF assms(1) w] consumer_inv_write[OF _ ok(1) w] unfolding m' by blast
qed

lemma store_inv:
  assumes "memory_inv cap m waiting n" "producer_inv cap m (PStore q i)" "18048 * (n + 1) < 2 ^ 64"
    and step: "producer_step cap (PStore q i) m = (p', m')"
  shows "memory_inv cap m' (waiting @ [q]) (n + 1) \<and> producer_inv cap m' p' \<and>
    (\<forall>c. consumer_inv cap m c \<longrightarrow> consumer_inv cap m' c)"
proof -
  let ?R = "unat (rm_read_idx m)" and ?W = "unat (rm_write_idx m)" and ?C = "unat cap" and ?es = "entry_size (length q)"
  have ok: "ring_ok cap m" "?W \<le> 18048 * n" "entries ?C (rm_data m) ?R ?W waiting"
    using assms(1) unfolding memory_inv_def by blast+
  have room: "room_at cap m q i" and entry: "entry_at ?C (rm_data m) (unat i) q"
    using assms(2) unfolding producer_inv_def Let_def producer.case by blast+
  have q: "unat i + ?es \<le> ?R + ?C" "8 dvd unat i" "length q \<le> MAX_PACKET_SIZE"
    and at: "unat i = ?W \<or> (unat i = ?W + (?C - ?W mod ?C) \<and> ?C - ?W mod ?C < ?es \<and> skip_at ?C (rm_data m) ?W)"
    using room unfolding room_at_def Let_def by blast+
  have es: "?es \<le> 9024" "8 dvd ?es" using entry_size_bounds[OF q(3)] by blast+
  have i: "unat i \<le> ?W + ?es" "?W \<le> unat i" using at by (elim disjE conjE; linarith)+
  have bound: "unat i + ?es \<le> 18048 * (n + 1)" using i(1) es(1) ok(2) by simp
  then have "unat i + ?es < 2 ^ 64" using assms(3) by (rule le_less_trans)
  then have W': "unat (i + of_nat ?es) = unat i + ?es" by (rule unat_advance)
  have m': "m' = m\<lparr>rm_write_idx := i + of_nat ?es\<rparr>" "p' = PDone True" using step by simp_all
  have one: "entries ?C (rm_data m) (unat i) (unat i + ?es) [q]" by (rule entries.entry[OF entry entries.none])
  have "entries ?C (rm_data m) ?W (unat i + ?es) [q]"
    using at
  proof
    assume "unat i = ?W" then show ?thesis using one by simp
  next
    assume a: "unat i = ?W + (?C - ?W mod ?C) \<and> ?C - ?W mod ?C < ?es \<and> skip_at ?C (rm_data m) ?W"
    show ?thesis by (rule entries.skip) (use a one in \<open>simp_all only:\<close>)
  qed
  then have "entries ?C (rm_data m) ?R (unat i + ?es) (waiting @ [q])" by (rule entries_append[OF ok(3)])
  moreover have "ring_ok cap m'"
    using ok(1) q(1,2) es(2) i(2) unfolding m' ring_ok_def by (simp add: W')
  ultimately have "memory_inv cap m' (waiting @ [q]) (n + 1)"
    using bound unfolding memory_inv_def m' by (simp add: W')
  moreover have "consumer_inv cap m' c" if "consumer_inv cap m c" for c
    using that i(2) unfolding m' consumer_inv_def Let_def by (cases c) (auto simp: W' intro: le_trans)
  ultimately show ?thesis by (simp add: m' producer_inv_def)
qed

section \<open>The consumer keeps the invariant\<close>

lemma producer_inv_read:
  assumes "producer_inv cap m p" "unat (rm_read_idx m) \<le> unat r"
  shows "producer_inv cap (m\<lparr>rm_read_idx := r\<rparr>) p"
proof -
  have "room_at cap (m\<lparr>rm_read_idx := r\<rparr>) q i" if "room_at cap m q i" for q i
    using that assms(2) unfolding room_at_def Let_def by (auto simp del: Nat.add_diff_assoc)
  then show ?thesis
    using assms unfolding producer_inv_def Let_def by (cases p) (auto simp del: Nat.add_diff_assoc)
qed

lemma read_len_skip:
  assumes "ring_ok cap m"
  shows "read_len cap (rm_read_idx m) m = SKIP_MARKER \<longleftrightarrow> skip_at (unat cap) (rm_data m) (unat (rm_read_idx m))"
proof -
  let ?pos = "unat (rm_read_idx m) mod unat cap"
  have ok: "8 dvd unat (rm_read_idx m)" "8 dvd unat cap" "length (rm_data m) = unat cap" "0 < unat cap"
    using assms ring_ok_capacity[OF assms] unfolding ring_ok_def by (blast, blast, blast, linarith)
  have pos: "?pos + 4 \<le> unat cap" using aligned_position(2)[OF ok(1,2,4)] by linarith
  have bytes: "le_bytes 4 (le_word (slice ?pos 4 (rm_data m)) :: u32) = slice ?pos 4 (rm_data m)"
    using pos ok(3) by (intro le_bytes_le_word) simp_all
  have "(le_word (slice ?pos 4 (rm_data m)) :: u32) = SKIP_MARKER \<longleftrightarrow> slice ?pos 4 (rm_data m) = le_bytes 4 SKIP_MARKER"
  proof
    assume "(le_word (slice ?pos 4 (rm_data m)) :: u32) = SKIP_MARKER"
    then show "slice ?pos 4 (rm_data m) = le_bytes 4 SKIP_MARKER" using bytes by simp
  qed simp
  then show ?thesis using pos unfolding read_len_def ring_pos_eq skip_at_def by blast
qed

lemma read_len_entry:
  assumes "entry_at (unat cap) (rm_data m) (unat (rm_read_idx m)) p"
  shows "read_len cap (rm_read_idx m) m = of_nat (length p)" "unat (read_len cap (rm_read_idx m) m) = length p"
proof -
  show 1: "read_len cap (rm_read_idx m) m = of_nat (length p)"
    unfolding read_len_def ring_pos_eq entry_atD(3)[OF assms] by simp
  show "unat (read_len cap (rm_read_idx m) m) = length p" unfolding 1 by (rule entry_at_length[OF assms])
qed

lemma read_decide_inv:
  assumes "memory_inv cap m waiting n" "consumer_inv cap m (CReadLen k r)"
  shows "consumer_inv cap m (fst (consumer_step cap (CReadLen k r) m))"
proof -
  let ?R = "unat (rm_read_idx m)" and ?W = "unat (rm_write_idx m)" and ?C = "unat cap"
  have ok: "ring_ok cap m" "entries ?C (rm_data m) ?R ?W waiting" using assms(1) unfolding memory_inv_def by blast+
  have r: "r = rm_read_idx m" "?R < ?W" using assms(2) by (simp_all add: consumer_inv_def Let_def)
  show ?thesis
  proof (cases "skip_at ?C (rm_data m) ?R")
    case True
    then show ?thesis using r read_len_skip[OF ok(1)] by (simp add: consumer_inv_def)
  next
    case False
    then obtain p ps where p: "entry_at ?C (rm_data m) ?R p" "entries ?C (rm_data m) (?R + entry_size (length p)) ?W ps"
      using entries_front[OF ok(2) r(2)] by auto
    have "read_len cap r m \<noteq> SKIP_MARKER" using False read_len_skip[OF ok(1)] r(1) by simp
    then show ?thesis
      using r p(1) entries_le[OF p(2)] read_len_entry[OF p(1)] by (auto simp: consumer_inv_def Let_def)
  qed
qed

text \<open>Moving the read index to the next entry.\<close>

lemma advance_read_inv:
  assumes "memory_inv cap m waiting n" "8 dvd k"
    and rest: "entries (unat cap) (rm_data m) (unat (rm_read_idx m) + k) (unat (rm_write_idx m)) waiting'"
  shows "memory_inv cap (m\<lparr>rm_read_idx := rm_read_idx m + of_nat k\<rparr>) waiting' n"
    "producer_inv cap m p \<Longrightarrow> producer_inv cap (m\<lparr>rm_read_idx := rm_read_idx m + of_nat k\<rparr>) p"
    "unat (rm_read_idx m + of_nat k) = unat (rm_read_idx m) + k"
proof -
  let ?R = "unat (rm_read_idx m)" and ?W = "unat (rm_write_idx m)"
  have ok: "ring_ok cap m" "?W \<le> 18048 * n" using assms(1) unfolding memory_inv_def by blast+
  have le: "?R + k \<le> ?W" by (rule entries_le[OF rest])
  moreover have "?W < 2 ^ LENGTH(64)" by (rule unsigned_less)
  ultimately have R': "unat (rm_read_idx m + of_nat k) = ?R + k" by (intro unat_advance) simp
  have "ring_ok cap (m\<lparr>rm_read_idx := rm_read_idx m + of_nat k\<rparr>)"
    using ok(1) le assms(2) unfolding ring_ok_def by (simp add: R')
  then show "memory_inv cap (m\<lparr>rm_read_idx := rm_read_idx m + of_nat k\<rparr>) waiting' n"
    using rest ok(2) unfolding memory_inv_def by (simp add: R')
  show "producer_inv cap m p \<Longrightarrow> producer_inv cap (m\<lparr>rm_read_idx := rm_read_idx m + of_nat k\<rparr>) p"
    by (erule producer_inv_read) (simp add: R')
  show "unat (rm_read_idx m + of_nat k) = unat (rm_read_idx m) + k" by (rule R')
qed

lemma skip_inv:
  assumes "memory_inv cap m waiting n" "consumer_inv cap m (CSkip b r)"
    and step: "consumer_step cap (CSkip b r) m = (c', m')"
  shows "memory_inv cap m' waiting n \<and> consumer_inv cap m' c' \<and>
    (\<forall>p. producer_inv cap m p \<longrightarrow> producer_inv cap m' p)"
proof -
  let ?R = "unat (rm_read_idx m)" and ?W = "unat (rm_write_idx m)" and ?C = "unat cap"
  define k where "k = ?C - ?R mod ?C"
  have ok: "8 dvd ?R" "8 dvd ?C" "entries ?C (rm_data m) ?R ?W waiting"
    using assms(1) unfolding memory_inv_def ring_ok_def by blast+
  have r: "r = rm_read_idx m" "?R < ?W" "skip_at ?C (rm_data m) ?R"
    using assms(2) by (simp_all add: consumer_inv_def Let_def)
  have rest: "entries ?C (rm_data m) (?R + k) ?W waiting"
    using entries_front[OF ok(3) r(2)] r(3) unfolding k_def by auto
  have k: "8 dvd k" using ok(1,2) unfolding k_def by (simp add: dvd_diff_nat dvd_mod)
  have m': "m' = m\<lparr>rm_read_idx := rm_read_idx m + of_nat k\<rparr>" "c' = CLoadRead b"
    using step r(1) unfolding k_def by (simp_all add: ring_pos_eq)
  show ?thesis
    using advance_read_inv[OF assms(1) k rest] unfolding m' by (simp add: consumer_inv_def)
qed

lemma take_inv:
  assumes "memory_inv cap m waiting n" "consumer_inv cap m (CStore b r len p)"
    and step: "consumer_step cap (CStore b r len p) m = (c', m')"
  shows "\<exists>rest. waiting = p # rest \<and> memory_inv cap m' rest n \<and> consumer_inv cap m' c' \<and>
    (\<forall>q. producer_inv cap m q \<longrightarrow> producer_inv cap m' q)"
proof -
  let ?R = "unat (rm_read_idx m)" and ?W = "unat (rm_write_idx m)" and ?C = "unat cap"
  have r: "r = rm_read_idx m" "entry_at ?C (rm_data m) ?R p" "?R + entry_size (length p) \<le> ?W" "len = length p"
    using assms(2) unfolding consumer_inv_def Let_def consumer.case by blast+
  have es: "8 dvd entry_size (length p)" "0 < entry_size (length p)" using entry_size_bounds[OF entry_atD(1)[OF r(2)]] by blast+
  have "entries ?C (rm_data m) ?R ?W waiting" using assms(1) unfolding memory_inv_def by blast
  moreover have "?R < ?W" using r(3) es(2) by linarith
  ultimately obtain p' rest where "waiting = p' # rest" "entry_at ?C (rm_data m) ?R p'"
    "entries ?C (rm_data m) (?R + entry_size (length p')) ?W rest"
    using entries_front entry_not_skip[OF r(2)] by metis
  moreover have "p' = p" by (rule entry_at_unique[OF calculation(2) r(2)])
  ultimately have rest: "waiting = p # rest" "entries ?C (rm_data m) (?R + entry_size (length p)) ?W rest" by simp_all
  have m': "m' = m\<lparr>rm_read_idx := rm_read_idx m + of_nat (entry_size (length p))\<rparr>" "c' = CDone (Some p)"
    using step r(1,4) by simp_all
  show ?thesis
    using advance_read_inv[OF assms(1) es(1) rest(2)] rest(1) unfolding m' by (simp add: consumer_inv_def)
qed

section \<open>All interleavings\<close>

lemma ring_step_inv:
  assumes "ring_step cap s t" "ring_inv cap s" "18048 * (length (rw_sent s) + 1) < 2 ^ 64"
  shows "ring_inv cap t"
  using assms(1)
proof cases
  case (send r packet)
  then show ?thesis using assms(2) by (simp add: ring_inv_def producer_inv_def send_start_def)
next
  case (recv r n)
  then show ?thesis using assms(2) by (simp add: ring_inv_def consumer_inv_def)
next
  case (produce p' m')
  obtain waiting where inv: "rw_sent s = rw_received s @ waiting" "memory_inv cap (rw_memory s) waiting (length (rw_sent s))"
    "producer_inv cap (rw_memory s) (rw_producer s)" "consumer_inv cap (rw_memory s) (rw_consumer s)"
    using assms(2) unfolding ring_inv_memory by blast
  have kept: "ring_inv cap t" if "now_sent (rw_producer s) = []"
    "memory_inv cap m' waiting (length (rw_sent s)) \<and> producer_inv cap m' p' \<and>
      (\<forall>c. consumer_inv cap (rw_memory s) c \<longrightarrow> consumer_inv cap m' c)"
    using that inv(1,4) unfolding produce(1) ring_inv_memory by simp
  show ?thesis
  proof (cases "rw_producer s")
    case (PLoadRead q w)
    have "w = rm_write_idx (rw_memory s)" "length q \<le> MAX_PACKET_SIZE" "ring_ok cap (rw_memory s)"
      using inv(2,3) PLoadRead by (simp_all add: producer_inv_def Let_def memory_inv_def)
    then show ?thesis
      using decide_inv[of cap "rw_memory s" q] produce(2) inv PLoadRead
      by (intro kept) (auto simp: now_sent_def Let_def)
  next
    case (PWriteSkip q w)
    then have "producer_inv cap (rw_memory s) (PWriteSkip q w)" "producer_step cap (PWriteSkip q w) (rw_memory s) = (p', m')"
      using inv(3) produce(2) by (simp_all only:)
    then show ?thesis using PWriteSkip by (intro kept write_skip_inv[OF inv(2) _ assms(3)]) (simp_all only: now_sent_def producer.case)
  next
    case (PWriteLen q i)
    then have "producer_inv cap (rw_memory s) (PWriteLen q i)" "producer_step cap (PWriteLen q i) (rw_memory s) = (p', m')"
      using inv(3) produce(2) by (simp_all only:)
    then show ?thesis using PWriteLen by (intro kept write_len_inv[OF inv(2) _]) (simp_all only: now_sent_def producer.case)
  next
    case (PWritePayload q i)
    then have "producer_inv cap (rw_memory s) (PWritePayload q i)" "producer_step cap (PWritePayload q i) (rw_memory s) = (p', m')"
      using inv(3) produce(2) by (simp_all only:)
    then show ?thesis using PWritePayload by (intro kept write_payload_inv[OF inv(2) _]) (simp_all only: now_sent_def producer.case)
  next
    case (PStore q i)
    then have "memory_inv cap m' (waiting @ [q]) (length (rw_sent s) + 1)" "producer_inv cap m' p'"
      "consumer_inv cap m' (rw_consumer s)"
      using store_inv[OF inv(2) _ assms(3), of q i p' m'] produce(2) inv(3,4) by simp_all
    then show ?thesis using inv(1) PStore unfolding produce(1) ring_inv_memory by (simp add: now_sent_def)
  next
    case (PDone r)
    then have "p' = PDone r" "m' = rw_memory s" using produce(2) by simp_all
    then show ?thesis using PDone inv(2) by (intro kept) (simp_all add: now_sent_def producer_inv_def)
  next
    case (PLoadWrite q)
    then have "p' = PLoadRead q (rm_write_idx m')" "m' = rw_memory s" "length q \<le> MAX_PACKET_SIZE"
      using produce(2) inv(3) by (auto simp: producer_inv_def)
    then show ?thesis using PLoadWrite inv(2) by (intro kept) (simp_all add: now_sent_def producer_inv_def)
  qed
next
  case (consume c' m')
  obtain waiting where inv: "rw_sent s = rw_received s @ waiting" "memory_inv cap (rw_memory s) waiting (length (rw_sent s))"
    "producer_inv cap (rw_memory s) (rw_producer s)" "consumer_inv cap (rw_memory s) (rw_consumer s)"
    using assms(2) unfolding ring_inv_memory by blast
  have kept: "ring_inv cap t" if "now_received (rw_consumer s) = []"
    "memory_inv cap m' waiting (length (rw_sent s)) \<and> consumer_inv cap m' c' \<and>
      (\<forall>p. producer_inv cap (rw_memory s) p \<longrightarrow> producer_inv cap m' p)"
    using that inv(1,3) unfolding consume(1) ring_inv_memory by simp
  show ?thesis
  proof (cases "rw_consumer s")
    case (CReadLen b r)
    then show ?thesis using read_decide_inv[OF inv(2), of b r] consume(2) inv
      by (intro kept) (auto simp: now_received_def Let_def)
  next
    case (CSkip b r)
    then have "consumer_inv cap (rw_memory s) (CSkip b r)" "consumer_step cap (CSkip b r) (rw_memory s) = (c', m')"
      using inv(4) consume(2) by (simp_all only:)
    then show ?thesis using CSkip by (intro kept skip_inv[OF inv(2)]) (simp_all only: now_received_def consumer.case)
  next
    case (CStore b r len p)
    then obtain rest where "waiting = p # rest" "memory_inv cap m' rest (length (rw_sent s))" "consumer_inv cap m' c'"
      "producer_inv cap m' (rw_producer s)"
      using take_inv[OF inv(2), of b r len p c' m'] consume(2) inv(3,4) by auto
    then show ?thesis using inv(1) CStore unfolding consume(1) ring_inv_memory by (simp add: now_received_def)
  next
    case (CCopy b r len)
    obtain p where p: "len = of_nat (length p)" "entry_at (unat cap) (rm_data (rw_memory s)) (unat (rm_read_idx (rw_memory s))) p"
      "r = rm_read_idx (rw_memory s)"
      "unat (rm_read_idx (rw_memory s)) + entry_size (length p) \<le> unat (rm_write_idx (rw_memory s))"
      using inv(4) unfolding CCopy consumer_inv_def Let_def consumer.case by blast
    have "read_payload cap r (unat len) (rw_memory s) = p"
      unfolding read_payload_def ring_pos_eq p(1,3) entry_at_length[OF p(2)] ENTRY_HEADER_def by (rule entry_atD(4)[OF p(2)])
    then show ?thesis using consume(2) inv p(2-) entry_at_length[OF p(2)] p(1) CCopy
      by (intro kept) (auto simp: now_received_def consumer_inv_def Let_def)
  next
    case (CDone r)
    then have "c' = CDone r" "m' = rw_memory s" using consume(2) by simp_all
    then show ?thesis using CDone inv(2) by (intro kept) (simp_all add: now_received_def consumer_inv_def)
  next
    case (CLoadRead b)
    then have "c' = CLoadWrite b (rm_read_idx m')" "m' = rw_memory s" using consume(2) by auto
    then show ?thesis using CLoadRead inv(2) by (intro kept) (simp_all add: now_received_def consumer_inv_def)
  next
    case (CLoadWrite b r)
    then have "c' = (if rm_write_idx m' \<le> r then CDone None else CReadLen b r)" "m' = rw_memory s" "r = rm_read_idx m'"
      using consume(2) inv(4) by (auto simp: consumer_inv_def Let_def)
    then show ?thesis using CLoadWrite inv(2)
      by (intro kept) (simp_all add: now_received_def consumer_inv_def Let_def word_le_nat_alt)
  qed
qed

lemma ring_step_sent: "ring_step cap s t \<Longrightarrow> length (rw_sent s) \<le> length (rw_sent t)"
  by (cases rule: ring_step.cases) auto

lemma ring_reach_inv:
  assumes "(ring_step cap)\<^sup>*\<^sup>* s t" "ring_inv cap s" "18048 * (length (rw_sent t) + 1) < 2 ^ 64"
  shows "ring_inv cap t"
  using assms
proof (induction rule: rtranclp_induct)
  case base
  then show ?case by simp
next
  case (step t u)
  have "18048 * (length (rw_sent t) + 1) \<le> 18048 * (length (rw_sent u) + 1)" using ring_step_sent[OF step.hyps(2)] by simp
  then have b: "18048 * (length (rw_sent t) + 1) < 2 ^ 64" using step.prems(2) by (rule le_less_trans)
  show ?case by (rule ring_step_inv[OF step.hyps(2) step.IH[OF step.prems(1) b] b])
qed

lemma create_pair_Ok:
  assumes "create_pair shm_size m = Ok (m0, cap, cap')"
  shows "cap' = cap \<and> MIN_CAPACITY \<le> cap \<and> rm_data m0 = rm_data m \<and> rm_write_idx m0 = 0 \<and> rm_read_idx m0 = 0"
  using assms by (auto simp: create_pair_def producer_from_raw_def consumer_from_raw_def Let_def
      split: if_splits result.splits)

text \<open>The bytes of the data area that the next step of a side touches.\<close>

definition producer_writes :: "u64 \<Rightarrow> producer \<Rightarrow> (nat \<times> nat) option" where
  "producer_writes cap p = (case p of
     PWriteSkip _ i \<Rightarrow> Some (ring_pos cap i, 4) | PWriteLen _ i \<Rightarrow> Some (ring_pos cap i, 4)
   | PWritePayload q i \<Rightarrow> Some (ring_pos cap i + ENTRY_HEADER, length q) | _ \<Rightarrow> None)"

definition consumer_reads :: "u64 \<Rightarrow> consumer \<Rightarrow> (nat \<times> nat) option" where
  "consumer_reads cap c = (case c of
     CReadLen _ r \<Rightarrow> Some (ring_pos cap r, 4) | CCopy _ r len \<Rightarrow> Some (ring_pos cap r + ENTRY_HEADER, unat len)
   | _ \<Rightarrow> None)"

text \<open>As ranges of absolute indices: the consumer reads below the write index, the producer writes above it.\<close>

lemma consumer_reads_range:
  assumes "ring_ok cap m" "consumer_inv cap m c" "consumer_reads cap c = Some (b, k)"
  shows "\<exists>j. b = j mod unat cap \<and> unat (rm_read_idx m) \<le> j \<and> j + k \<le> unat (rm_write_idx m) \<and> b + k \<le> unat cap"
proof -
  let ?R = "unat (rm_read_idx m)" and ?W = "unat (rm_write_idx m)" and ?C = "unat cap"
  have ok: "8 dvd ?R" "8 dvd ?W" "8 dvd ?C" using assms(1) unfolding ring_ok_def by blast+
  have pos: "?R mod ?C + 8 \<le> ?C" using aligned_position(2)[OF ok(1,3)] ring_ok_capacity[OF assms(1)] by simp
  then have four: "(?R + 4) mod ?C = ?R mod ?C + 4" using mod_add_left_eq[of ?R ?C 4] by simp
  from assms(3) consider n r where "c = CReadLen n r" "b = ring_pos cap r" "k = 4"
    | n r len where "c = CCopy n r len" "b = ring_pos cap r + 4" "k = unat len"
    by (cases c) (auto simp: consumer_reads_def ENTRY_HEADER_def)
  then show ?thesis
  proof cases
    case 1
    then have "r = rm_read_idx m" "?R < ?W" using assms(2) by (simp_all add: consumer_inv_def Let_def)
    moreover have "8 \<le> ?W - ?R" using dvd_imp_le[of 8 "?W - ?R"] ok(1,2) \<open>?R < ?W\<close> by (simp add: dvd_diff_nat)
    ultimately show ?thesis using 1 pos by (intro exI[of _ ?R]) (simp add: ring_pos_eq)
  next
    case 2
    obtain p where p: "len = of_nat (length p)" "entry_at ?C (rm_data m) ?R p" "r = rm_read_idx m" "?R + entry_size (length p) \<le> ?W"
      using assms(2) unfolding 2(1) consumer_inv_def Let_def consumer.case by blast
    have "length p + 4 \<le> entry_size (length p)" by (rule entry_size_bounds(2)[OF entry_atD(1)[OF p(2)]])
    moreover have "k = length p" unfolding 2(3) p(1) by (rule entry_at_length[OF p(2)])
    ultimately have "?R + 4 + k \<le> ?W" "b + k \<le> ?C" "b = (?R + 4) mod ?C"
      using p(4) entry_atD(2)[OF p(2)] four unfolding 2(2) p(3) ring_pos_eq by linarith+
    then show ?thesis by (intro exI[of _ "?R + 4"]) simp
  qed
qed

lemma producer_writes_range:
  assumes "ring_ok cap m" "producer_inv cap m p" "producer_writes cap p = Some (a, n)"
  shows "\<exists>i. a = i mod unat cap \<and> unat (rm_write_idx m) \<le> i \<and> i + n \<le> unat (rm_read_idx m) + unat cap \<and> a + n \<le> unat cap"
proof -
  let ?R = "unat (rm_read_idx m)" and ?W = "unat (rm_write_idx m)" and ?C = "unat cap"
  have ok: "8 dvd ?W" "8 dvd ?C" using assms(1) unfolding ring_ok_def by blast+
  have pos: "?W mod ?C + 8 \<le> ?C" using aligned_position(2)[OF ok] ring_ok_capacity[OF assms(1)] by simp
  from assms(3) consider q i where "p = PWriteSkip q i" "a = ring_pos cap i" "n = 4"
    | q i where "p = PWriteLen q i" "a = ring_pos cap i" "n = 4"
    | q i where "p = PWritePayload q i" "a = ring_pos cap i + 4" "n = length q"
    by (cases p) (auto simp: producer_writes_def ENTRY_HEADER_def)
  then show ?thesis
  proof cases
    case 1
    then have "i = rm_write_idx m" "?W + (?C - ?W mod ?C) + entry_size (length q) \<le> ?R + ?C"
      using assms(2) by (simp_all add: producer_inv_def Let_def)
    then show ?thesis using 1 pos by (intro exI[of _ ?W]) (simp add: ring_pos_eq)
  next
    case 2
    then have "room_at cap m q i" using assms(2) by (simp add: producer_inv_def)
    from room_at_write[OF this assms(1)] show ?thesis using 2 by (intro exI[of _ "unat i"]) (simp add: ring_pos_eq)
  next
    case 3
    then have "room_at cap m q i" using assms(2) by (simp add: producer_inv_def)
    from room_at_write[OF this assms(1)] show ?thesis using 3 by (intro exI[of _ "unat i + 4"]) (simp add: ring_pos_eq)
  qed
qed

lemma accesses_disjoint:
  assumes "ring_ok cap m" "producer_inv cap m p" "producer_writes cap p = Some (a, n)"
    "consumer_inv cap m c" "consumer_reads cap c = Some (b, k)"
  shows "b + k \<le> a \<or> a + n \<le> b"
proof -
  obtain i where i: "a = i mod unat cap" "unat (rm_write_idx m) \<le> i" "i + n \<le> unat (rm_read_idx m) + unat cap" "a + n \<le> unat cap"
    using producer_writes_range[OF assms(1-3)] by blast
  obtain j where j: "b = j mod unat cap" "unat (rm_read_idx m) \<le> j" "j + k \<le> unat (rm_write_idx m)" "b + k \<le> unat cap"
    using consumer_reads_range[OF assms(1,4,5)] by blast
  show ?thesis
    unfolding i(1) j(1)
    by (rule ring_ranges_apart) (use i j ring_ok_capacity[OF assms(1)] in linarith)+
qed

text \<open>
  C3. A shared ring carries packets from one process to another.  However the accesses of the
  two sides interleave, the packets received are those sent, in order, each once and unchanged,
  and what is missing is still in the ring; the ring looks empty exactly when nothing is
  missing.  Every access stays inside the data area, and an access of the producer never touches
  bytes that the consumer is about to read.  The capacity has to be a multiple of eight, and the
  number of packets small enough that the 64-bit indices do not wrap (more than ten to the
  power of fifteen).
\<close>

theorem ring_interleavings:
  assumes "create_pair shm_size m = Ok (m0, cap, cap')" "length (rm_data m) = unat cap" "8 dvd unat cap"
    "(ring_step cap)\<^sup>*\<^sup>* (ring_start m0) s" "18048 * (length (rw_sent s) + 1) < 2 ^ 64"
  shows "(\<exists>waiting. rw_sent s = rw_received s @ waiting \<and> (waiting = [] \<longleftrightarrow> \<not> has_data (rw_memory s))) \<and>
    (\<forall>a n. producer_writes cap (rw_producer s) = Some (a, n) \<longrightarrow> a + n \<le> length (rm_data (rw_memory s)) \<and>
      (\<forall>b k. consumer_reads cap (rw_consumer s) = Some (b, k) \<longrightarrow> b + k \<le> a \<or> a + n \<le> b)) \<and>
    (\<forall>b k. consumer_reads cap (rw_consumer s) = Some (b, k) \<longrightarrow> b + k \<le> length (rm_data (rw_memory s)))"
proof (intro conjI)
  have c: "MIN_CAPACITY \<le> cap" "rm_data m0 = rm_data m" "rm_write_idx m0 = 0" "rm_read_idx m0 = 0"
    using create_pair_Ok[OF assms(1)] by blast+
  have "ring_inv cap (ring_start m0)"
    using c assms(2,3) by (auto simp: ring_inv_def ring_start_def ring_ok_def producer_inv_def consumer_inv_def intro: entries.none)
  then have inv: "ring_inv cap s" by (rule ring_reach_inv[OF assms(4) _ assms(5)])
  then have ok: "ring_ok cap (rw_memory s)" "length (rm_data (rw_memory s)) = unat cap"
    "producer_inv cap (rw_memory s) (rw_producer s)" "consumer_inv cap (rw_memory s) (rw_consumer s)"
    by (simp_all add: ring_inv_def ring_ok_def)
  obtain waiting where w: "rw_sent s = rw_received s @ waiting"
    "entries (unat cap) (rm_data (rw_memory s)) (unat (rm_read_idx (rw_memory s))) (unat (rm_write_idx (rw_memory s))) waiting"
    using inv unfolding ring_inv_def by blast
  have "waiting = [] \<longleftrightarrow> \<not> unat (rm_read_idx (rw_memory s)) < unat (rm_write_idx (rw_memory s))"
    by (rule entries_empty[OF w(2)])
  then show "\<exists>waiting. rw_sent s = rw_received s @ waiting \<and> (waiting = [] \<longleftrightarrow> \<not> has_data (rw_memory s))"
    using w(1) unfolding has_data_def word_less_nat_alt by blast
  show "\<forall>a n. producer_writes cap (rw_producer s) = Some (a, n) \<longrightarrow> a + n \<le> length (rm_data (rw_memory s)) \<and>
      (\<forall>b k. consumer_reads cap (rw_consumer s) = Some (b, k) \<longrightarrow> b + k \<le> a \<or> a + n \<le> b)"
    using producer_writes_range[OF ok(1,3)] accesses_disjoint[OF ok(1,3) _ ok(4)] ok(2) by metis
  show "\<forall>b k. consumer_reads cap (rw_consumer s) = Some (b, k) \<longrightarrow> b + k \<le> length (rm_data (rw_memory s))"
    using consumer_reads_range[OF ok(1,4)] ok(2) by metis
qed

text \<open>A witness: a new ring of 64 KiB, at the moment the producer is about to write the first length.\<close>

theorem ring_interleavings_witness:
  "\<exists>m0 s. create_pair (65536 + 192) \<lparr> rm_write_idx = 5, rm_read_idx = 5, rm_capacity = 0, rm_data = replicate 65536 0 \<rparr>
       = Ok (m0, 65536, 65536) \<and>
     (ring_step 65536)\<^sup>*\<^sup>* (ring_start m0) s \<and> rw_producer s = PWriteLen [7] 0 \<and>
     rw_sent s = rw_received s \<and> 0 + 4 \<le> length (rm_data (rw_memory s))"
proof -
  let ?m = "\<lparr> rm_write_idx = 5, rm_read_idx = 5, rm_capacity = 0, rm_data = replicate 65536 (0 :: u8) \<rparr>"
  let ?init = "\<lparr> rm_write_idx = 0, rm_read_idx = 0, rm_capacity = 65536, rm_data = replicate 65536 (0 :: u8) \<rparr>"
  let ?w = "\<lambda>p. \<lparr> rw_memory = ?init, rw_producer = p, rw_consumer = CDone None, rw_sent = [], rw_received = [] \<rparr>"
  have c: "create_pair (65536 + 192) ?m = Ok (?init, 65536, 65536)"
    by (simp add: create_pair_def producer_from_raw_def consumer_from_raw_def HEADER_SIZE_def MIN_CAPACITY_def)
  have es: "entry_size (length [7 :: u8]) = 8" by (simp add: entry_size_eq MAX_PACKET_SIZE_def)
  have 1: "ring_step 65536 (?w (PDone True)) (?w (PLoadWrite [7]))"
    using ring_step.send[of "?w (PDone True)" True 65536 "[7]"] by (simp add: send_start_def MAX_PACKET_SIZE_def)
  have 2: "ring_step 65536 (?w (PLoadWrite [7])) (?w (PLoadRead [7] 0))"
    using ring_step.produce[of 65536 "?w (PLoadWrite [7])"] by (simp add: now_sent_def)
  have 3: "ring_step 65536 (?w (PLoadRead [7] 0)) (?w (PWriteLen [7] 0))"
    using ring_step.produce[of 65536 "?w (PLoadRead [7] 0)" "PWriteLen [7] 0" ?init] es
    by (simp add: now_sent_def Let_def ring_pos_def)
  have run: "(ring_step 65536)\<^sup>*\<^sup>* (ring_start ?init) (?w (PWriteLen [7] 0))"
    unfolding ring_start_def using 1 2 3 by (meson converse_rtranclp_into_rtranclp rtranclp.rtrancl_refl)
  have "0 + 4 \<le> length (rm_data (rw_memory (?w (PWriteLen [7] 0))))"
    using ring_interleavings[OF c _ _ run] by (simp add: producer_writes_def ring_pos_def)
  then show ?thesis using c run by (intro exI[of _ ?init] exI[of _ "?w (PWriteLen [7] 0)"]) simp
qed

section \<open>Each side alone\<close>

lemma try_send_steps:
  "((\<lambda>(p, m). producer_step cap p m) ^^ 6) (send_start packet, m) =
     (PDone (fst (try_send cap packet m)), snd (try_send cap packet m))"
  by (simp add: eval_nat_numeral send_start_def try_send_def write_entry_def Let_def)

lemma consumer_runs_append:
  "((\<lambda>(c, m). consumer_step cap c m) ^^ k) x = y \<Longrightarrow> ((\<lambda>(c, m). consumer_step cap c m) ^^ j) y = z \<Longrightarrow>
   ((\<lambda>(c, m). consumer_step cap c m) ^^ (j + k)) x = z"
  by (simp add: funpow_add)

lemma try_recv_steps:
  assumes "try_recv cap n m = Some y"
  shows "\<exists>k. ((\<lambda>(c, m). consumer_step cap c m) ^^ k) (CLoadRead n, m) = (CDone (fst y), snd y)"
proof (rule try_recv.raw_induct[OF _ assms])
  fix f :: "u64 \<Rightarrow> nat \<Rightarrow> ring_memory \<Rightarrow> (u8 list option \<times> ring_memory) option" and cap n m y
  let ?step = "\<lambda>(c, m). consumer_step cap c m"
  assume IH: "\<And>cap n m y. f cap n m = Some y \<Longrightarrow>
      \<exists>k. ((\<lambda>(c, m). consumer_step cap c m) ^^ k) (CLoadRead n, m) = (CDone (fst y), snd y)"
  assume body: "(let read_idx = rm_read_idx m in
     if rm_write_idx m \<le> read_idx then Some (None, m)
     else let len = read_len cap read_idx m in
       if len = SKIP_MARKER
       then f cap n (m\<lparr>rm_read_idx := read_idx + of_nat (unat cap - ring_pos cap read_idx)\<rparr>)
       else if unat len > n then Some (None, m)
       else Some (Some (read_payload cap read_idx (unat len) m),
                  m\<lparr>rm_read_idx := read_idx + of_nat (entry_size (unat len))\<rparr>)) = Some y"
  let ?r = "rm_read_idx m"
  consider (empty) "rm_write_idx m \<le> ?r" "y = (None, m)"
    | (skip) "\<not> rm_write_idx m \<le> ?r" "read_len cap ?r m = SKIP_MARKER"
        "f cap n (m\<lparr>rm_read_idx := ?r + of_nat (unat cap - ring_pos cap ?r)\<rparr>) = Some y"
    | (small) "\<not> rm_write_idx m \<le> ?r" "read_len cap ?r m \<noteq> SKIP_MARKER" "n < unat (read_len cap ?r m)" "y = (None, m)"
    | (good) "\<not> rm_write_idx m \<le> ?r" "read_len cap ?r m \<noteq> SKIP_MARKER" "\<not> n < unat (read_len cap ?r m)"
        "y = (Some (read_payload cap ?r (unat (read_len cap ?r m)) m),
              m\<lparr>rm_read_idx := ?r + of_nat (entry_size (unat (read_len cap ?r m)))\<rparr>)"
    using body by (auto simp: Let_def split: if_splits)
  then show "\<exists>k. (?step ^^ k) (CLoadRead n, m) = (CDone (fst y), snd y)"
  proof cases
    case empty then show ?thesis by (intro exI[of _ 2]) (simp add: eval_nat_numeral)
  next
    case skip
    have "(?step ^^ 4) (CLoadRead n, m) = (CLoadRead n, m\<lparr>rm_read_idx := ?r + of_nat (unat cap - ring_pos cap ?r)\<rparr>)"
      using skip(1,2) by (simp add: eval_nat_numeral Let_def)
    moreover obtain k where "(?step ^^ k) (CLoadRead n, m\<lparr>rm_read_idx := ?r + of_nat (unat cap - ring_pos cap ?r)\<rparr>) = (CDone (fst y), snd y)"
      using IH[OF skip(3)] by blast
    ultimately show ?thesis by (intro exI[of _ "k + 4"]) (simp only: funpow_add comp_apply)
  next
    case small then show ?thesis by (intro exI[of _ 3]) (simp add: eval_nat_numeral Let_def)
  next
    case good then show ?thesis by (intro exI[of _ 5]) (simp add: eval_nat_numeral Let_def)
  qed
qed

text \<open>On its own, a receive returns the oldest packet if the buffer is large enough for it.\<close>

definition recv_exact :: "u64 \<Rightarrow> nat \<Rightarrow> ring_memory \<Rightarrow> u8 list list \<Rightarrow> nat \<Rightarrow> bool" where
  "recv_exact cap n m waiting k = (case waiting of
      [] \<Rightarrow> try_recv cap n m = Some (None, m)
    | p # rest \<Rightarrow> \<exists>m'. if length p \<le> n then try_recv cap n m = Some (Some p, m') \<and> memory_inv cap m' rest k
        else try_recv cap n m = Some (None, m') \<and> memory_inv cap m' waiting k)"

lemma try_recv_exact:
  assumes "memory_inv cap m waiting k"
  shows "recv_exact cap n m waiting k"
proof -
  have "entries (unat cap) d r w waiting \<Longrightarrow> memory_inv cap m waiting k \<Longrightarrow> d = rm_data m \<Longrightarrow>
      r = unat (rm_read_idx m) \<Longrightarrow> w = unat (rm_write_idx m) \<Longrightarrow> recv_exact cap n m waiting k" for d r w
  proof (induction arbitrary: m rule: entries.induct)
    case (none w)
    then have "rm_write_idx m \<le> rm_read_idx m" by (simp add: word_le_nat_alt)
    then show ?case unfolding recv_exact_def by (subst try_recv.simps) (simp add: Let_def)
  next
    case (entry r p w ps)
    have at: "entry_at (unat cap) (rm_data m) (unat (rm_read_idx m)) p"
      and rest: "entries (unat cap) (rm_data m) (unat (rm_read_idx m) + entry_size (length p)) (unat (rm_write_idx m)) ps"
      using entry.hyps entry.prems(2-) by (simp_all only:)
    have es: "8 dvd entry_size (length p)" "0 < entry_size (length p)" using entry_size_bounds[OF entry_atD(1)[OF at]] by blast+
    have ok: "ring_ok cap m" using entry.prems(1) unfolding memory_inv_def by blast
    have more: "\<not> rm_write_idx m \<le> rm_read_idx m" using entries_le[OF rest] es(2) by (simp add: word_le_nat_alt)
    have len: "read_len cap (rm_read_idx m) m \<noteq> SKIP_MARKER" using entry_not_skip[OF at] read_len_skip[OF ok] by blast
    have payload: "read_payload cap (rm_read_idx m) (length p) m = p"
      unfolding read_payload_def ring_pos_eq ENTRY_HEADER_def by (rule entry_atD(4)[OF at])
    have "try_recv cap n m = (if length p \<le> n then
        Some (Some p, m\<lparr>rm_read_idx := rm_read_idx m + of_nat (entry_size (length p))\<rparr>) else Some (None, m))"
      using more len payload by (subst try_recv.simps) (simp add: Let_def read_len_entry(2)[OF at])
    then show ?case
      using advance_read_inv(1)[OF entry.prems(1) es(1) rest] entry.prems(1) by (auto simp: recv_exact_def)
  next
    case (skip r w p ps)
    have at: "skip_at (unat cap) (rm_data m) (unat (rm_read_idx m))"
      and rest: "entries (unat cap) (rm_data m) (unat (rm_read_idx m) + (unat cap - unat (rm_read_idx m) mod unat cap)) (unat (rm_write_idx m)) (p # ps)"
      using skip.hyps skip.prems(2-) by (simp_all only:)
    define k' where "k' = unat cap - unat (rm_read_idx m) mod unat cap"
    define m1 where "m1 = m\<lparr>rm_read_idx := rm_read_idx m + of_nat k'\<rparr>"
    have ok: "ring_ok cap m" "8 dvd k'" using skip.prems(1) unfolding memory_inv_def ring_ok_def k'_def
      by (blast, simp add: dvd_diff_nat dvd_mod)
    have m1: "memory_inv cap m1 (p # ps) k"
      unfolding m1_def by (rule advance_read_inv(1)[OF skip.prems(1) ok(2) rest[folded k'_def]])
    have lt: "unat (rm_read_idx m) < unat (rm_write_idx m)"
      using entries_empty[OF skip.hyps(2)] entries_le[OF skip.hyps(2)] skip.prems(3,4) by simp
    have "try_recv cap n m = try_recv cap n m1"
      using lt read_len_skip[OF ok(1)] at unfolding m1_def k'_def
      by (subst try_recv.simps) (simp add: Let_def word_le_nat_alt ring_pos_eq)
    moreover have "recv_exact cap n m1 (p # ps) k"
      using advance_read_inv(3)[OF skip.prems(1) ok(2) rest[folded k'_def]] skip.prems(2-)
      by (intro skip.IH[OF m1]) (simp_all add: m1_def k'_def)
    ultimately show ?case unfolding recv_exact_def by (simp only: list.case)
  qed
  then show ?thesis using assms unfolding memory_inv_def by blast
qed

text \<open>
  A packet larger than the receiver's buffer is reported like an empty ring, and stays in front
  of the packets behind it.
\<close>

lemma oversized_packet_blocks:
  assumes "memory_inv cap m (p # rest) k" "n < length p"
  shows "\<exists>m'. try_recv cap n m = Some (None, m') \<and> memory_inv cap m' (p # rest) k"
  using try_recv_exact[OF assms(1), of n] assms(2) by (simp add: recv_exact_def)

text \<open>With a capacity that is not a multiple of four the skip marker is written past the end of the mapping.\<close>

lemma skip_marker_overruns:
  fixes m :: ring_memory
  assumes "rm_read_idx m = 65528"
  shows "fst (producer_step 65537 (PLoadRead [] 65536) m) = PWriteSkip [] 65536"
    "producer_writes 65537 (PWriteSkip [] 65536) = Some (65536, 4)" "unat (65537 :: u64) < 65536 + 4"
proof -
  have "entry_size (length []) = 8" by (simp add: entry_size_eq MAX_PACKET_SIZE_def)
  then show "fst (producer_step 65537 (PLoadRead [] 65536) m) = PWriteSkip [] 65536"
    using assms by (simp add: Let_def ring_pos_def)
qed (simp_all add: producer_writes_def ring_pos_def)

end
