(* ===== verification/Spec2Isabelle.thy ===== *)
theory Spec2Isabelle
  imports Transport_Properties Device_Manager Rate_Limit Uart Vsock_Device Rng_Device Net_Device Balloon_Device Pci Dns_Registry Virtual_Switch Image_Reference Compose Guest_Links Build_Engine Shared_Ring
begin

text \<open>
  Visor runs OCI containers as small virtual machines.  The repository has six crates under
  \<^verbatim>\<open>src/crates\<close>: the virtual machine monitor (\<^verbatim>\<open>visor-vmm\<close>), the daemon
  with its command line (\<^verbatim>\<open>visor-runtime\<close>), the image builder (\<^verbatim>\<open>visor-build\<close>),
  the shared types (\<^verbatim>\<open>visor-types\<close>), the guest's first process (\<^verbatim>\<open>visor-init\<close>)
  and the Docker compatible API (\<^verbatim>\<open>visor-docker\<close>), and a crate that embeds the guest
  kernel.  This development models the parts of them that compute: the devices a guest talks to,
  the tables and allocators of the daemon, the orchestration of several machines, and the build
  of images.

  \<^bold>\<open>How the parts interact.\<close>  A guest access leaves the virtual CPU as an exit; the run loop
  (\<^verbatim>\<open>vm/linux.rs\<close>) hands it to the device manager (\<^verbatim>\<open>devices/mod.rs\<close>), which looks
  the address up on the port or memory bus (\<^verbatim>\<open>devices/bus.rs\<close>) and calls the device there.
  A virtio device sits behind the MMIO transport (\<^verbatim>\<open>transport/mmio.rs\<close>): the driver
  negotiates features and queues through its registers, and a notification makes the device walk
  its virtqueue (\<^verbatim>\<open>transport/mod.rs\<close>) in guest memory (\<^verbatim>\<open>memory.rs\<close>).  Above the
  monitor, the daemon gives machines addresses, names, links and networks, watches their health,
  and starts the services of a compose project in the order of their dependencies.

  \<^bold>\<open>Conventions.\<close>  Rust integers are words of their width; \<open>Result\<close> is the type \<open>result\<close> with
  constructors \<open>Ok\<close> and \<open>Err\<close>, error messages are constructors; a mutex that may be poisoned is
  the type \<open>mutex\<close>.  Structures are records, and a method that takes a mutable reference returns
  the new record.  A trait object is a record of its methods.  What the code gets from outside,
  such as the clock, random identifiers, host files, the execution backend, the guest's answer to
  a ping, or a third-party parser, is an argument of the definitions that use it.  A hash map that
  is only looked up is a partial map; one whose iteration order reaches the result is an
  association list, so that the results hold for every order.  Strings are byte lists, and the
  standard library's functions on them are in \<open>Rust_Str\<close>.

  \<^bold>\<open>The monitor.\<close>
  \<^item> \<open>Visor_Prelude\<close>, \<open>Host_File\<close>: words, results, little-endian bytes, bounded loops, files.
  \<^item> \<open>Guest_Memory\<close> (\<^verbatim>\<open>memory.rs\<close>): bounds-checked access; a write changes exactly the bytes
    it names or fails without effect.  The locale \<open>guest_ram\<close> is the contract the devices use.
  \<^item> \<open>Virt_Queue\<close>, \<open>Virtio_Device\<close>, \<open>Queue_Pass\<close> (\<^verbatim>\<open>transport/mod.rs\<close>): descriptors, rings,
    the device trait with its laws (locale \<open>virtio_device\<close>), and the pass over a queue that the
    entropy, network and vsock devices share (locale \<open>queue_client\<close>).  \<open>Used_Ring\<close> has the areas of a
    queue in guest memory and the lemmas that carry the used entries to the end of a pass.
  \<^item> \<open>Mmio_Transport\<close>, \<open>Transport_Properties\<close> (\<^verbatim>\<open>transport/mmio.rs\<close>): every register, for any
    device; the transport keeps its invariant under all accesses, the handshake of a conforming
    driver activates the device (the reset that opens it keeps the features acknowledged before,
    so only the first driver gets exactly what it negotiated), live queues cannot be changed, a read-only disk stays unchanged
    under every sequence of accesses of the machine.
  \<^item> \<open>Block_Device\<close>, \<open>Block_Properties\<close> (\<^verbatim>\<open>devices/block.rs\<close>): all requests; data written is
    read back, and a pass serves the requests in order and leaves one used entry for each, with
    its head and length, when the driver keeps rings and buffers apart.
  \<^item> \<open>Vsock_Packet\<close>, \<open>Vsock_Tx_Buf\<close>, \<open>Vsock_Connection\<close>, \<open>Vsock_Device\<close>
    (\<^verbatim>\<open>devices/vsock.rs\<close>): the header codec (locale \<open>wire_codec\<close>), the ring buffer as a bounded
    queue (locale \<open>byte_fifo\<close>), the connection with its credit and its state machine, the
    connection map and both queue passes.  A connection carries two ordered streams without loss,
    respects the credit granted, moves along the documented edges and three kinds of further
    ones, and a packet acts only on the connection with its ports.
  \<^item> \<open>Net_Device\<close>, \<open>Rng_Device\<close>, \<open>Balloon_Device\<close> (\<^verbatim>\<open>devices/{net,rng,balloon}.rs\<close>): their
    queue passes, scatter and gather along the chains of the descriptor table, exact lengths and
    used entries, termination.
  \<^item> \<open>Uart\<close> (\<^verbatim>\<open>devices/{uart,serial}.rs\<close>): all registers, the FIFO as a byte stream, interrupts.
  \<^item> \<open>Io_Bus\<close>, \<open>Device_Manager\<close> (\<^verbatim>\<open>devices/{bus,mod}.rs\<close>, exits of \<^verbatim>\<open>platform/mod.rs\<close>, loop of
    \<^verbatim>\<open>vm/linux.rs\<close>): registration and binary search implement an address map (locale
    \<open>address_map\<close>); an access reaches exactly the device registered for the address.
  \<^item> \<open>Pci\<close> (\<^verbatim>\<open>transport/{pci,pci_bus}.rs\<close>): configuration space, BAR sizing, MSI-X.
  \<^item> \<open>Shared_Ring\<close> (\<^verbatim>\<open>net/shared_ring.rs\<close>): the packet ring between two machines, with its two
    sides split into single accesses and interleaved: no packet is lost, repeated or torn.
  \<^item> \<open>Rate_Limit\<close> (\<^verbatim>\<open>rate_limit/*.rs\<close>): the token bucket never grants more than rate and
    burst allow, and waiting ends.

  \<^bold>\<open>The daemon.\<close>
  \<^item> \<open>Vm_Types\<close>, \<open>Guest_Links\<close> (\<^verbatim>\<open>visor-types/src/lib.rs\<close>): configurations, and the addresses
    derived from CIDs and network names with exactly when they collide.
  \<^item> \<open>Ip_Alloc\<close>, \<open>Dns_Registry\<close>, \<open>Virtual_Switch\<close> (\<^verbatim>\<open>net/{ip_alloc,dns,server,switch}.rs\<close>):
    addresses in use are distinct, the forward and reverse tables agree.
  \<^item> \<open>Image_Reference\<close> (\<^verbatim>\<open>oci/reference.rs\<close>): parser and printer are inverse.
  \<^item> \<open>Network_Manager\<close> (\<^verbatim>\<open>api/routes/networks.rs\<close>), \<open>Health_Check\<close> (\<^verbatim>\<open>pool/health.rs\<close>).
  \<^item> \<open>Dependency_Sort\<close>, \<open>Compose\<close> (\<^verbatim>\<open>compose/orchestrator.rs\<close>): the start order, and the whole
    of up, down and ps over the networks, names and addresses of the other theories.

  \<^bold>\<open>The builder\<close> (\<^verbatim>\<open>visor-build/src\<close>).
  \<^item> \<open>Build_Substitute\<close> (\<^verbatim>\<open>substitute.rs\<close>): every text is a sequence of
    well-formed pieces or has an unclosed brace, and substitution gives the values of the pieces.
  \<^item> \<open>Dockerfile\<close> (\<^verbatim>\<open>dockerfile.rs\<close>): arguments in every quoting style are read back.
  \<^item> \<open>Build_Engine\<close> (\<^verbatim>\<open>engine.rs\<close>): the stages built are those the target depends on, the
    calls made of the build machine on every branch of an instruction (a layer only after exit
    code 0), and the shape of the result, which describes the last stage only.

  \<^bold>\<open>Bounds and fuel.\<close>  The loops of the source end by structural recursion, by a measure, or are
  \<open>partial_function\<close> with \<open>None\<close> for a loop that does not return; in the last case a theorem shows
  that they return (the address search, waiting for tokens, the balloon's queues, the compose
  health wait).  Descriptor walks carry the bound the code itself uses, the queue size.  The run
  loop takes the list of exits the hypervisor delivers.

  \<^bold>\<open>Not modelled.\<close>  Code whose content is calls of the operating system, of the hypervisor or of a
  third-party crate, around which little is computed: the back ends of KVM and
  Hypervisor.framework, boot loading, TAP and vmnet devices, VFIO, sandboxing, snapshots to
  files, registry requests, archives and file system images, processes of the daemon, the
  guest's init, HTTP handlers, command line and terminal interface.  The file
  \<^verbatim>\<open>net/packet.rs\<close> of the runtime is not compiled.  Interleavings of threads are modelled where a lock
  makes an operation atomic: each operation under its lock is one step.  Log output is left out.
\<close>

end
